(* ===== verification/Prelude.thy ===== *)
theory Prelude
  imports Main "HOL-Library.Word"
begin

text \<open>
  Shared ground of the development: the integer types of the Go code, the run-time panics
  a Go statement can raise, indexing that panics out of range, the ``seen map'' loop that
  four functions of the program write out by hand, and the notion of a reachable state
  with the one proof principle every state machine here uses.
\<close>

section \<open>Types\<close>

type_synonym byte = "8 word"
type_synonym u16 = "16 word"
type_synonym u32 = "32 word"
type_synonym u64 = "64 word"

text \<open>An \<open>int64\<close> counter is a 64-bit word read through \<open>sint\<close>.\<close>

type_synonym i64 = "64 word"

lemma unat_byte_less [simp]: "unat (b :: byte) < 256"
  using unsigned_less [of b] by simp

lemma unat_u16_less [simp]: "unat (p :: u16) < 65536"
  using unsigned_less [of p] by simp

text \<open>The run-time panics the modelled statements can raise.\<close>

datatype go_panic =
    NilDereference
  | IndexOutOfRange
  | DivideByZero
  | CloseOfNilChannel
  | CloseOfClosedChannel
  | FailedTypeAssertion
  | NonPositiveTicker

named_theorems model_simps \<open>unfolding rules of the operations of the model\<close>

section \<open>Indexing\<close>

definition go_index :: "'a list \<Rightarrow> nat \<Rightarrow> go_panic + 'a" where
  "go_index xs i = (if i < length xs then Inr (xs ! i) else Inl IndexOutOfRange)"

lemma go_index_in_range [simp]: "i < length xs \<Longrightarrow> go_index xs i = Inr (xs ! i)"
  by (simp add: go_index_def)

lemma go_index_Inr: "go_index xs i = Inr x \<longleftrightarrow> i < length xs \<and> x = xs ! i"
  by (auto simp: go_index_def)

lemma go_index_Inr_mem: "go_index xs i = Inr x \<Longrightarrow> x \<in> set xs"
  by (auto simp: go_index_Inr)

lemma go_index_Inl: "go_index xs i = Inl e \<longleftrightarrow> length xs \<le> i \<and> e = IndexOutOfRange"
  by (auto simp: go_index_def)

section \<open>First occurrences: the ``seen map'' loop\<close>

text \<open>
  \<open>keep_new key seen xs\<close> keeps the elements of \<open>xs\<close> whose key has not been seen before,
  in order.
\<close>

fun keep_new :: "('a \<Rightarrow> 'k) \<Rightarrow> 'k set \<Rightarrow> 'a list \<Rightarrow> 'a list" where
  "keep_new key seen [] = []"
| "keep_new key seen (x # xs) =
     (if key x \<in> seen then keep_new key seen xs
      else x # keep_new key (insert (key x) seen) xs)"

lemma keep_new_keys: "key ` set (keep_new key seen xs) = key ` set xs - seen"
  by (induction xs arbitrary: seen) auto

lemma keep_new_subset: "set (keep_new key seen xs) \<subseteq> set xs"
proof (induction xs arbitrary: seen)
  case (Cons x xs)
  from Cons [of seen] Cons [of "insert (key x) seen"] show ?case by auto
qed simp

lemma keep_new_distinct: "distinct (map key (keep_new key seen xs))"
proof (induction xs arbitrary: seen)
  case (Cons x xs)
  have "key x \<notin> key ` set (keep_new key (insert (key x) seen) xs)"
    by (simp add: keep_new_keys)
  with Cons show ?case by simp
qed simp

lemma keep_new_append:
  "keep_new key seen (xs @ ys) = keep_new key seen xs @ keep_new key (seen \<union> key ` set xs) ys"
  by (induction xs arbitrary: seen) (auto simp: insert_absorb)

lemma keep_new_id:
  "distinct (map key xs) \<Longrightarrow> key ` set xs \<inter> seen = {} \<Longrightarrow> keep_new key seen xs = xs"
  by (induction xs arbitrary: seen) auto

lemma length_keep_new: "length (keep_new key seen xs) \<le> length xs"
  by (induction xs arbitrary: seen) (auto simp: le_SucI)

lemma card_keep_new: "length (keep_new key seen xs) = card (key ` set xs - seen)"
  by (metis distinct_card keep_new_distinct keep_new_keys length_map set_map)

section \<open>Reachable states\<close>

text \<open>
  A machine is a predicate for its start states and a step relation. What is reachable is
  the least set that holds the start states and is closed under steps.
\<close>

inductive reach :: "('s \<Rightarrow> bool) \<Rightarrow> ('s \<Rightarrow> 's \<Rightarrow> bool) \<Rightarrow> 's \<Rightarrow> bool"
  for start step where
  reach_start: "start s \<Longrightarrow> reach start step s"
| reach_step: "reach start step s \<Longrightarrow> step s t \<Longrightarrow> reach start step t"

locale invariant_system =
  fixes start :: "'s \<Rightarrow> bool"
    and step :: "'s \<Rightarrow> 's \<Rightarrow> bool"
    and inv :: "'s \<Rightarrow> bool"
  assumes inv_start: "start s \<Longrightarrow> inv s"
    and inv_step: "inv s \<Longrightarrow> step s t \<Longrightarrow> inv t"
begin

lemma reach_inv: "reach start step s \<Longrightarrow> inv s"
  by (induction rule: reach.induct) (auto intro: inv_start inv_step)

end

lemma reach_rtranclp: "step\<^sup>*\<^sup>* s t \<Longrightarrow> reach start step s \<Longrightarrow> reach start step t"
  by (induction rule: rtranclp_induct) (auto intro: reach_step)

text \<open>
  A refinement: every step of the concrete machine is a sequence of steps of the abstract one,
  seen through \<open>abs\<close>, in the states that satisfy an invariant.
\<close>

locale simulation = invariant_system start step inv
  for start :: "'s \<Rightarrow> bool" and step :: "'s \<Rightarrow> 's \<Rightarrow> bool" and inv :: "'s \<Rightarrow> bool" +
  fixes astart :: "'a \<Rightarrow> bool"
    and astep :: "'a \<Rightarrow> 'a \<Rightarrow> bool"
    and abs :: "'s \<Rightarrow> 'a"
  assumes sim_start: "start s \<Longrightarrow> astart (abs s)"
    and sim_step: "inv s \<Longrightarrow> step s t \<Longrightarrow> astep\<^sup>*\<^sup>* (abs s) (abs t)"
begin

lemma reach_abs: "reach start step s \<Longrightarrow> reach astart astep (abs s)"
proof (induction rule: reach.induct)
  case (reach_start s)
  then show ?case by (intro reach.reach_start sim_start)
next
  case (reach_step s t)
  from sim_step [OF reach_inv [OF reach_step.hyps(1)] reach_step.hyps(2)] reach_step.IH
  show ?case by (rule reach_rtranclp)
qed

end

end
