(* ===== verification/GoText.thy ===== *)
theory GoText
  imports Prelude
begin

text \<open>
  What the program uses of Go's \<open>strings\<close>, \<open>strconv\<close> and \<open>net\<close> packages on text.
  A Go string is a sequence of bytes, and so is a \<open>string\<close> here: \<open>char\<close> has 256
  values, and \<open>length\<close> counts bytes as Go's \<open>len\<close> does.
\<close>

unbundle bit_operations_syntax

section \<open>Strings and bytes\<close>

definition bytes_of :: "string \<Rightarrow> byte list" where
  "bytes_of s = map of_char s"

definition string_of :: "byte list \<Rightarrow> string" where
  "string_of bs = map (\<lambda>b. char_of (unat b)) bs"

lemma unat_of_char [simp]: "unat (of_char c :: byte) = of_char c"
proof -
  have "unat (of_nat (of_char c) :: byte) = take_bit 8 (of_char c)"
    by (simp add: unat_of_nat take_bit_eq_mod)
  moreover have "(of_nat (of_char c) :: byte) = of_char c"
    by (simp add: of_char_def)
  ultimately show ?thesis by (simp add: take_bit_eq_mod)
qed

lemma char_of_unat_of_char [simp]: "char_of (unat (of_char c :: byte)) = c"
  by simp

lemma string_of_bytes_of [simp]: "string_of (bytes_of s) = s"
  by (simp add: string_of_def bytes_of_def comp_def)

lemma length_bytes_of [simp]: "length (bytes_of s) = length s"
  by (simp add: bytes_of_def)

lemma length_string_of [simp]: "length (string_of bs) = length bs"
  by (simp add: string_of_def)

lemma bytes_of_append [simp]: "bytes_of (s @ t) = bytes_of s @ bytes_of t"
  by (simp add: bytes_of_def)

lemma bytes_of_Nil [simp]: "bytes_of [] = []"
  by (simp add: bytes_of_def)

lemma bytes_of_eq_Nil [simp]: "bytes_of s = [] \<longleftrightarrow> s = []"
  by (simp add: bytes_of_def)

section \<open>Searching and cutting\<close>

text \<open>\<open>strings.TrimPrefix\<close>, \<open>strings.HasPrefix\<close>, \<open>strings.Contains\<close> of one byte.\<close>

definition has_prefix :: "string \<Rightarrow> string \<Rightarrow> bool" where
  "has_prefix p s \<longleftrightarrow> take (length p) s = p"

definition trim_prefix :: "string \<Rightarrow> string \<Rightarrow> string" where
  "trim_prefix p s = (if has_prefix p s then drop (length p) s else s)"

lemma has_prefix_append [simp]: "has_prefix p (p @ s)"
  by (simp add: has_prefix_def)

lemma trim_prefix_append [simp]: "trim_prefix p (p @ s) = s"
  by (simp add: trim_prefix_def)

lemma has_prefix_iff: "has_prefix p s \<longleftrightarrow> (\<exists>t. s = p @ t)"
  by (metis append_take_drop_id has_prefix_append has_prefix_def)

text \<open>\<open>strings.LastIndex\<close> of one byte, as the pair of what is before and after it.\<close>

fun cut_last :: "char \<Rightarrow> string \<Rightarrow> (string \<times> string) option" where
  "cut_last c [] = None"
| "cut_last c (x # xs) =
     (case cut_last c xs of
        Some (a, b) \<Rightarrow> Some (x # a, b)
      | None \<Rightarrow> if x = c then Some ([], xs) else None)"

lemma cut_last_None: "cut_last c s = None \<longleftrightarrow> c \<notin> set s"
  by (induction s) (auto split: option.splits)

lemma cut_last_append: "c \<notin> set t \<Longrightarrow> cut_last c (s @ c # t) = Some (s, t)"
proof (induction s)
  case Nil
  then have "cut_last c t = None" by (simp add: cut_last_None)
  then show ?case by simp
qed simp

lemma cut_last_Some:
  "cut_last c s = Some (a, b) \<longleftrightarrow> s = a @ c # b \<and> c \<notin> set b"
proof
  assume "cut_last c s = Some (a, b)"
  then show "s = a @ c # b \<and> c \<notin> set b"
  proof (induction s arbitrary: a)
    case (Cons x xs)
    show ?case
    proof (cases "cut_last c xs")
      case None
      with Cons.prems show ?thesis by (auto simp: cut_last_None split: if_splits)
    next
      case (Some p)
      with Cons show ?thesis by (cases p) auto
    qed
  qed simp
qed (simp add: cut_last_append)

section \<open>Decimal numbers\<close>

definition digit_char :: "nat \<Rightarrow> char" where
  "digit_char d = char_of (48 + d)"

definition digit_val :: "char \<Rightarrow> nat" where
  "digit_val c = of_char c - 48"

definition is_digit :: "char \<Rightarrow> bool" where
  "is_digit c \<longleftrightarrow> (48::nat) \<le> of_char c \<and> of_char c \<le> (57::nat)"

lemma of_char_digit_char [simp]: "d < 10 \<Longrightarrow> (of_char (digit_char d) :: nat) = 48 + d"
  by (simp add: digit_char_def)

lemma digit_val_char [simp]: "d < 10 \<Longrightarrow> digit_val (digit_char d) = d"
  by (simp add: digit_val_def)

lemma is_digit_char [simp]: "d < 10 \<Longrightarrow> is_digit (digit_char d)"
  by (simp add: is_digit_def)

text \<open>\<open>strconv.Itoa\<close> and \<open>fmt.Sprintf("%d", n)\<close> of a number that is not negative.\<close>

fun itoa :: "nat \<Rightarrow> string" where
  "itoa n = (if n < 10 then [digit_char n] else itoa (n div 10) @ [digit_char (n mod 10)])"

declare itoa.simps [simp del]

definition sprint_int :: "int \<Rightarrow> string" where
  "sprint_int n = (if n < 0 then CHR ''-'' # itoa (nat (- n)) else itoa (nat n))"

definition dec_val :: "string \<Rightarrow> nat" where
  "dec_val s = foldl (\<lambda>n c. n * 10 + digit_val c) 0 s"

lemma itoa_digits: "\<forall>c \<in> set (itoa n). is_digit c"
proof (induction n rule: itoa.induct)
  case (1 n)
  then show ?case by (subst itoa.simps) auto
qed

lemma itoa_nonempty [simp]: "itoa n \<noteq> []"
  by (subst itoa.simps) simp

lemma dec_val_itoa [simp]: "dec_val (itoa n) = n"
proof (induction n rule: itoa.induct)
  case (1 n)
  show ?case
  proof (cases "n < 10")
    case True
    then show ?thesis by (subst itoa.simps) (simp add: dec_val_def)
  next
    case False
    with 1 have "dec_val (itoa (n div 10)) = n div 10" by simp
    with False show ?thesis by (subst itoa.simps) (simp add: dec_val_def)
  qed
qed

lemma itoa_inject [simp]: "itoa m = itoa n \<longleftrightarrow> m = n"
  by (metis dec_val_itoa)

lemma not_digit_specials [simp]:
  "\<not> is_digit CHR '':''" "\<not> is_digit CHR ''[''" "\<not> is_digit CHR '']''" "\<not> is_digit CHR ''-''"
  "\<not> is_digit CHR ''.''"
  by (simp_all add: is_digit_def)

lemma itoa_no_specials [simp]:
  "CHR '':'' \<notin> set (itoa n)" "CHR ''['' \<notin> set (itoa n)" "CHR '']'' \<notin> set (itoa n)"
  "CHR ''.'' \<notin> set (itoa n)"
  using itoa_digits [of n] not_digit_specials by blast+

section \<open>Dynamically typed values\<close>

text \<open>
  A Go value of type \<open>any\<close> as \<open>encoding/json\<close> and the YAML decoder produce it. A
  \<open>float64\<close> is kept exactly, as a sign, a mantissa and a power of two to divide it by:
  \<open>AnyFloat neg m e\<close> is \<open>m / 2 ^ e\<close>, negated if \<open>neg\<close>. A map has its keys in
  an association list whose first entry for a key is the one that counts.
\<close>

datatype any =
    AnyNil
  | AnyBool bool
  | AnyFloat bool nat nat
  | AnyString string
  | AnyList "any list"
  | AnyMap "(string \<times> any) list"

section \<open>Host and port\<close>

text \<open>\<open>net.JoinHostPort\<close>: a host with a colon in it is an IPv6 literal and gets brackets.\<close>

definition JoinHostPort :: "string \<Rightarrow> string \<Rightarrow> string" where
  "JoinHostPort host port =
     (if CHR '':'' \<in> set host then ''['' @ host @ '']:'' @ port else host @ '':'' @ port)"

text \<open>
  \<open>net.SplitHostPort\<close>, check by check: the port starts after the last colon; a bracketed
  host must end just before that colon; no other colon, and no other bracket, is accepted.
\<close>

datatype addr_error =
  MissingPort | TooManyColons | MissingBracket | UnexpectedOpen | UnexpectedClose

definition SplitHostPort :: "string \<Rightarrow> addr_error + (string \<times> string)" where
  "SplitHostPort hostport =
     (case cut_last CHR '':'' hostport of
        None \<Rightarrow> Inl MissingPort
      | Some (before, port) \<Rightarrow>
          if has_prefix ''['' hostport then
            if CHR '']'' \<notin> set hostport then Inl MissingBracket
            else
              (let endpos = length (takeWhile (\<lambda>c. c \<noteq> CHR '']'') hostport);
                   host = take (endpos - 1) (drop 1 hostport)
               in if endpos + 1 = length hostport then Inl MissingPort
                  else if endpos + 1 \<noteq> length before
                    then (if hostport ! (endpos + 1) = CHR '':'' then Inl TooManyColons
                          else Inl MissingPort)
                  else if CHR ''['' \<in> set (drop 1 hostport) then Inl UnexpectedOpen
                  else if CHR '']'' \<in> set (drop (endpos + 1) hostport) then Inl UnexpectedClose
                  else Inr (host, port))
          else if CHR '':'' \<in> set before then Inl TooManyColons
          else if CHR ''['' \<in> set hostport then Inl UnexpectedOpen
          else if CHR '']'' \<in> set hostport then Inl UnexpectedClose
          else Inr (before, port))"

definition plain_host :: "string \<Rightarrow> bool" where
  "plain_host h \<longleftrightarrow> CHR ''['' \<notin> set h \<and> CHR '']'' \<notin> set h"

definition plain_port :: "string \<Rightarrow> bool" where
  "plain_port p \<longleftrightarrow> CHR '':'' \<notin> set p \<and> CHR ''['' \<notin> set p \<and> CHR '']'' \<notin> set p"

lemma plain_port_itoa [simp]: "plain_port (itoa n)"
  by (simp add: plain_port_def)

text \<open>Splitting what was joined gives the parts back, for IPv6 literals too.\<close>

lemma SplitHostPort_JoinHostPort:
  assumes h: "plain_host h" and p: "plain_port p"
  shows "SplitHostPort (JoinHostPort h p) = Inr (h, p)"
proof (cases "CHR '':'' \<in> set h")
  case False
  have "cut_last CHR '':'' (h @ CHR '':'' # p) = Some (h, p)"
    using p by (intro cut_last_append) (simp add: plain_port_def)
  moreover have "\<not> has_prefix ''['' (h @ CHR '':'' # p)"
    using h by (cases h) (auto simp: has_prefix_def plain_host_def)
  ultimately show ?thesis
    using False h p by (simp add: SplitHostPort_def JoinHostPort_def plain_host_def plain_port_def)
next
  case True
  let ?s = "CHR ''['' # h @ CHR '']'' # CHR '':'' # p"
  have cut: "cut_last CHR '':'' ?s = Some (CHR ''['' # h @ [CHR '']''], p)"
    using cut_last_append [of "CHR '':''" p "CHR ''['' # h @ [CHR '']'']"] p
    by (simp add: plain_port_def)
  have "takeWhile (\<lambda>c. c \<noteq> CHR '']'') ((CHR ''['' # h) @ CHR '']'' # CHR '':'' # p) =
      (CHR ''['' # h) @ takeWhile (\<lambda>c. c \<noteq> CHR '']'') (CHR '']'' # CHR '':'' # p)"
    using h by (intro takeWhile_append2) (auto simp: plain_host_def)
  then have tw: "takeWhile (\<lambda>c. c \<noteq> CHR '']'') ?s = CHR ''['' # h" by simp
  have "SplitHostPort ?s = Inr (h, p)"
    using h p cut tw by (simp add: SplitHostPort_def has_prefix_def plain_host_def plain_port_def)
  then show ?thesis using True by (simp add: JoinHostPort_def)
qed

end
