(* ===== verification/Config.thy ===== *)
theory Config
  imports GoText
begin

text \<open>
  The configuration (\<open>internal/config/config.go\<close>): its records, the defaults, the
  validation that every loaded file goes through, and loading and saving over a file
  system and a YAML codec that are parameters. The abstract specification of validation is
  \<open>valid_config\<close>; the loop over the entries decides exactly that.
\<close>

section \<open>Data\<close>

record server_config =
  HTTPListen :: string
  SOCKS5Listen :: string
  APIListen :: string
  APIEnable :: bool

record proxy_entry =
  pe_Name :: string
  pe_Type :: string
  pe_Server :: string
  pe_Port :: int
  pe_Username :: string
  pe_Password :: string

record pool_config =
  pc_Strategy :: string
  pc_HealthCheck :: bool
  pc_Proxies :: "proxy_entry list"

record free_config =
  fc_Enabled :: bool
  fc_TestURLs :: "string list"
  fc_CrawlTimeout :: int
  fc_Timeout :: int
  fc_Concurrency :: int
  fc_LogDir :: string
  fc_Sources :: "any list"

record config =
  cfg_Server :: server_config
  cfg_Pool :: pool_config
  cfg_FreeProxy :: free_config

text \<open>The errors of this package, one constructor per \<open>fmt.Errorf\<close>.\<close>

datatype config_error =
    NoProxies
  | BadStrategy string
  | NameRequired nat
  | DuplicateName nat string
  | ServerRequired nat string string
  | InvalidPort nat string int
  | BadType nat string string
  | ReadFailed string
  | ParseFailed string
  | MarshalFailed
  | MkdirFailed
  | WriteFailed string

section \<open>Defaults\<close>

definition direct_entry :: proxy_entry where
  "direct_entry = \<lparr>pe_Name = ''direct'', pe_Type = ''direct'', pe_Server = [], pe_Port = 0,
     pe_Username = [], pe_Password = []\<rparr>"

definition Default :: config where
  "Default = \<lparr>
     cfg_Server = \<lparr>HTTPListen = ''127.0.0.1:7890'', SOCKS5Listen = ''127.0.0.1:7891'',
       APIListen = ''127.0.0.1:9090'', APIEnable = True\<rparr>,
     cfg_Pool = \<lparr>pc_Strategy = ''random'', pc_HealthCheck = False, pc_Proxies = [direct_entry]\<rparr>,
     cfg_FreeProxy = \<lparr>fc_Enabled = True,
       fc_TestURLs = [''http://myip.ipip.net'', ''http://www.baidu.com'', ''http://cip.cc''],
       fc_CrawlTimeout = 30, fc_Timeout = 8, fc_Concurrency = 50, fc_LogDir = [],
       fc_Sources = []\<rparr>\<rparr>"

section \<open>Validation\<close>

definition known_strategies :: "string list" where
  "known_strategies = [''random'', ''round-robin'', ''hash'', ''name'']"

text \<open>The body of the loop over \<open>c.Pool.Proxies\<close>: the checks of one entry, in order.\<close>

definition check_entry :: "string set \<Rightarrow> nat \<Rightarrow> proxy_entry \<Rightarrow> config_error option" where
  "check_entry seen i p =
     (if pe_Name p = [] then Some (NameRequired i)
      else if pe_Name p \<in> seen then Some (DuplicateName i (pe_Name p))
      else if pe_Type p = ''direct'' then None
      else if pe_Type p = ''http'' \<or> pe_Type p = ''socks5'' then
        (if pe_Server p = [] then Some (ServerRequired i (pe_Name p) (pe_Type p))
         else if pe_Port p \<le> 0 \<or> pe_Port p > 65535
           then Some (InvalidPort i (pe_Name p) (pe_Port p))
         else None)
      else Some (BadType i (pe_Name p) (pe_Type p)))"

fun check_entries :: "string set \<Rightarrow> nat \<Rightarrow> proxy_entry list \<Rightarrow> config_error option" where
  "check_entries seen i [] = None"
| "check_entries seen i (p # ps) =
     (case check_entry seen i p of
        Some e \<Rightarrow> Some e
      | None \<Rightarrow> check_entries (insert (pe_Name p) seen) (Suc i) ps)"

text \<open>
  \<open>Validate\<close> also writes the default strategy into the configuration, so it returns the
  configuration next to the error.
\<close>

definition Validate :: "config \<Rightarrow> config_error option \<times> config" where
  "Validate c =
     (if pc_Proxies (cfg_Pool c) = [] then (Some NoProxies, c)
      else
        (let c' = (if pc_Strategy (cfg_Pool c) = []
                   then c\<lparr>cfg_Pool := (cfg_Pool c)\<lparr>pc_Strategy := ''random''\<rparr>\<rparr> else c)
         in if pc_Strategy (cfg_Pool c') \<notin> set known_strategies
            then (Some (BadStrategy (pc_Strategy (cfg_Pool c'))), c')
            else (check_entries {} 0 (pc_Proxies (cfg_Pool c')), c')))"

text \<open>What a valid configuration is, without order or loops.\<close>

definition entry_ok :: "proxy_entry \<Rightarrow> bool" where
  "entry_ok p \<longleftrightarrow> pe_Name p \<noteq> [] \<and>
     (pe_Type p = ''direct'' \<or>
      (pe_Type p \<in> {''http'', ''socks5''} \<and> pe_Server p \<noteq> [] \<and>
       0 < pe_Port p \<and> pe_Port p \<le> 65535))"

definition pool_entries_ok :: "proxy_entry list \<Rightarrow> bool" where
  "pool_entries_ok ps \<longleftrightarrow> distinct (map pe_Name ps) \<and> (\<forall>p \<in> set ps. entry_ok p)"

definition valid_config :: "config \<Rightarrow> bool" where
  "valid_config c \<longleftrightarrow> pc_Proxies (cfg_Pool c) \<noteq> [] \<and>
     pc_Strategy (cfg_Pool c) \<in> insert [] (set known_strategies) \<and>
     pool_entries_ok (pc_Proxies (cfg_Pool c))"

lemma check_entry_None:
  "check_entry seen i p = None \<longleftrightarrow> entry_ok p \<and> pe_Name p \<notin> seen"
  by (auto simp: check_entry_def entry_ok_def split: if_splits)

lemma check_entries_None:
  "check_entries seen i ps = None \<longleftrightarrow>
     pool_entries_ok ps \<and> pe_Name ` set ps \<inter> seen = {}"
proof (induction ps arbitrary: seen i)
  case (Cons p ps)
  show ?case
  proof (cases "check_entry seen i p")
    case None
    then have "entry_ok p \<and> pe_Name p \<notin> seen" by (simp add: check_entry_None)
    with Cons None show ?thesis by (auto simp: pool_entries_ok_def)
  next
    case (Some e)
    then have "\<not> (entry_ok p \<and> pe_Name p \<notin> seen)" 
      using check_entry_None [of seen i p] by simp
    with Some show ?thesis by (auto simp: pool_entries_ok_def)
  qed
qed (simp add: pool_entries_ok_def)

text \<open>An error comes from the first entry that fails, after entries that all pass.\<close>

lemma check_entries_Some:
  "check_entries seen i ps = Some e \<longleftrightarrow>
     (\<exists>k < length ps. check_entries seen i (take k ps) = None \<and>
        check_entry (seen \<union> pe_Name ` set (take k ps)) (i + k) (ps ! k) = Some e)"
proof (induction ps arbitrary: seen i)
  case (Cons p ps)
  show ?case
  proof (cases "check_entry seen i p")
    case None
    with Cons [of "insert (pe_Name p) seen" "Suc i"] show ?thesis
      by (auto simp: less_Suc_eq_0_disj)
  next
    case (Some e')
    then show ?thesis by (auto simp: less_Suc_eq_0_disj)
  qed
qed simp

lemma Validate_config:
  "snd (Validate c) = c \<or>
   snd (Validate c) = c\<lparr>cfg_Pool := (cfg_Pool c)\<lparr>pc_Strategy := ''random''\<rparr>\<rparr> \<and> pc_Strategy (cfg_Pool c) = []"
  by (simp add: Validate_def Let_def)

lemma Validate_valid: "fst (Validate c) = None \<longleftrightarrow> valid_config c"
proof -
  have "''random'' \<in> set known_strategies" by (simp add: known_strategies_def)
  then show ?thesis
    by (simp add: Validate_def Let_def valid_config_def check_entries_None)
qed

text \<open>
  Validation accepts exactly the configurations that have at least one proxy, a known
  or empty strategy, non-empty pairwise different names, a known type for every entry, and
  a server and a port in 1..65535 for every entry that is not direct.
\<close>

theorem Validate_None_iff: "fst (Validate c) = None \<longleftrightarrow> valid_config c"
  by (rule Validate_valid)

text \<open>What validation leaves behind: the strategy is a known one, nothing else changed.\<close>

lemma Validate_result:
  assumes "Validate c = (None, c')"
  shows "pc_Strategy (cfg_Pool c') \<in> set known_strategies" and "valid_config c'"
    and "pc_Proxies (cfg_Pool c') = pc_Proxies (cfg_Pool c)" and "cfg_Server c' = cfg_Server c"
    and "cfg_FreeProxy c' = cfg_FreeProxy c"
  using assms
  by (auto simp: Validate_def Let_def valid_config_def check_entries_None known_strategies_def
      split: if_splits)

lemma Validate_idem:
  assumes "Validate c = (None, c')" shows "Validate c' = (None, c')"
  using assms by (auto simp: Validate_def Let_def split: if_splits)

section \<open>Loading and saving\<close>

text \<open>
  \<open>Load\<close> over the file system (\<open>readFile\<close>, \<open>None\<close> for an error) and over the YAML
  decoder, which fills a configuration it is given. The file content is whatever type the
  codec works on.
\<close>

definition Load ::
  "(string \<Rightarrow> 'd option) \<Rightarrow> ('d \<Rightarrow> config \<Rightarrow> config option) \<Rightarrow> string \<Rightarrow> config_error + config" where
  "Load readFile unmarshal path =
     (if path = [] then Inr Default
      else case readFile path of
        None \<Rightarrow> Inl (ReadFailed path)
      | Some data \<Rightarrow>
          (case unmarshal data Default of
             None \<Rightarrow> Inl (ParseFailed path)
           | Some cfg \<Rightarrow>
               (case Validate cfg of
                  (Some e, _) \<Rightarrow> Inl e
                | (None, cfg') \<Rightarrow> Inr cfg')))"

text \<open>
  \<open>Save\<close> over the encoder and the two file-system calls: \<open>mkdirAll\<close> says whether the
  directory of the path could be made, \<open>writeFile\<close> whether the write succeeded and what
  the files are afterwards. The result is the error, if any, and the files.
\<close>

definition Save ::
  "(config \<Rightarrow> 'd option) \<Rightarrow> (string \<Rightarrow> bool) \<Rightarrow>
   (string \<Rightarrow> 'd \<Rightarrow> (string \<rightharpoonup> 'd) \<Rightarrow> bool \<times> (string \<rightharpoonup> 'd)) \<Rightarrow>
   config \<Rightarrow> string \<Rightarrow> (string \<rightharpoonup> 'd) \<Rightarrow> config_error option \<times> (string \<rightharpoonup> 'd)" where
  "Save marshal mkdirAll writeFile c path files =
     (case marshal c of
        None \<Rightarrow> (Some MarshalFailed, files)
      | Some data \<Rightarrow>
          if \<not> mkdirAll path then (Some MkdirFailed, files)
          else (case writeFile path data files of
                  (True, files') \<Rightarrow> (None, files')
                | (False, files') \<Rightarrow> (Some (WriteFailed path), files')))"

lemma Load_Inr_cases:
  assumes "Load readFile unmarshal path = Inr c"
  obtains (no_path) "path = []" and "c = Default"
  | (loaded) data cfg where "path \<noteq> []" "readFile path = Some data"
      "unmarshal data Default = Some cfg" "Validate cfg = (None, c)"
  using assms by (auto simp: Load_def split: if_splits option.splits prod.splits)

lemma valid_Default: "valid_config Default"
  by (simp add: valid_config_def Default_def known_strategies_def pool_entries_ok_def
      entry_ok_def direct_entry_def)

text \<open>
  Whatever the file holds, a configuration that \<open>Load\<close> returns is valid and has one of
  the four strategies, never the empty one.
\<close>

theorem Load_valid:
  assumes "Load readFile unmarshal path = Inr c"
  shows "valid_config c \<and> pc_Strategy (cfg_Pool c) \<in> set known_strategies"
  using assms
proof (cases rule: Load_Inr_cases)
  case no_path
  then show ?thesis by (simp add: valid_Default) (simp add: Default_def known_strategies_def)
next
  case (loaded data cfg)
  then show ?thesis using Validate_result by blast
qed

theorem Load_valid_witness:
  "\<exists>c. Load (\<lambda>_. None) (\<lambda>(d :: string) c. None) [] = Inr c \<and> valid_config c"
proof -
  have l: "Load (\<lambda>_. None) (\<lambda>(d :: string) c. None) [] = Inr Default" by (simp add: Load_def)
  from Load_valid [OF l] l show ?thesis by blast
qed

text \<open>
  Saving a validated configuration and loading it again gives it back, when the write
  succeeds, the file then holds what was written, and the decoder undoes the encoder on
  this configuration.
\<close>

theorem Save_Load:
  assumes save: "Save marshal mkdirAll writeFile c path files = (None, files')"
    and path: "path \<noteq> []"
    and valid: "Validate c = (None, c)"
    and written: "\<And>d g. writeFile path d files = (True, g) \<Longrightarrow> g path = Some d"
    and codec: "\<And>d. marshal c = Some d \<Longrightarrow> unmarshal d Default = Some c"
  shows "Load files' unmarshal path = Inr c"
proof -
  from save obtain d where d: "marshal c = Some d" and w: "writeFile path d files = (True, files')"
    by (auto simp: Save_def split: option.splits if_splits prod.splits bool.splits)
  from written [OF w] codec [OF d] path valid show ?thesis by (simp add: Load_def)
qed

text \<open>
  The defaults through a codec that keeps the configuration as it is.\<close>

theorem Save_Load_witness:
  "\<exists>files. Save Some (\<lambda>_. True) (\<lambda>p d f. (True, f(p \<mapsto> d))) Default ''config.yaml'' Map.empty =
      (None, files) \<and> Load files (\<lambda>d c. Some d) ''config.yaml'' = Inr Default"
proof -
  let ?w = "\<lambda>p d f. (True, f(p \<mapsto> d))"
  have s: "Save Some (\<lambda>_. True) ?w Default ''config.yaml'' Map.empty =
      (None, [''config.yaml'' \<mapsto> Default])" by (simp add: Save_def)
  have v: "Validate Default = (None, Default)" by code_simp
  from Save_Load [OF s _ v, of "\<lambda>d c. Some d"] s show ?thesis by auto
qed

end
