(* ===== verification/Pool.thy ===== *)
theory Pool
  imports Config
begin

text \<open>
  The upstream pool (\<open>internal/pool/pool.go\<close>). Upstreams are objects that the slice
  \<open>all\<close>, the map \<open>byName\<close> and the health checker share by pointer, so they live in an
  explicit store: \<open>p_obj\<close> maps a pointer to the object, and \<open>p_next\<close> is the next
  pointer the allocator returns. Every method that takes the mutex is one operation. The
  abstract view of the pool is the list of its names, \<open>pool_ok\<close> its representation
  invariant, and \<open>pool_step\<close> the interleaving of all the callers.
\<close>

section \<open>Data\<close>

record upstream =
  up_Name :: string
  up_Type :: string
  up_Addr :: string
  up_Username :: string
  up_Password :: string
  up_healthy :: bool

type_synonym ref = nat

record pool =
  p_obj :: "ref \<Rightarrow> upstream"
  p_next :: ref
  p_all :: "ref list"
  p_byName :: "string \<rightharpoonup> ref"
  p_strategy :: string
  p_pinned :: string
  p_rrCounter :: u64

record upstream_view =
  v_Name :: string
  v_Type :: string
  v_Addr :: string
  v_Healthy :: bool

datatype pool_error =
    AlreadyExists string
  | UnknownStrategy string
  | EmptyPool
  | PinnedNotFound string
  | SelectPanic go_panic

text \<open>The zero value of the struct; a fresh store is full of it.\<close>

definition zero_upstream :: upstream where
  "zero_upstream = \<lparr>up_Name = [], up_Type = [], up_Addr = [], up_Username = [],
     up_Password = [], up_healthy = False\<rparr>"

definition Healthy :: "pool \<Rightarrow> ref \<Rightarrow> bool" where
  "Healthy p r = up_healthy (p_obj p r)"

definition SetHealthy :: "ref \<Rightarrow> bool \<Rightarrow> pool \<Rightarrow> pool" where
  "SetHealthy r v p = p\<lparr>p_obj := (p_obj p)(r := (p_obj p r)\<lparr>up_healthy := v\<rparr>)\<rparr>"

text \<open>\<open>&Upstream{...}\<close>: a fresh pointer to the given object.\<close>

definition new_upstream :: "upstream \<Rightarrow> pool \<Rightarrow> ref \<times> pool" where
  "new_upstream u p =
     (p_next p, p\<lparr>p_obj := (p_obj p)(p_next p := u), p_next := Suc (p_next p)\<rparr>)"

section \<open>Operations\<close>

text \<open>\<open>New\<close> builds the pool entry by entry; \<open>byName\<close> is overwritten by a later entry.\<close>

definition empty_pool :: "string \<Rightarrow> pool" where
  "empty_pool s = \<lparr>p_obj = (\<lambda>_. zero_upstream), p_next = 0, p_all = [], p_byName = Map.empty,
     p_strategy = s, p_pinned = [], p_rrCounter = 0\<rparr>"

definition upstream_of_entry :: "proxy_entry \<Rightarrow> upstream" where
  "upstream_of_entry e = \<lparr>up_Name = pe_Name e, up_Type = pe_Type e,
     up_Addr = (if pe_Type e \<noteq> ''direct'' then JoinHostPort (pe_Server e) (sprint_int (pe_Port e)) else []),
     up_Username = pe_Username e, up_Password = pe_Password e, up_healthy = False\<rparr>"

definition pool_append :: "proxy_entry \<Rightarrow> pool \<Rightarrow> pool" where
  "pool_append e p =
     (let (r, p1) = new_upstream (upstream_of_entry e) p;
          p2 = SetHealthy r True p1
      in p2\<lparr>p_all := p_all p2 @ [r], p_byName := (p_byName p2)(pe_Name e \<mapsto> r)\<rparr>)"

definition Pool_New :: "pool_config \<Rightarrow> pool" where
  "Pool_New cfg = fold pool_append (pc_Proxies cfg) (empty_pool (pc_Strategy cfg))"

definition Strategy :: "pool \<Rightarrow> string" where
  "Strategy p = p_strategy p"

definition Pool_List :: "pool \<Rightarrow> ref list" where
  "Pool_List p = p_all p"

definition Pool_Add :: "ref \<Rightarrow> pool \<Rightarrow> pool_error option \<times> pool" where
  "Pool_Add r p =
     (let name = up_Name (p_obj p r) in
      case p_byName p name of
        Some _ \<Rightarrow> (Some (AlreadyExists name), p)
      | None \<Rightarrow>
          (let p1 = SetHealthy r True p
           in (None, p1\<lparr>p_all := p_all p1 @ [r], p_byName := (p_byName p1)(name \<mapsto> r)\<rparr>)))"

definition Pool_Remove :: "string \<Rightarrow> pool \<Rightarrow> bool \<times> pool" where
  "Pool_Remove name p =
     (case p_byName p name of
        None \<Rightarrow> (False, p)
      | Some u \<Rightarrow>
          (True, p\<lparr>p_byName := (p_byName p)(name := None), p_all := remove1 u (p_all p)\<rparr>))"

definition SetStrategy :: "string \<Rightarrow> pool \<Rightarrow> pool_error option \<times> pool" where
  "SetStrategy s p =
     (if s \<in> {''random'', ''round-robin'', ''hash'', ''name''}
      then (None, p\<lparr>p_strategy := s\<rparr>) else (Some (UnknownStrategy s), p))"

definition PinnedName :: "pool \<Rightarrow> string" where
  "PinnedName p = p_pinned p"

definition SetPinnedName :: "string \<Rightarrow> pool \<Rightarrow> pool" where
  "SetPinnedName name p = p\<lparr>p_pinned := name\<rparr>"

definition Pool_Snapshot :: "pool \<Rightarrow> upstream_view list" where
  "Pool_Snapshot p =
     map (\<lambda>r. \<lparr>v_Name = up_Name (p_obj p r), v_Type = up_Type (p_obj p r),
               v_Addr = up_Addr (p_obj p r), v_Healthy = Healthy p r\<rparr>) (Pool_List p)"

definition Pool_Get :: "string \<Rightarrow> pool \<Rightarrow> ref option" where
  "Pool_Get name p = p_byName p name"

section \<open>Selection\<close>

text \<open>\<open>hash/fnv\<close>'s 32-bit FNV-1a.\<close>

definition fnv32a :: "byte list \<Rightarrow> u32" where
  "fnv32a bs = foldl (\<lambda>h b. (h XOR ucast b) * 16777619) 2166136261 bs"

text \<open>
  \<open>fastRandN\<close> over the answer \<open>rnd n\<close> of \<open>rand.IntN(n)\<close>, which the library
  documents to lie in \<open>[0, n)\<close>.
\<close>

definition fastRandN :: "(nat \<Rightarrow> nat) \<Rightarrow> nat \<Rightarrow> nat" where
  "fastRandN rnd n = (if n = 0 then 0 else rnd n)"

text \<open>\<open>%\<close> of unsigned words: Go panics on a zero divisor.\<close>

definition word_rem :: "('w::len) word \<Rightarrow> 'w word \<Rightarrow> go_panic + nat" where
  "word_rem a b = (if b = 0 then Inl DivideByZero else Inr (unat (a mod b)))"

definition index_of :: "ref list \<Rightarrow> go_panic + nat \<Rightarrow> pool_error + ref" where
  "index_of xs i =
     (case i of Inl e \<Rightarrow> Inl (SelectPanic e)
      | Inr k \<Rightarrow> (case go_index xs k of Inl e \<Rightarrow> Inl (SelectPanic e) | Inr r \<Rightarrow> Inr r))"

definition candidates :: "pool \<Rightarrow> ref list" where
  "candidates p =
     (let healthy = filter (Healthy p) (p_all p)
      in if healthy = [] then p_all p else healthy)"

definition effective_name :: "string \<Rightarrow> pool \<Rightarrow> string" where
  "effective_name preferredName p =
     (if preferredName = [] \<and> p_strategy p = ''name'' \<and> p_pinned p \<noteq> []
      then p_pinned p else preferredName)"

definition Select :: "(nat \<Rightarrow> nat) \<Rightarrow> string \<Rightarrow> string \<Rightarrow> pool \<Rightarrow> (pool_error + ref) \<times> pool" where
  "Select rnd preferredName key p =
     (if p_all p = [] then (Inl EmptyPool, p)
      else
        (let effective = effective_name preferredName p in
         if effective \<noteq> [] then
           (case p_byName p effective of
              Some u \<Rightarrow> (Inr u, p)
            | None \<Rightarrow> (Inl (PinnedNotFound effective), p))
         else
           (let healthy = candidates p in
            if p_strategy p = ''random'' then
              (index_of healthy (Inr (fastRandN rnd (length healthy))), p)
            else if p_strategy p = ''round-robin'' then
              (let p' = p\<lparr>p_rrCounter := p_rrCounter p + 1\<rparr>;
                   idx = p_rrCounter p' - 1
               in (index_of healthy (word_rem idx (of_nat (length healthy))), p'))
            else if p_strategy p = ''hash'' then
              (let k = (if key = [] then ''default'' else key)
               in (index_of healthy
                     (word_rem (fnv32a (bytes_of k)) (of_nat (length healthy))), p))
            else (index_of healthy (Inr 0), p))))"

section \<open>Health checking\<close>

text \<open>
  \<open>StartHealthCheck\<close>: whether the goroutine starts, and with which interval (in
  nanoseconds).
\<close>

definition StartHealthCheck :: "bool \<Rightarrow> int \<Rightarrow> int option" where
  "StartHealthCheck enabled interval =
     (if \<not> enabled then None
      else Some (if interval \<le> 0 then 30 * 1000000000 else interval))"

text \<open>One probe; \<open>dial\<close> says whether the TCP dial of an address succeeds.\<close>

definition probe :: "(string \<Rightarrow> bool) \<Rightarrow> ref \<Rightarrow> pool \<Rightarrow> pool" where
  "probe dial u p =
     (if up_Type (p_obj p u) = ''direct'' then SetHealthy u True p
      else if \<not> dial (up_Addr (p_obj p u)) then SetHealthy u False p
      else SetHealthy u True p)"

text \<open>One tick: the targets are the slice as it was at the tick.\<close>

definition health_tick :: "(string \<Rightarrow> bool) \<Rightarrow> pool \<Rightarrow> pool" where
  "health_tick dial p = fold (probe dial) (p_all p) p"

section \<open>Representation invariant\<close>

text \<open>
  The slice holds each object once, every pointer in it was allocated, and the map is
  exactly the index of the slice by name. So names are pairwise different.
\<close>

definition pool_ok :: "pool \<Rightarrow> bool" where
  "pool_ok p \<longleftrightarrow> distinct (p_all p) \<and> (\<forall>r \<in> set (p_all p). r < p_next p) \<and>
     (\<forall>n r. p_byName p n = Some r \<longleftrightarrow> r \<in> set (p_all p) \<and> up_Name (p_obj p r) = n)"

definition names :: "pool \<Rightarrow> string list" where
  "names p = map (\<lambda>r. up_Name (p_obj p r)) (p_all p)"

lemma pool_okD:
  assumes "pool_ok p"
  shows "distinct (p_all p)" and "r \<in> set (p_all p) \<Longrightarrow> r < p_next p"
    and "p_byName p n = Some r \<longleftrightarrow> r \<in> set (p_all p) \<and> up_Name (p_obj p r) = n"
  using assms by (auto simp: pool_ok_def)

lemma pool_ok_fresh: "pool_ok p \<Longrightarrow> p_next p \<notin> set (p_all p)"
  using pool_okD(2) by blast

lemma pool_ok_byName_None: "pool_ok p \<Longrightarrow> p_byName p n = None \<longleftrightarrow> n \<notin> set (names p)"
proof -
  assume ok: "pool_ok p"
  have "p_byName p n \<noteq> None \<longleftrightarrow> (\<exists>r. p_byName p n = Some r)" by simp
  also have "\<dots> \<longleftrightarrow> n \<in> set (names p)"
    by (auto simp: names_def pool_okD(3) [OF ok])
  finally show ?thesis by blast
qed

lemma pool_ok_same_name:
  "pool_ok p \<Longrightarrow> r \<in> set (p_all p) \<Longrightarrow> s \<in> set (p_all p) \<Longrightarrow>
   up_Name (p_obj p r) = up_Name (p_obj p s) \<Longrightarrow> r = s"
  by (metis option.inject pool_okD(3))

lemma pool_ok_distinct_names: "pool_ok p \<Longrightarrow> distinct (names p)"
  by (auto simp: names_def distinct_map inj_on_def pool_okD(1) intro: pool_ok_same_name)

lemma SetHealthy_simps [simp]:
  "p_next (SetHealthy r v p) = p_next p" "p_all (SetHealthy r v p) = p_all p"
  "p_byName (SetHealthy r v p) = p_byName p" "p_strategy (SetHealthy r v p) = p_strategy p"
  "p_pinned (SetHealthy r v p) = p_pinned p" "p_rrCounter (SetHealthy r v p) = p_rrCounter p"
  "up_Name (p_obj (SetHealthy r v p) s) = up_Name (p_obj p s)"
  "up_Type (p_obj (SetHealthy r v p) s) = up_Type (p_obj p s)"
  "up_Addr (p_obj (SetHealthy r v p) s) = up_Addr (p_obj p s)"
  "Healthy (SetHealthy r v p) s = (if s = r then v else Healthy p s)"
  by (simp_all add: SetHealthy_def Healthy_def)

lemma names_SetHealthy [simp]: "names (SetHealthy r v p) = names p"
  by (simp add: names_def)

lemma pool_ok_SetHealthy [simp]: "pool_ok (SetHealthy r v p) \<longleftrightarrow> pool_ok p"
  by (simp add: pool_ok_def)

lemma pool_ok_empty [simp]: "pool_ok (empty_pool s)"
  by (simp add: pool_ok_def empty_pool_def)

text \<open>Allocation does not touch what the pool holds.\<close>

lemma new_upstream_ok:
  assumes ok: "pool_ok p" and new: "new_upstream u p = (r, p')"
  shows "pool_ok p'" and "names p' = names p" and "r < p_next p'" and "r \<notin> set (p_all p')"
    and "p_obj p' r = u" and "Pool_Snapshot p' = Pool_Snapshot p"
proof -
  have p': "p' = p\<lparr>p_obj := (p_obj p)(p_next p := u), p_next := Suc (p_next p)\<rparr>"
    and r: "r = p_next p"
    using new by (auto simp: new_upstream_def)
  have fresh: "s \<in> set (p_all p) \<Longrightarrow> s \<noteq> p_next p" for s
    using pool_okD(2) [OF ok] by blast
  have "p_byName p n = Some s \<longleftrightarrow> s \<in> set (p_all p) \<and> up_Name (((p_obj p)(p_next p := u)) s) = n"
    for n s
    using pool_okD(3) [OF ok, of n s] fresh by auto
  with ok show "pool_ok p'"
    by (auto simp: p' pool_ok_def intro: less_SucI)
  show "names p' = names p" and "r < p_next p'" and "r \<notin> set (p_all p')" and "p_obj p' r = u"
    using fresh by (auto simp: p' r names_def)
  show "Pool_Snapshot p' = Pool_Snapshot p"
    using fresh by (auto simp: p' Pool_Snapshot_def Pool_List_def Healthy_def)
qed

lemma pool_ok_insert:
  assumes ok: "pool_ok p" and r: "r < p_next p" "r \<notin> set (p_all p)"
    and n: "up_Name (p_obj p r) = n" "n \<notin> set (names p)"
  shows "pool_ok (p\<lparr>p_all := p_all p @ [r], p_byName := (p_byName p)(n \<mapsto> r)\<rparr>)"
proof -
  from n(2) have nm: "s \<in> set (p_all p) \<Longrightarrow> up_Name (p_obj p s) \<noteq> n" for s
    by (auto simp: names_def)
  with ok r n(1) show ?thesis by (auto simp: pool_ok_def)
qed

lemma pool_append_ok:
  assumes ok: "pool_ok p" and new: "pe_Name e \<notin> set (names p)"
  shows "pool_ok (pool_append e p)" and "names (pool_append e p) = names p @ [pe_Name e]"
proof -
  obtain r p1 where rp: "new_upstream (upstream_of_entry e) p = (r, p1)" by fastforce
  note n = new_upstream_ok [OF ok rp]
  let ?p2 = "SetHealthy r True p1"
  have nm: "up_Name (p_obj ?p2 r) = pe_Name e"
    using n(5) by (simp add: upstream_of_entry_def)
  have eq: "pool_append e p =
      ?p2\<lparr>p_all := p_all ?p2 @ [r], p_byName := (p_byName ?p2)(pe_Name e \<mapsto> r)\<rparr>"
    by (simp add: pool_append_def rp Let_def)
  show "pool_ok (pool_append e p)"
    unfolding eq using n new nm by (intro pool_ok_insert) simp_all
  show "names (pool_append e p) = names p @ [pe_Name e]"
    using n nm by (simp add: eq) (simp add: names_def)
qed

lemma fold_pool_append_ok:
  "pool_ok p \<Longrightarrow> distinct (map pe_Name es) \<Longrightarrow> pe_Name ` set es \<inter> set (names p) = {} \<Longrightarrow>
   pool_ok (fold pool_append es p) \<and> names (fold pool_append es p) = names p @ map pe_Name es"
proof (induction es arbitrary: p)
  case (Cons e es)
  from Cons.prems have "pe_Name e \<notin> set (names p)" by auto
  note a = pool_append_ok [OF Cons.prems(1) this]
  with Cons.prems Cons.IH [of "pool_append e p"] show ?case by auto
qed simp

lemma Pool_New_ok:
  assumes "distinct (map pe_Name (pc_Proxies cfg))"
  shows "pool_ok (Pool_New cfg)" and "names (Pool_New cfg) = map pe_Name (pc_Proxies cfg)"
  using fold_pool_append_ok [OF pool_ok_empty assms, of "pc_Strategy cfg"]
  by (simp_all add: Pool_New_def) (simp_all add: names_def empty_pool_def)

lemma Pool_Add_ok:
  assumes "pool_ok p" and "r < p_next p" and "r \<notin> set (p_all p)"
  shows "pool_ok (snd (Pool_Add r p))"
proof (cases "p_byName p (up_Name (p_obj p r))")
  case None
  then have "up_Name (p_obj p r) \<notin> set (names p)"
    using pool_ok_byName_None [OF assms(1)] by simp
  with assms None show ?thesis
    by (simp add: Pool_Add_def Let_def)
       (rule pool_ok_insert [of "SetHealthy r True p" r "up_Name (p_obj p r)", simplified], simp_all)
qed (simp add: Pool_Add_def Let_def assms)

lemma Pool_Remove_ok: "pool_ok p \<Longrightarrow> pool_ok (snd (Pool_Remove n p))"
proof (cases "p_byName p n")
  case (Some u)
  assume ok: "pool_ok p"
  from Some have u: "u \<in> set (p_all p)" "up_Name (p_obj p u) = n"
    by (simp_all add: pool_okD(3) [OF ok])
  have only: "r = u" if "r \<in> set (p_all p)" "up_Name (p_obj p r) = n" for r
    using pool_ok_same_name [OF ok that(1) u(1)] that(2) u(2) by simp
  have rest: "set (remove1 u (p_all p)) = set (p_all p) - {u}"
    using pool_okD(1) [OF ok] by simp
  have "((p_byName p)(n := None)) m = Some r \<longleftrightarrow>
      r \<in> set (p_all p) - {u} \<and> up_Name (p_obj p r) = m" for m r
    using pool_okD(3) [OF ok, of m r] only [of r] u(2) by auto
  with rest Some show ?thesis
    by (simp add: Pool_Remove_def pool_ok_def pool_okD(1) [OF ok] pool_okD(2) [OF ok])
qed (simp add: Pool_Remove_def)

section \<open>What selection returns\<close>

lemma candidates_subset: "set (candidates p) \<subseteq> set (p_all p)"
  by (auto simp: candidates_def Let_def)

lemma candidates_empty [simp]: "candidates p = [] \<longleftrightarrow> p_all p = []"
  by (auto simp: candidates_def Let_def)

lemma length_candidates: "length (candidates p) \<le> length (p_all p)"
  by (simp add: candidates_def Let_def)

lemma candidates_healthy:
  "\<exists>r \<in> set (p_all p). Healthy p r \<Longrightarrow> set (candidates p) = {r \<in> set (p_all p). Healthy p r}"
  by (auto simp: candidates_def Let_def filter_empty_conv)

lemma distinct_candidates: "distinct (p_all p) \<Longrightarrow> distinct (candidates p)"
  by (simp add: candidates_def Let_def)

text \<open>Neither the counter nor the pin decides who is a candidate.\<close>

lemma candidates_counter [simp]: "candidates (p\<lparr>p_rrCounter := c\<rparr>) = candidates p"
proof -
  have "Healthy (p\<lparr>p_rrCounter := c\<rparr>) = Healthy p" by (simp add: fun_eq_iff Healthy_def)
  then show ?thesis by (simp add: candidates_def Let_def)
qed

lemma word_rem_of_nat:
  fixes a :: "('w::len) word"
  assumes "0 < n" and "n < 2 ^ LENGTH('w)"
  shows "word_rem a (of_nat n) = Inr (unat a mod n)"
proof -
  have u: "unat (of_nat n :: 'w word) = n" using assms(2) by (simp add: unat_of_nat)
  then have "(of_nat n :: 'w word) \<noteq> 0" using assms(1) by auto
  then show ?thesis by (simp add: word_rem_def unat_mod_distrib u)
qed

lemma index_of_Inr: "k < length xs \<Longrightarrow> index_of xs (Inr k) = Inr (xs ! k)"
  by (simp add: index_of_def)

text \<open>
  The three facts about the environment and the size under which a selection cannot panic:
  the random source is in range, and the pool is smaller than \<open>2 ^ 32\<close>.
\<close>

definition rand_ok :: "(nat \<Rightarrow> nat) \<Rightarrow> bool" where
  "rand_ok rnd \<longleftrightarrow> (\<forall>n > 0. rnd n < n)"

definition small_pool :: "pool \<Rightarrow> bool" where
  "small_pool p \<longleftrightarrow> length (p_all p) < 2 ^ 32"

text \<open>The index that each strategy computes into the candidates.\<close>

definition pick_index :: "(nat \<Rightarrow> nat) \<Rightarrow> string \<Rightarrow> pool \<Rightarrow> nat" where
  "pick_index rnd key p =
     (let h = length (candidates p) in
      if p_strategy p = ''random'' then rnd h
      else if p_strategy p = ''round-robin'' then unat (p_rrCounter p) mod h
      else if p_strategy p = ''hash'' then
        unat (fnv32a (bytes_of (if key = [] then ''default'' else key))) mod h
      else 0)"

definition bump :: "pool \<Rightarrow> pool" where
  "bump p = (if p_strategy p = ''round-robin'' then p\<lparr>p_rrCounter := p_rrCounter p + 1\<rparr> else p)"

lemma pick_index_less:
  "rand_ok rnd \<Longrightarrow> p_all p \<noteq> [] \<Longrightarrow> pick_index rnd key p < length (candidates p)"
  by (simp add: pick_index_def Let_def rand_ok_def)

lemma Select_strategy:
  assumes r: "rand_ok rnd" and sm: "small_pool p" and ne: "p_all p \<noteq> []"
    and eff: "effective_name pref p = []"
  shows "Select rnd pref key p = (Inr (candidates p ! pick_index rnd key p), bump p)"
proof -
  let ?h = "length (candidates p)"
  have h: "0 < ?h" "?h < 2 ^ 32"
    using ne sm length_candidates [of p] by (simp_all add: small_pool_def)
  have w32: "word_rem w (of_nat ?h) = Inr (unat w mod ?h)" for w :: u32
    using h by (intro word_rem_of_nat) simp_all
  have w64: "word_rem w (of_nat ?h) = Inr (unat w mod ?h)" for w :: u64
    using h by (intro word_rem_of_nat) simp_all
  have rn: "rnd ?h < ?h" using r h(1) by (simp add: rand_ok_def)
  have m: "n mod ?h < ?h" for n using h(1) by simp
  show ?thesis
    using ne eff rn h(1)
    by (simp add: Select_def Let_def w32 w64 index_of_Inr m fastRandN_def pick_index_def bump_def)
qed

lemma Select_named:
  assumes "p_all p \<noteq> []" and "effective_name pref p \<noteq> []"
  shows "Select rnd pref key p =
    (case p_byName p (effective_name pref p) of
       Some u \<Rightarrow> Inr u | None \<Rightarrow> Inl (PinnedNotFound (effective_name pref p)), p)"
  using assms by (simp add: Select_def Let_def split: option.split)

text \<open>A pool to try the statements on: a direct upstream and two HTTP proxies.\<close>

definition example_entries :: "proxy_entry list" where
  "example_entries = [direct_entry,
     \<lparr>pe_Name = ''a'', pe_Type = ''http'', pe_Server = ''10.0.0.1'', pe_Port = 3128,
       pe_Username = [], pe_Password = []\<rparr>,
     \<lparr>pe_Name = ''b'', pe_Type = ''socks5'', pe_Server = ''10.0.0.2'', pe_Port = 1080,
       pe_Username = ''u'', pe_Password = ''p''\<rparr>]"

definition example_pool :: "string \<Rightarrow> pool" where
  "example_pool strategy = Pool_New \<lparr>pc_Strategy = strategy, pc_HealthCheck = False,
     pc_Proxies = example_entries\<rparr>"

lemma example_pool_ok: "pool_ok (example_pool s)"
  unfolding example_pool_def
  by (rule Pool_New_ok) (simp add: example_entries_def direct_entry_def)

lemma example_pool_simps:
  "p_all (example_pool s) = [0, 1, 2]" "p_strategy (example_pool s) = s"
  "p_pinned (example_pool s) = []" "p_rrCounter (example_pool s) = 0" "p_next (example_pool s) = 3"
  "candidates (example_pool s) = [0, 1, 2]"
  "names (example_pool s) = [''direct'', ''a'', ''b'']"
  by (simp_all add: example_pool_def Pool_New_def example_entries_def pool_append_def new_upstream_def
      empty_pool_def Let_def SetHealthy_def candidates_def Healthy_def names_def upstream_of_entry_def
      direct_entry_def)

lemma example_pool_small: "small_pool (example_pool s)"
  by (simp add: small_pool_def example_pool_simps)

lemma rand_ok_zero: "rand_ok (\<lambda>_. 0)"
  by (simp add: rand_ok_def)



text \<open>A selection changes nothing but the round-robin counter.\<close>

lemma snd_Select: "snd (Select rnd pref key p) = p \<or> snd (Select rnd pref key p) = bump p"
  by (auto simp: Select_def Let_def bump_def split: option.split)

lemma bump_frame [simp]:
  "p_obj (bump p) = p_obj p" "p_all (bump p) = p_all p" "p_byName (bump p) = p_byName p"
  "p_strategy (bump p) = p_strategy p" "p_pinned (bump p) = p_pinned p"
  "p_next (bump p) = p_next p" "candidates (bump p) = candidates p"
  by (simp_all add: bump_def)

lemma Select_frame:
  assumes "snd (Select rnd pref key p) = q"
  shows "p_obj q = p_obj p" and "p_all q = p_all p" and "p_byName q = p_byName p"
    and "p_strategy q = p_strategy p" and "p_pinned q = p_pinned p" and "p_next q = p_next p"
    and "candidates q = candidates p"
  using snd_Select [of rnd pref key p] assms by auto

lemma pool_ok_Select: "pool_ok p \<Longrightarrow> pool_ok (snd (Select rnd pref key p))"
  by (simp add: pool_ok_def Select_frame [OF refl])

section \<open>Fairness and stickiness\<close>

text \<open>\<open>n\<close> selections in a row by one caller.\<close>

fun select_run ::
  "(nat \<Rightarrow> nat) \<Rightarrow> string \<Rightarrow> string \<Rightarrow> nat \<Rightarrow> pool \<Rightarrow> (pool_error + ref) list \<times> pool" where
  "select_run rnd pref key 0 p = ([], p)"
| "select_run rnd pref key (Suc n) p =
     (let (x, p') = Select rnd pref key p;
          (xs, p'') = select_run rnd pref key n p'
      in (x # xs, p''))"

lemma effective_bump [simp]: "effective_name pref (bump p) = effective_name pref p"
  by (simp add: effective_name_def)

lemma small_bump [simp]: "small_pool (bump p) = small_pool p"
  by (simp add: small_pool_def)

lemma round_robin_nth:
  assumes "rand_ok rnd" and "small_pool p" and "p_all p \<noteq> []" and "effective_name pref p = []"
    and "p_strategy p = ''round-robin''" and "unat (p_rrCounter p) + n \<le> 2 ^ 64"
  shows "fst (select_run rnd pref key n p) =
    map (\<lambda>i. Inr (candidates p ! ((unat (p_rrCounter p) + i) mod length (candidates p)))) [0..<n]"
  using assms
proof (induction n arbitrary: p)
  case (Suc n)
  let ?c = "unat (p_rrCounter p)"
  have sel: "Select rnd pref key p = (Inr (candidates p ! pick_index rnd key p), bump p)"
    using Suc.prems by (intro Select_strategy)
  have pick: "pick_index rnd key p = ?c mod length (candidates p)"
    using Suc.prems(5) by (simp add: pick_index_def Let_def)
  show ?case
  proof (cases "n = 0")
    case True
    then show ?thesis by (simp add: sel pick)
  next
    case False
    with Suc.prems(6) have "unat (p_rrCounter p + 1) = ?c + 1"
      by (simp add: unat_word_ariths)
    then have c: "unat (p_rrCounter (bump p)) = ?c + 1"
      using Suc.prems(5) by (simp add: bump_def)
    have "fst (select_run rnd pref key n (bump p)) =
      map (\<lambda>i. Inr (candidates p ! ((?c + 1 + i) mod length (candidates p)))) [0..<n]"
      using Suc.IH [of "bump p"] Suc.prems c by simp
    then show ?thesis
      by (simp add: sel pick split_beta upt_conv_Cons map_Suc_upt [symmetric] comp_def
          del: upt_Suc)
  qed
qed simp

text \<open>
  Under round-robin, a full cycle of selections goes through the candidates one by one in
  their order, starting at the counter: it is the candidate list rotated, so every
  candidate is returned exactly once.
\<close>

theorem round_robin_cycle:
  assumes "rand_ok rnd" and "small_pool p" and "p_all p \<noteq> []" and "effective_name pref p = []"
    and "p_strategy p = ''round-robin''"
    and "unat (p_rrCounter p) + length (candidates p) \<le> 2 ^ 64"
  shows "fst (select_run rnd pref key (length (candidates p)) p) =
    map Inr (rotate (unat (p_rrCounter p)) (candidates p))"
proof (rule nth_equalityI)
  note run = round_robin_nth [OF assms, of key]
  show len: "length (fst (select_run rnd pref key (length (candidates p)) p)) =
      length (map Inr (rotate (unat (p_rrCounter p)) (candidates p)))"
    by (simp add: run)
  show "fst (select_run rnd pref key (length (candidates p)) p) ! i =
      map Inr (rotate (unat (p_rrCounter p)) (candidates p)) ! i"
    if "i < length (fst (select_run rnd pref key (length (candidates p)) p))" for i
    using that by (simp add: run nth_rotate)
qed

theorem round_robin_cycle_witness:
  "fst (select_run (\<lambda>_. 0) [] ''h'' 3 (example_pool ''round-robin'')) = [Inr 0, Inr 1, Inr 2]"
proof -
  have "length (candidates (example_pool ''round-robin'')) = 3" by (simp add: example_pool_simps)
  with round_robin_cycle [OF rand_ok_zero example_pool_small, of "''round-robin''" "[]" "''h''"]
  show ?thesis
    by (simp add: example_pool_simps effective_name_def numeral_3_eq_3 del: select_run.simps)
qed

text \<open>
  Under hash, the answer for a host is a function of the host and the candidates alone:
  two pools with the same candidates give the same upstream for the same key, whatever the
  random source, the counters and the history, and the empty key is the key ``default''.
\<close>

theorem hash_sticky:
  assumes "rand_ok rnd" and "rand_ok rnd'" and "small_pool p" and "small_pool q"
    and "p_all p \<noteq> []" and "p_strategy p = ''hash''" and "p_strategy q = ''hash''"
    and "candidates q = candidates p"
  shows "fst (Select rnd [] key q) = fst (Select rnd' [] key p) \<and>
    fst (Select rnd [] [] q) = fst (Select rnd' [] ''default'' p)"
proof -
  have "p_all q \<noteq> []" using assms(5,8) by (metis candidates_empty)
  moreover have "effective_name [] p = []" "effective_name [] q = []"
    using assms(6,7) by (simp_all add: effective_name_def)
  ultimately show ?thesis
    using assms by (simp add: Select_strategy pick_index_def Let_def)
qed

theorem hash_sticky_witness:
  "fst (Select (\<lambda>_. 0) [] ''h'' (SetPinnedName ''x'' (example_pool ''hash''))) =
   fst (Select (\<lambda>n. n - 1) [] ''h'' (example_pool ''hash''))"
proof -
  let ?q = "SetPinnedName ''x'' (example_pool ''hash'')"
  have q: "small_pool ?q" "p_strategy ?q = ''hash''" "candidates ?q = candidates (example_pool ''hash'')"
    by (simp_all add: SetPinnedName_def small_pool_def example_pool_simps candidates_def Healthy_def)
  have r: "rand_ok (\<lambda>n. n - 1)" by (simp add: rand_ok_def)
  show ?thesis
    using hash_sticky [OF rand_ok_zero r example_pool_small q(1) _ _ q(2,3), of "''h''"]
    by (simp add: example_pool_simps)
qed

section \<open>The pool as the list the API shows\<close>

definition view_of :: "upstream \<Rightarrow> upstream_view" where
  "view_of u = \<lparr>v_Name = up_Name u, v_Type = up_Type u, v_Addr = up_Addr u,
     v_Healthy = up_healthy u\<rparr>"

lemma Pool_Snapshot_eq: "Pool_Snapshot p = map (\<lambda>r. view_of (p_obj p r)) (p_all p)"
  by (simp add: Pool_Snapshot_def Pool_List_def view_of_def Healthy_def)

lemma names_Snapshot: "names p = map v_Name (Pool_Snapshot p)"
  by (simp add: Pool_Snapshot_eq names_def view_of_def)

lemma Pool_Add_snapshot:
  assumes ok: "pool_ok p" and r: "r < p_next p" "r \<notin> set (p_all p)"
  shows "if up_Name (p_obj p r) \<in> set (map v_Name (Pool_Snapshot p))
    then Pool_Add r p = (Some (AlreadyExists (up_Name (p_obj p r))), p)
    else \<exists>q. Pool_Add r p = (None, q) \<and>
      Pool_Snapshot q = Pool_Snapshot p @ [(view_of (p_obj p r))\<lparr>v_Healthy := True\<rparr>] \<and>
      Pool_Get (up_Name (p_obj p r)) q = Some r"
proof (cases "p_byName p (up_Name (p_obj p r))")
  case None
  then have "up_Name (p_obj p r) \<notin> set (names p)" by (simp add: pool_ok_byName_None [OF ok])
  moreover have "p_obj (SetHealthy r True p) s = p_obj p s" if "s \<in> set (p_all p)" for s
    using that r(2) by (auto simp: SetHealthy_def)
  moreover have "view_of (p_obj (SetHealthy r True p) r) = (view_of (p_obj p r))\<lparr>v_Healthy := True\<rparr>"
    by (simp add: SetHealthy_def view_of_def)
  ultimately show ?thesis
    using None by (auto simp: Pool_Add_def Let_def Pool_Snapshot_eq Pool_Get_def names_Snapshot)
next
  case (Some s)
  then have "up_Name (p_obj p r) \<in> set (names p)"
    using pool_ok_byName_None [OF ok, of "up_Name (p_obj p r)"] by auto
  with Some show ?thesis by (simp add: Pool_Add_def names_Snapshot)
qed

text \<open>
  Adding an upstream refines appending to a list with unique names: it fails, and
  changes nothing, exactly when the name is taken; otherwise the snapshot gains one entry
  at the end, marked healthy, and the name now leads to that very object.
\<close>

theorem Pool_Add_refines:
  assumes ok: "pool_ok p" and r: "r < p_next p" "r \<notin> set (p_all p)"
  shows "if up_Name (p_obj p r) \<in> set (map v_Name (Pool_Snapshot p))
    then Pool_Add r p = (Some (AlreadyExists (up_Name (p_obj p r))), p)
    else \<exists>q. Pool_Add r p = (None, q) \<and>
      Pool_Snapshot q = Pool_Snapshot p @ [(view_of (p_obj p r))\<lparr>v_Healthy := True\<rparr>] \<and>
      Pool_Get (up_Name (p_obj p r)) q = Some r"
  using assms by (rule Pool_Add_snapshot)

theorem Pool_Add_refines_witness:
  "\<exists>r p1. new_upstream \<lparr>up_Name = ''c'', up_Type = ''http'', up_Addr = ''10.0.0.3:80'',
      up_Username = [], up_Password = [], up_healthy = False\<rparr> (example_pool ''random'') = (r, p1) \<and>
    (\<exists>q. Pool_Add r p1 = (None, q) \<and> Pool_Get ''c'' q = Some r)"
proof -
  let ?u = "\<lparr>up_Name = ''c'', up_Type = ''http'', up_Addr = ''10.0.0.3:80'',
      up_Username = [], up_Password = [], up_healthy = False\<rparr>"
  obtain r p1 where n: "new_upstream ?u (example_pool ''random'') = (r, p1)"
    by (cases "new_upstream ?u (example_pool ''random'')")
  note ok = new_upstream_ok [OF example_pool_ok n]
  have name: "up_Name (p_obj p1 r) = ''c''" using n by (auto simp: new_upstream_def)
  have "names p1 = names (example_pool ''random'')" using ok by simp
  then have "''c'' \<notin> set (map v_Name (Pool_Snapshot p1))"
    by (simp add: names_Snapshot [symmetric] example_pool_simps)
  with Pool_Add_refines [OF ok(1,3,4)] n name show ?thesis by auto
qed

text \<open>A pool as it is built: the entries of the configuration, all healthy.\<close>

lemma pool_append_is_add:
  assumes ok: "pool_ok p" and new: "pe_Name e \<notin> set (names p)"
  shows "Pool_Snapshot (pool_append e p) =
    Pool_Snapshot p @ [(view_of (upstream_of_entry e))\<lparr>v_Healthy := True\<rparr>]"
proof -
  obtain r p1 where rp: "new_upstream (upstream_of_entry e) p = (r, p1)" by fastforce
  note n = new_upstream_ok [OF ok rp]
  have nm: "up_Name (p_obj p1 r) = pe_Name e" using n(5) by (simp add: upstream_of_entry_def)
  then have free: "p_byName p1 (pe_Name e) = None" using pool_ok_byName_None [OF n(1)] n(2) new by simp
  have add: "Pool_Add r p1 = (None, pool_append e p)"
    using free nm rp by (simp add: Pool_Add_def pool_append_def Let_def)
  have "up_Name (p_obj p1 r) \<notin> set (map v_Name (Pool_Snapshot p1))"
    using new nm n(2) by (simp flip: names_Snapshot)
  with Pool_Add_snapshot [OF n(1,3,4)] add n(5,6) show ?thesis by auto
qed

lemma Pool_New_snapshot:
  assumes "distinct (map pe_Name (pc_Proxies cfg))"
  shows "Pool_Snapshot (Pool_New cfg) =
    map (\<lambda>e. (view_of (upstream_of_entry e))\<lparr>v_Healthy := True\<rparr>) (pc_Proxies cfg)"
proof -
  have "Pool_Snapshot (fold pool_append es p) =
      Pool_Snapshot p @ map (\<lambda>e. (view_of (upstream_of_entry e))\<lparr>v_Healthy := True\<rparr>) es"
    if "pool_ok p" "distinct (map pe_Name es)" "pe_Name ` set es \<inter> set (names p) = {}" for es p
    using that
  proof (induction es arbitrary: p)
    case (Cons e es)
    then have e: "pe_Name e \<notin> set (names p)" by auto
    with Cons pool_append_ok [OF Cons.prems(1) e] pool_append_is_add [OF Cons.prems(1) e]
    show ?case by auto
  qed simp
  from this [OF pool_ok_empty assms] show ?thesis
    by (simp add: Pool_New_def) (simp add: names_def empty_pool_def Pool_Snapshot_eq)
qed

lemma Pool_Remove_snapshot:
  assumes ok: "pool_ok p"
  shows "(fst (Pool_Remove n p) \<longleftrightarrow> n \<in> set (map v_Name (Pool_Snapshot p))) \<and>
    Pool_Snapshot (snd (Pool_Remove n p)) =
      filter (\<lambda>v. v_Name v \<noteq> n) (Pool_Snapshot p) \<and>
    Pool_Get n (snd (Pool_Remove n p)) = None"
proof (cases "p_byName p n")
  case None
  then have "n \<notin> set (names p)" by (simp add: pool_ok_byName_None [OF ok])
  with None show ?thesis
    by (auto simp: Pool_Remove_def Pool_Get_def names_Snapshot intro!: filter_True [symmetric])
next
  case (Some u)
  then have u: "u \<in> set (p_all p)" "up_Name (p_obj p u) = n"
    by (simp_all add: pool_okD(3) [OF ok])
  have "remove1 u (p_all p) = filter (\<lambda>r. u \<noteq> r) (p_all p)"
    by (simp add: distinct_remove1_removeAll pool_okD(1) [OF ok] removeAll_filter_not_eq)
  also have "\<dots> = filter (\<lambda>r. up_Name (p_obj p r) \<noteq> n) (p_all p)"
    using pool_ok_same_name [OF ok _ u(1)] u(2) by (intro filter_cong) auto
  finally have "remove1 u (p_all p) = filter (\<lambda>r. up_Name (p_obj p r) \<noteq> n) (p_all p)" .
  moreover have "n \<in> set (names p)" using u by (auto simp: names_def)
  ultimately show ?thesis
    using Some by (simp add: Pool_Remove_def Pool_Get_def Pool_Snapshot_eq names_Snapshot
        filter_map comp_def view_of_def)
qed

text \<open>
  Removing a name refines filtering it out of the list: the result says whether the name
  was there, the snapshot loses exactly that entry and keeps the order of the others, and
  the name is gone from the index.
\<close>

theorem Pool_Remove_refines:
  assumes ok: "pool_ok p"
  shows "(fst (Pool_Remove n p) \<longleftrightarrow> n \<in> set (map v_Name (Pool_Snapshot p))) \<and>
    Pool_Snapshot (snd (Pool_Remove n p)) =
      filter (\<lambda>v. v_Name v \<noteq> n) (Pool_Snapshot p) \<and>
    Pool_Get n (snd (Pool_Remove n p)) = None"
  using assms by (rule Pool_Remove_snapshot)

theorem Pool_Remove_refines_witness:
  "fst (Pool_Remove ''a'' (example_pool ''hash'')) \<and>
   Pool_Get ''a'' (snd (Pool_Remove ''a'' (example_pool ''hash''))) = None"
  using Pool_Remove_refines [OF example_pool_ok, of "''a''" "''hash''"]
  by (simp add: names_Snapshot [symmetric] example_pool_simps)

section \<open>Health ticks\<close>

definition alive :: "(string \<Rightarrow> bool) \<Rightarrow> upstream \<Rightarrow> bool" where
  "alive dial u \<longleftrightarrow> up_Type u = ''direct'' \<or> dial (up_Addr u)"

lemma probe_eq: "probe dial u p = SetHealthy u (alive dial (p_obj p u)) p"
  by (simp add: probe_def alive_def)

lemma probes_obj:
  "p_obj (fold (probe dial) rs p) r =
    (if r \<in> set rs then (p_obj p r)\<lparr>up_healthy := alive dial (p_obj p r)\<rparr> else p_obj p r)"
proof (induction rs arbitrary: p)
  case (Cons x xs)
  then show ?case by (auto simp: probe_eq SetHealthy_def alive_def)
qed simp

lemma probes_frame:
  "p_all (fold (probe dial) rs p) = p_all p" "p_byName (fold (probe dial) rs p) = p_byName p"
  "p_strategy (fold (probe dial) rs p) = p_strategy p"
  "p_next (fold (probe dial) rs p) = p_next p"
  by (induction rs arbitrary: p) (simp_all add: probe_eq)

text \<open>
  After a tick an upstream is marked healthy exactly if it is direct or its address could
  be dialled; nothing else about any upstream changes, and no upstream comes or goes. If a
  single one is alive, selection by strategy then returns live upstreams only.
\<close>

theorem health_tick_spec:
  "Pool_Snapshot (health_tick dial p) =
     map (\<lambda>r. (view_of (p_obj p r))\<lparr>v_Healthy := alive dial (p_obj p r)\<rparr>) (p_all p) \<and>
   set (candidates (health_tick dial p)) =
     (if \<exists>r \<in> set (p_all p). alive dial (p_obj p r)
      then {r \<in> set (p_all p). alive dial (p_obj p r)} else set (p_all p))"
proof
  show "Pool_Snapshot (health_tick dial p) =
     map (\<lambda>r. (view_of (p_obj p r))\<lparr>v_Healthy := alive dial (p_obj p r)\<rparr>) (p_all p)"
    by (simp add: Pool_Snapshot_eq health_tick_def probes_frame probes_obj view_of_def)
  have h: "Healthy (health_tick dial p) r = alive dial (p_obj p r)" if "r \<in> set (p_all p)" for r
    using that by (simp add: Healthy_def health_tick_def probes_obj)
  have f: "filter (Healthy (health_tick dial p)) (p_all p) =
      filter (\<lambda>r. alive dial (p_obj p r)) (p_all p)"
    by (intro filter_cong) (simp_all add: h)
  show "set (candidates (health_tick dial p)) =
     (if \<exists>r \<in> set (p_all p). alive dial (p_obj p r)
      then {r \<in> set (p_all p). alive dial (p_obj p r)} else set (p_all p))"
    by (auto simp: candidates_def Let_def health_tick_def [of dial p] probes_frame
        f [unfolded health_tick_def] filter_empty_conv)
qed

section \<open>Interleaved callers\<close>

text \<open>
  The API handlers rename an object of theirs that the pool has refused and try again
  (\<open>up.Name = name + "-" + ...\<close>); the object is not in the pool at that moment.
\<close>

definition rename_upstream :: "ref \<Rightarrow> string \<Rightarrow> pool \<Rightarrow> pool" where
  "rename_upstream r n p = p\<lparr>p_obj := (p_obj p)(r := (p_obj p r)\<lparr>up_Name := n\<rparr>)\<rparr>"

lemma rename_upstream_ok:
  assumes ok: "pool_ok p" and r: "r < p_next p" "r \<notin> set (p_all p)"
  shows "pool_ok (rename_upstream r n p)" and "r < p_next (rename_upstream r n p)"
    and "r \<notin> set (p_all (rename_upstream r n p))"
proof -
  have "p_byName p m = Some s \<longleftrightarrow>
      s \<in> set (p_all p) \<and> up_Name (p_obj (rename_upstream r n p) s) = m" for m s
    using pool_okD(3) [OF ok, of m s] r(2) by (auto simp: rename_upstream_def)
  with ok show "pool_ok (rename_upstream r n p)"
    by (simp add: pool_ok_def) (simp add: rename_upstream_def)
  show "r < p_next (rename_upstream r n p)" and "r \<notin> set (p_all (rename_upstream r n p))"
    using r by (simp_all add: rename_upstream_def)
qed

text \<open>
  The steps of all the goroutines that hold the pool: connection handlers selecting, the
  API adding, retrying, removing, switching strategy and pinning, and the health checker
  setting the flag of any object it once saw, removed or not.
\<close>

inductive pool_step :: "pool \<Rightarrow> pool \<Rightarrow> bool" where
  step_add: "new_upstream u p = (r, p1) \<Longrightarrow> pool_step p (snd (Pool_Add r p1))"
| step_retry: "new_upstream u p = (r, p1) \<Longrightarrow> Pool_Add r p1 = (Some e, p2) \<Longrightarrow>
    pool_step p (snd (Pool_Add r (rename_upstream r n p2)))"
| step_remove: "pool_step p (snd (Pool_Remove n p))"
| step_strategy: "pool_step p (snd (SetStrategy s p))"
| step_pin: "pool_step p (SetPinnedName n p)"
| step_select: "pool_step p (snd (Select rnd pref key p))"
| step_health: "pool_step p (SetHealthy r v p)"

definition pool_start :: "pool \<Rightarrow> bool" where
  "pool_start p \<longleftrightarrow> (\<exists>cfg. pool_entries_ok (pc_Proxies cfg) \<and>
     pc_Strategy cfg \<in> set known_strategies \<and> p = Pool_New cfg)"

definition pool_inv :: "pool \<Rightarrow> bool" where
  "pool_inv p \<longleftrightarrow> pool_ok p \<and> p_strategy p \<in> set known_strategies"

lemma strategy_append [simp]: "p_strategy (pool_append e p) = p_strategy p"
  by (simp add: pool_append_def new_upstream_def Let_def)

lemma strategy_New [simp]: "p_strategy (Pool_New cfg) = pc_Strategy cfg"
proof -
  have "p_strategy (fold pool_append es p) = p_strategy p" for es p
    by (induction es arbitrary: p) simp_all
  then show ?thesis by (simp add: Pool_New_def empty_pool_def)
qed

lemma strategy_frame [simp]:
  "p_strategy (snd (Pool_Add r p)) = p_strategy p"
  "p_strategy (snd (Pool_Remove n p)) = p_strategy p"
  "p_strategy (rename_upstream r n p) = p_strategy p"
  "p_strategy (SetPinnedName n p) = p_strategy p"
  "p_strategy (snd (Select rnd pref key p)) = p_strategy p"
  by (simp_all add: Pool_Add_def Pool_Remove_def rename_upstream_def SetPinnedName_def Let_def
      Select_frame [OF refl] split: option.split)

lemma pool_ok_SetPinnedName [simp]: "pool_ok (SetPinnedName n p) \<longleftrightarrow> pool_ok p"
  by (simp add: pool_ok_def SetPinnedName_def)

lemma pool_inv_SetStrategy: "pool_inv p \<Longrightarrow> pool_inv (snd (SetStrategy s p))"
  by (auto simp: pool_inv_def SetStrategy_def known_strategies_def pool_ok_def)

lemma pool_inv_step: "pool_step p q \<Longrightarrow> pool_inv p \<Longrightarrow> pool_inv q"
proof (induction rule: pool_step.induct)
  case (step_add u p r p1)
  then have "p_strategy p1 = p_strategy p" by (auto simp: new_upstream_def)
  with step_add new_upstream_ok [OF _ step_add.hyps] show ?case
    by (auto simp: pool_inv_def intro: Pool_Add_ok)
next
  case (step_retry u p r p1 e p2 n)
  then have st: "p_strategy p1 = p_strategy p" and p2: "p2 = p1"
    by (auto simp: new_upstream_def Pool_Add_def Let_def split: option.splits)
  from step_retry have "pool_ok p" by (simp add: pool_inv_def)
  note n = new_upstream_ok [OF this step_retry.hyps(1)]
  from Pool_Add_ok [OF rename_upstream_ok [OF n(1,3,4)]] st p2 step_retry show ?case
    by (simp add: pool_inv_def)
next
  case (step_strategy p s)
  then show ?case by (rule pool_inv_SetStrategy)
qed (simp_all add: pool_inv_def Pool_Remove_ok pool_ok_Select)

interpretation pool_sys: invariant_system pool_start pool_step pool_inv
proof unfold_locales
  show "pool_inv p" if "pool_start p" for p
    using that by (auto simp: pool_start_def pool_inv_def pool_entries_ok_def intro: Pool_New_ok(1))
  show "pool_inv q" if "pool_inv p" "pool_step p q" for p q
    using that by (rule pool_inv_step [rotated])
qed

text \<open>
  C23. Whatever the callers do, in whatever order: a pool built from a valid configuration
  always has pairwise different names and one of the four strategies, and looking a name up
  finds exactly the entry the list shows under that name.
\<close>

theorem pool_always_ok:
  assumes "reach pool_start pool_step p"
  shows "distinct (map v_Name (Pool_Snapshot p)) \<and> p_strategy p \<in> set known_strategies \<and>
    (\<forall>n. case Pool_Get n p of
        None \<Rightarrow> n \<notin> set (map v_Name (Pool_Snapshot p))
      | Some r \<Rightarrow> r \<in> set (Pool_List p) \<and> up_Name (p_obj p r) = n)"
proof -
  from assms have inv: "pool_inv p" by (rule pool_sys.reach_inv)
  then have ok: "pool_ok p" by (simp add: pool_inv_def)
  have "case Pool_Get n p of
        None \<Rightarrow> n \<notin> set (map v_Name (Pool_Snapshot p))
      | Some r \<Rightarrow> r \<in> set (Pool_List p) \<and> up_Name (p_obj p r) = n" for n
  proof (cases "p_byName p n")
    case None
    moreover from this have "n \<notin> set (names p)" by (simp add: pool_ok_byName_None [OF ok])
    ultimately show ?thesis by (simp add: Pool_Get_def names_Snapshot)
  next
    case (Some r)
    moreover from this have "r \<in> set (p_all p) \<and> up_Name (p_obj p r) = n"
      by (simp add: pool_okD(3) [OF ok])
    ultimately show ?thesis by (simp add: Pool_Get_def Pool_List_def)
  qed
  with inv pool_ok_distinct_names [OF ok] show ?thesis
    by (simp add: pool_inv_def names_Snapshot)
qed

theorem pool_always_ok_witness:
  "distinct (map v_Name (Pool_Snapshot (snd (Pool_Remove ''a'' (example_pool ''hash'')))))"
proof -
  have "pool_start (example_pool ''hash'')"
    unfolding pool_start_def example_pool_def
    by (rule exI [of _ "\<lparr>pc_Strategy = ''hash'', pc_HealthCheck = False, pc_Proxies = example_entries\<rparr>"])
      (simp add: pool_entries_ok_def example_entries_def entry_ok_def direct_entry_def known_strategies_def)
  then have "reach pool_start pool_step (example_pool ''hash'')" by (rule reach_start)
  then have "reach pool_start pool_step (snd (Pool_Remove ''a'' (example_pool ''hash'')))"
    by (rule reach_step) (rule step_remove)
  from conjunct1 [OF pool_always_ok [OF this]] show ?thesis .
qed

end
