(* ===== verification/NetConn.thy ===== *)
theory NetConn
  imports GoText
begin

text \<open>
  A TCP connection as the program sees it. What the other side sends arrives as a list of
  segments, of any length, in order; one \<open>Read\<close> returns bytes of one segment only. What
  the program writes is collected. A write fails once the budget \<open>c_wlim\<close> is used up
  (\<open>None\<close> is a peer that always accepts), and so do all operations on a closed
  connection. A run of the program fixes what its peers sent, so a statement for all
  segments and budgets is a statement about all peers.
\<close>

record conn =
  c_in :: "byte list list"
  c_out :: "byte list"
  c_wlim :: "nat option"
  c_closed :: bool
  c_deadline :: bool

datatype io_error = EOF | UnexpectedEOF | WriteError | UseOfClosed | DeadlineExceeded

text \<open>A computation on a connection: an error or a value, and the connection after it.\<close>

type_synonym ('e, 'a) io = "conn \<Rightarrow> ('e + 'a) \<times> conn"

definition ret :: "'a \<Rightarrow> ('e, 'a) io" where
  "ret x c = (Inr x, c)"

definition fail :: "'e \<Rightarrow> ('e, 'a) io" where
  "fail e c = (Inl e, c)"

definition andThen :: "('e, 'a) io \<Rightarrow> ('a \<Rightarrow> ('e, 'b) io) \<Rightarrow> ('e, 'b) io" where
  "andThen m f c = (case m c of (Inl e, c') \<Rightarrow> (Inl e, c') | (Inr x, c') \<Rightarrow> f x c')"

lemma ret_simp [simp]: "ret x c = (Inr x, c)"
  by (simp add: ret_def)

lemma fail_simp [simp]: "fail e c = (Inl e, c)"
  by (simp add: fail_def)

lemma andThen_Inr [simp]: "m c = (Inr x, c') \<Longrightarrow> andThen m f c = f x c'"
  by (simp add: andThen_def)

lemma andThen_Inl [simp]: "m c = (Inl e, c') \<Longrightarrow> andThen m f c = (Inl e, c')"
  by (simp add: andThen_def)

lemma andThen_Inr_iff:
  "andThen m f c = (Inr y, c'') \<longleftrightarrow> (\<exists>x c'. m c = (Inr x, c') \<and> f x c' = (Inr y, c''))"
  by (auto simp: andThen_def split: prod.splits sum.splits)

section \<open>Reading\<close>

text \<open>The first \<open>n\<close> bytes of the segments, and the segments after them.\<close>

fun take_in :: "nat \<Rightarrow> byte list list \<Rightarrow> byte list \<times> byte list list" where
  "take_in n [] = ([], [])"
| "take_in n (s # ss) =
     (if length s \<le> n then
        (let (bs, rest) = take_in (n - length s) ss in (s @ bs, rest))
      else (take n s, drop n s # ss))"

lemma take_in_concat:
  "fst (take_in n ss) = take n (concat ss)" "concat (snd (take_in n ss)) = drop n (concat ss)"
  by (induction n ss rule: take_in.induct) (simp_all add: split_beta)

text \<open>\<open>io.ReadFull\<close> into a buffer of \<open>n\<close> bytes.\<close>

definition readFull :: "nat \<Rightarrow> (io_error, byte list) io" where
  "readFull n c =
     (if n = 0 then (Inr [], c)
      else if c_closed c then (Inl UseOfClosed, c)
      else
        (let (bs, rest) = take_in n (c_in c); c' = c\<lparr>c_in := rest\<rparr> in
         if length bs = n then (Inr bs, c')
         else (Inl (if bs = [] then EOF else UnexpectedEOF), c')))"

text \<open>What is still to be read, as one sequence.\<close>

definition pending :: "conn \<Rightarrow> byte list" where
  "pending c = concat (c_in c)"

text \<open>One equation for the read on an open connection; the facts below are its cases.\<close>

lemma readFull_open:
  assumes "\<not> c_closed c" and "n \<noteq> 0"
  shows "\<exists>rest. concat rest = drop n (pending c) \<and>
    readFull n c =
      (if n \<le> length (pending c) then Inr (take n (pending c))
       else Inl (if pending c = [] then EOF else UnexpectedEOF), c\<lparr>c_in := rest\<rparr>)"
proof -
  have t: "fst (take_in n (c_in c)) = take n (pending c)"
    "concat (snd (take_in n (c_in c))) = drop n (pending c)"
    by (simp_all add: take_in_concat pending_def)
  have "length (take n (pending c)) = n \<longleftrightarrow> n \<le> length (pending c)" by auto
  with assms t show ?thesis
    by (intro exI [of _ "snd (take_in n (c_in c))"]) (simp add: readFull_def split_beta)
qed

lemma readFull_cases:
  assumes "readFull n c = (x, c')"
  shows "c_out c' = c_out c \<and> c_closed c' = c_closed c \<and> c_wlim c' = c_wlim c \<and>
    c_deadline c' = c_deadline c \<and>
    (case x of
       Inr bs \<Rightarrow> length bs = n \<and> pending c = bs @ pending c'
     | Inl e \<Rightarrow> c_closed c \<or> length (pending c) < n)"
proof (cases "c_closed c \<or> n = 0")
  case True
  with assms show ?thesis by (auto simp: readFull_def split: if_splits)
next
  case False
  with readFull_open [of c n] assms obtain rest where
    "concat rest = drop n (pending c)" "c' = c\<lparr>c_in := rest\<rparr>"
    "x = (if n \<le> length (pending c) then Inr (take n (pending c))
       else Inl (if pending c = [] then EOF else UnexpectedEOF))"
    by auto
  then show ?thesis by (auto simp: pending_def)
qed

lemma readFull_Inr:
  assumes "readFull n c = (Inr bs, c')"
  shows "length bs = n" and "pending c = bs @ pending c'" and "c_out c' = c_out c"
    and "c_closed c' = c_closed c" and "c_wlim c' = c_wlim c" and "c_deadline c' = c_deadline c"
  using readFull_cases [OF assms] by simp_all

lemma readFull_Inl:
  assumes "readFull n c = (Inl e, c')"
  shows "c_closed c \<or> length (pending c) < n" and "c_out c' = c_out c"
    and "c_closed c' = c_closed c" and "c_deadline c' = c_deadline c"
  using readFull_cases [OF assms] by simp_all

lemma readFull_ok:
  assumes "\<not> c_closed c" and "pending c = bs @ post" and "length bs = n"
  shows "\<exists>c'. readFull n c = (Inr bs, c') \<and> pending c' = post \<and>
    c_out c' = c_out c \<and> c_closed c' = c_closed c \<and> c_wlim c' = c_wlim c \<and>
    c_deadline c' = c_deadline c"
proof (cases "n = 0")
  case True
  with assms show ?thesis by (simp add: readFull_def)
next
  case False
  with readFull_open [OF assms(1), of n] assms(2,3) show ?thesis by (auto simp: pending_def)
qed

section \<open>Writing and closing\<close>

definition writeConn :: "byte list \<Rightarrow> (io_error, unit) io" where
  "writeConn bs c =
     (if c_closed c then (Inl UseOfClosed, c)
      else case c_wlim c of
        None \<Rightarrow> (Inr (), c\<lparr>c_out := c_out c @ bs\<rparr>)
      | Some 0 \<Rightarrow> (Inl WriteError, c)
      | Some (Suc k) \<Rightarrow> (Inr (), c\<lparr>c_out := c_out c @ bs, c_wlim := Some k\<rparr>))"

definition closeConn :: "conn \<Rightarrow> conn" where
  "closeConn c = c\<lparr>c_closed := True\<rparr>"

lemma writeConn_Inr:
  assumes "writeConn bs c = (Inr u, c')"
  shows "c_out c' = c_out c @ bs" and "pending c' = pending c" and "c_closed c' = c_closed c"
    and "\<not> c_closed c" and "c_deadline c' = c_deadline c"
  using assms by (auto simp: writeConn_def pending_def split: if_splits option.splits nat.splits)

lemma writeConn_Inl:
  assumes "writeConn bs c = (Inl e, c')"
  shows "c' = c"
  using assms by (auto simp: writeConn_def split: if_splits option.splits nat.splits)

lemma writeConn_open:
  assumes "\<not> c_closed c" and "c_wlim c = None"
  shows "writeConn bs c = (Inr (), c\<lparr>c_out := c_out c @ bs\<rparr>)"
  using assms by (simp add: writeConn_def)

lemma pending_simps [simp]:
  "pending (c\<lparr>c_out := o'\<rparr>) = pending c" "pending (c\<lparr>c_wlim := w\<rparr>) = pending c"
  "pending (c\<lparr>c_closed := b\<rparr>) = pending c" "pending (c\<lparr>c_deadline := b\<rparr>) = pending c"
  by (simp_all add: pending_def)

lemma closeConn_simps [simp]:
  "c_closed (closeConn c)" "c_out (closeConn c) = c_out c" "pending (closeConn c) = pending c"
  by (simp_all add: closeConn_def pending_def)

text \<open>A connection just opened to a peer that will send the given segments.\<close>

definition fresh_conn :: "byte list list \<Rightarrow> conn" where
  "fresh_conn ss = \<lparr>c_in = ss, c_out = [], c_wlim = None, c_closed = False, c_deadline = False\<rparr>"

definition usable :: "conn \<Rightarrow> bool" where
  "usable c \<longleftrightarrow> \<not> c_closed c \<and> c_wlim c = None"

section \<open>Two contracts of a computation\<close>

text \<open>
  \<open>liftIO\<close> is the wrapping of an I/O error in an error of the caller. A computation is
  \<open>io_tame\<close> if, whatever its outcome, it leaves the connection open or closed as it was,
  only appends to what was written and only removes from the front of what is to be read.
  \<open>exchange m i o x\<close> says that against a peer that sends \<open>i\<close>, the computation takes
  exactly \<open>i\<close>, answers exactly \<open>o\<close> and returns \<open>x\<close>.
\<close>

definition liftIO :: "(io_error \<Rightarrow> 'e) \<Rightarrow> (io_error, 'a) io \<Rightarrow> ('e, 'a) io" where
  "liftIO f m c = (case m c of (Inl e, c') \<Rightarrow> (Inl (f e), c') | (Inr x, c') \<Rightarrow> (Inr x, c'))"

definition io_tame :: "('e, 'a) io \<Rightarrow> bool" where
  "io_tame m \<longleftrightarrow> (\<forall>c.
     c_closed (snd (m c)) = c_closed c \<and> c_deadline (snd (m c)) = c_deadline c \<and>
     (\<exists>out. c_out (snd (m c)) = c_out c @ out) \<and>
     (\<exists>got. pending c = got @ pending (snd (m c))))"

definition exchange :: "('e, 'a) io \<Rightarrow> byte list \<Rightarrow> byte list \<Rightarrow> 'a \<Rightarrow> bool" where
  "exchange m i out x \<longleftrightarrow> (\<forall>c post. usable c \<longrightarrow> pending c = i @ post \<longrightarrow>
     (\<exists>c'. m c = (Inr x, c') \<and> usable c' \<and> pending c' = post \<and> c_out c' = c_out c @ out \<and>
       c_deadline c' = c_deadline c))"

named_theorems io_rules \<open>computations that are tame\<close>

lemma io_tameD:
  assumes "io_tame m" and "m c = (r, c')"
  shows "c_closed c' = c_closed c" and "c_deadline c' = c_deadline c"
    and "\<exists>out. c_out c' = c_out c @ out" and "\<exists>got. pending c = got @ pending c'"
proof -
  from assms(1) have "c_closed (snd (m c)) = c_closed c \<and> c_deadline (snd (m c)) = c_deadline c \<and>
     (\<exists>out. c_out (snd (m c)) = c_out c @ out) \<and> (\<exists>got. pending c = got @ pending (snd (m c)))"
    unfolding io_tame_def by blast
  with assms(2) show "c_closed c' = c_closed c" "c_deadline c' = c_deadline c"
    "\<exists>out. c_out c' = c_out c @ out" "\<exists>got. pending c = got @ pending c'" by auto
qed

lemma io_tame_basic [io_rules]: "io_tame (ret x)" "io_tame (fail e)"
  by (simp_all add: io_tame_def)

lemma io_tame_andThen [io_rules]:
  assumes m: "io_tame m" and f: "\<And>x. io_tame (f x)"
  shows "io_tame (andThen m f)"
  unfolding io_tame_def
proof
  fix c
  obtain r c1 where r: "m c = (r, c1)" by (cases "m c")
  show "c_closed (snd (andThen m f c)) = c_closed c \<and>
    c_deadline (snd (andThen m f c)) = c_deadline c \<and>
    (\<exists>out. c_out (snd (andThen m f c)) = c_out c @ out) \<and>
    (\<exists>got. pending c = got @ pending (snd (andThen m f c)))"
  proof (cases r)
    case (Inl e)
    with r io_tameD [OF m r] show ?thesis by simp
  next
    case (Inr x)
    obtain r' c2 where r': "f x c1 = (r', c2)" by (cases "f x c1")
    from io_tameD [OF m r] io_tameD [OF f r'] r r' Inr show ?thesis by auto
  qed
qed

lemma snd_liftIO: "snd (liftIO f m c) = snd (m c)"
  by (simp add: liftIO_def split: prod.splits sum.splits)

lemma io_tame_liftIO [io_rules]: "io_tame m \<Longrightarrow> io_tame (liftIO f m)"
  by (simp add: io_tame_def snd_liftIO)

lemma io_tame_readFull [io_rules]: "io_tame (readFull n)"
  unfolding io_tame_def
proof
  fix c
  obtain r c' where r: "readFull n c = (r, c')" by (cases "readFull n c")
  have "\<exists>got. pending c = got @ pending c'"
  proof (cases "c_closed c \<or> n = 0")
    case True
    with r show ?thesis by (auto simp: readFull_def split: if_splits)
  next
    case False
    with readFull_open [of c n] r obtain rest where "concat rest = drop n (pending c)"
      "c' = c\<lparr>c_in := rest\<rparr>" by auto
    then have "pending c' = drop n (pending c)" by (simp add: pending_def)
    then show ?thesis by (intro exI [of _ "take n (pending c)"]) simp
  qed
  with readFull_cases [OF r] r show "c_closed (snd (readFull n c)) = c_closed c \<and>
    c_deadline (snd (readFull n c)) = c_deadline c \<and>
    (\<exists>out. c_out (snd (readFull n c)) = c_out c @ out) \<and>
    (\<exists>got. pending c = got @ pending (snd (readFull n c)))"
    by simp
qed

lemma io_tame_writeConn [io_rules]: "io_tame (writeConn bs)"
  unfolding io_tame_def by (auto simp: writeConn_def pending_def split: option.splits nat.splits)

lemma exchangeI:
  assumes "\<And>c post. usable c \<Longrightarrow> pending c = i @ post \<Longrightarrow>
     \<exists>c'. m c = (Inr x, c') \<and> usable c' \<and> pending c' = post \<and> c_out c' = c_out c @ out \<and>
       c_deadline c' = c_deadline c"
  shows "exchange m i out x"
  using assms by (simp add: exchange_def)

lemma exchangeE:
  assumes "exchange m i out x" and "usable c" and "pending c = i @ post"
  obtains c' where "m c = (Inr x, c')" and "usable c'" and "pending c' = post"
    and "c_out c' = c_out c @ out" and "c_deadline c' = c_deadline c"
  using assms by (auto simp: exchange_def)

lemma exchange_ret: "exchange (ret x) [] [] x"
  by (rule exchangeI) simp

lemma exchange_andThen:
  assumes m: "exchange m ia oa x" and f: "exchange (f x) ib ob y"
    and i: "i = ia @ ib" and out: "out = oa @ ob"
  shows "exchange (andThen m f) i out y"
proof (rule exchangeI)
  fix c post
  assume "usable c" and "pending c = i @ post"
  then obtain c1 where c1: "m c = (Inr x, c1)" "usable c1" "pending c1 = ib @ post"
    "c_out c1 = c_out c @ oa" "c_deadline c1 = c_deadline c"
    using exchangeE [OF m] i by auto
  from exchangeE [OF f c1(2,3)] obtain c2 where "f x c1 = (Inr y, c2)" "usable c2"
    "pending c2 = post" "c_out c2 = c_out c1 @ ob" "c_deadline c2 = c_deadline c1" by blast
  with c1 out show "\<exists>c'. andThen m f c = (Inr y, c') \<and> usable c' \<and> pending c' = post \<and>
      c_out c' = c_out c @ out \<and> c_deadline c' = c_deadline c" by simp
qed

lemma exchange_liftIO: "exchange m i out x \<Longrightarrow> exchange (liftIO f m) i out x"
proof (rule exchangeI)
  fix c post
  assume "exchange m i out x" and "usable c" and "pending c = i @ post"
  then show "\<exists>c'. liftIO f m c = (Inr x, c') \<and> usable c' \<and> pending c' = post \<and>
      c_out c' = c_out c @ out \<and> c_deadline c' = c_deadline c"
    by (elim exchangeE) (auto simp: liftIO_def)
qed

lemma exchange_readFull: "length bs = n \<Longrightarrow> exchange (readFull n) bs [] bs"
  by (rule exchangeI) (metis append_Nil2 readFull_ok usable_def)

lemma exchange_writeConn: "exchange (writeConn bs) [] bs ()"
  by (rule exchangeI) (auto simp: writeConn_open usable_def)

end
