(* ===== verification/NetIP.thy ===== *)
theory NetIP
  imports GoText
begin

text \<open>
  What the program uses of Go's \<open>net\<close> package on addresses: \<open>net.ParseIP\<close> (which is
  \<open>netip.ParseAddr\<close> without zones), \<open>IP.To4\<close> and \<open>IP.String\<close>. The parsers are
  the library's loops over the bytes of the text.
\<close>

section \<open>Dotted decimal\<close>

text \<open>
  \<open>parseIPv4Fields\<close>: the value and the number of digits of the current octet, the octets
  before it, the byte before the current one, the rest.
\<close>

fun v4_loop :: "nat \<Rightarrow> nat \<Rightarrow> byte list \<Rightarrow> char option \<Rightarrow> string \<Rightarrow> (nat \<times> byte list) option" where
  "v4_loop val digs fields prev [] = Some (val, fields)"
| "v4_loop val digs fields prev (c # cs) =
     (if is_digit c then
        if digs = 1 \<and> val = 0 then None
        else if val * 10 + digit_val c > 255 then None
        else v4_loop (val * 10 + digit_val c) (Suc digs) fields (Some c) cs
      else if c = CHR ''.'' then
        if prev = None \<or> cs = [] \<or> prev = Some CHR ''.'' then None
        else if length fields = 3 then None
        else v4_loop 0 0 (fields @ [of_nat val]) (Some c) cs
      else None)"

definition parse_v4 :: "string \<Rightarrow> byte list option" where
  "parse_v4 s =
     (case v4_loop 0 0 [] None s of
        None \<Rightarrow> None
      | Some (val, fields) \<Rightarrow>
          if length fields < 3 then None else Some (fields @ [of_nat val]))"

definition v4_string :: "byte list \<Rightarrow> string" where
  "v4_string ip = itoa (unat (ip ! 0)) @ ''.'' @ itoa (unat (ip ! 1)) @ ''.'' @
     itoa (unat (ip ! 2)) @ ''.'' @ itoa (unat (ip ! 3))"

section \<open>IPv6 text\<close>

definition hex_val :: "char \<Rightarrow> nat option" where
  "hex_val c =
     (let n = (of_char c :: nat) in
      if 48 \<le> n \<and> n \<le> 57 then Some (n - 48)
      else if 97 \<le> n \<and> n \<le> 102 then Some (n - 87)
      else if 65 \<le> n \<and> n \<le> 70 then Some (n - 55)
      else None)"

text \<open>
  One group: the digits it takes, \<open>None\<close> for a fifth digit, else the value, the number of
  digits and the rest.
\<close>

fun hex_group :: "nat \<Rightarrow> nat \<Rightarrow> string \<Rightarrow> (nat \<times> nat \<times> string) option" where
  "hex_group acc off [] = Some (acc, off, [])"
| "hex_group acc off (c # cs) =
     (case hex_val c of
        None \<Rightarrow> Some (acc, off, c # cs)
      | Some d \<Rightarrow> if off > 3 then None else hex_group (acc * 16 + d) (Suc off) cs)"

text \<open>
  The main loop of \<open>parseIPv6\<close>: the bytes so far, the position of the ellipsis, the rest.
  Its fuel is the number of groups an address can hold; a group that is read consumes at
  least one of the \<open>16\<close> bytes.
\<close>

fun v6_loop :: "nat \<Rightarrow> byte list \<Rightarrow> nat option \<Rightarrow> string \<Rightarrow> (byte list \<times> nat option \<times> string) option" where
  "v6_loop 0 ip ell s = Some (ip, ell, s)"
| "v6_loop (Suc n) ip ell s =
     (case hex_group 0 0 s of
        None \<Rightarrow> None
      | Some (acc, off, rest) \<Rightarrow>
          if off = 0 then None
          else if has_prefix ''.'' rest then
            if ell = None \<and> length ip \<noteq> 12 then None
            else if length ip + 4 > 16 then None
            else (case parse_v4 s of None \<Rightarrow> None | Some q \<Rightarrow> Some (ip @ q, ell, []))
          else
            (let ip' = ip @ [of_nat (acc div 256), of_nat acc] in
             case rest of
               [] \<Rightarrow> Some (ip', ell, [])
             | c # rest1 \<Rightarrow>
                 if c \<noteq> CHR '':'' then None
                 else (case rest1 of
                     [] \<Rightarrow> None
                   | c2 # rest2 \<Rightarrow>
                       if c2 = CHR '':'' then
                         if ell \<noteq> None then None
                         else if rest2 = [] then Some (ip', Some (length ip'), [])
                         else v6_loop n ip' (Some (length ip')) rest2
                       else v6_loop n ip' ell rest1)))"

definition parse_v6 :: "string \<Rightarrow> byte list option" where
  "parse_v6 s =
     (if CHR ''%'' \<in> set s then None
      else if s = ''::'' then Some (replicate 16 0)
      else
        (let ell0 = (if has_prefix ''::'' s then Some 0 else None);
             s0 = (if has_prefix ''::'' s then drop 2 s else s)
         in case v6_loop 8 [] ell0 s0 of
              None \<Rightarrow> None
            | Some (ip, ell, rest) \<Rightarrow>
                if rest \<noteq> [] then None
                else if length ip < 16 then
                  (case ell of
                     None \<Rightarrow> None
                   | Some e \<Rightarrow> Some (take e ip @ replicate (16 - length ip) 0 @ drop e ip))
                else if ell \<noteq> None then None
                else Some ip))"

section \<open>The interface\<close>

definition v4_prefix :: "byte list" where
  "v4_prefix = replicate 10 0 @ [255, 255]"

text \<open>\<open>net.ParseIP\<close>: sixteen bytes, an IPv4 address in its mapped form.\<close>

definition ParseIP :: "string \<Rightarrow> byte list option" where
  "ParseIP s =
     (case find (\<lambda>c. c = CHR ''.'' \<or> c = CHR '':'' \<or> c = CHR ''%'') s of
        None \<Rightarrow> None
      | Some c \<Rightarrow>
          if c = CHR ''.'' then map_option (\<lambda>q. v4_prefix @ q) (parse_v4 s)
          else if c = CHR '':'' then parse_v6 s
          else None)"

definition To4 :: "byte list \<Rightarrow> byte list option" where
  "To4 ip =
     (if length ip = 4 then Some ip
      else if length ip = 16 \<and> take 12 ip = v4_prefix then Some (drop 12 ip)
      else None)"

definition hex_digit :: "nat \<Rightarrow> char" where
  "hex_digit d = (if d < 10 then char_of (48 + d) else char_of (87 + d))"

fun hex_string :: "nat \<Rightarrow> string" where
  "hex_string n = (if n < 16 then [hex_digit n] else hex_string (n div 16) @ [hex_digit (n mod 16)])"

declare hex_string.simps [simp del]

definition group_at :: "byte list \<Rightarrow> nat \<Rightarrow> nat" where
  "group_at ip i = unat (ip ! (2 * i)) * 256 + unat (ip ! (2 * i + 1))"

text \<open>The first longest run of at least two zero groups, as start and end.\<close>

definition zero_run :: "byte list \<Rightarrow> nat \<Rightarrow> nat" where
  "zero_run ip i = length (takeWhile (\<lambda>k. group_at ip k = 0) [i..<8])"

definition best_run :: "byte list \<Rightarrow> (nat \<times> nat) option" where
  "best_run ip =
     fold (\<lambda>i best.
       let l = zero_run ip i; cur = (case best of None \<Rightarrow> 0 | Some (a, b) \<Rightarrow> b - a)
       in if 2 \<le> l \<and> cur < l then Some (i, i + l) else best) [0..<8] None"

fun colon_groups :: "byte list \<Rightarrow> nat list \<Rightarrow> string" where
  "colon_groups ip [] = []"
| "colon_groups ip [i] = hex_string (group_at ip i)"
| "colon_groups ip (i # is) = hex_string (group_at ip i) @ '':'' @ colon_groups ip is"

definition v6_string :: "byte list \<Rightarrow> string" where
  "v6_string ip =
     (case best_run ip of
        None \<Rightarrow> colon_groups ip [0..<8]
      | Some (a, b) \<Rightarrow> colon_groups ip [0..<a] @ ''::'' @ colon_groups ip [b..<8])"

text \<open>\<open>IP.String\<close> of an address of four or sixteen bytes.\<close>

definition IP_String :: "byte list \<Rightarrow> string" where
  "IP_String ip = (case To4 ip of Some q \<Rightarrow> v4_string q | None \<Rightarrow> v6_string ip)"

section \<open>Dotted decimal round trip\<close>

lemma v4_loop_octet:
  assumes "n < 256"
  shows "\<exists>p. is_digit p \<and>
    v4_loop 0 0 fs prev (itoa n @ rest) = v4_loop n (length (itoa n)) fs (Some p) rest"
proof -
  consider "n < 10" | "10 \<le> n" "n < 100" | "100 \<le> n" by linarith
  then show ?thesis
  proof cases
    case 1
    then have "itoa n = [digit_char n]" by (subst itoa.simps) simp
    with 1 show ?thesis by (intro exI [of _ "digit_char n"]) simp
  next
    case 2
    then have i: "itoa n = [digit_char (n div 10), digit_char (n mod 10)]"
      by (subst itoa.simps) (simp, subst itoa.simps, simp)
    from 2 have "n div 10 < 10" "0 < n div 10" "n div 10 * 10 + n mod 10 = n"
      by (simp_all add: div_greater_zero_iff)
    with i assms show ?thesis
      by (intro exI [of _ "digit_char (n mod 10)"]) simp
  next
    case 3
    have "\<not> n < 10" "\<not> n div 10 < 10" "n div 100 < 10" "n div 10 div 10 = n div 100"
      using 3 assms by (simp_all add: div_mult2_eq [symmetric])
    then have i: "itoa n = [digit_char (n div 100), digit_char (n div 10 mod 10), digit_char (n mod 10)]"
      by (subst itoa.simps) (simp, subst itoa.simps, simp, subst itoa.simps, simp)
    have e: "n div 100 * 10 + n div 10 mod 10 = n div 10" "n div 10 * 10 + n mod 10 = n"
      using div_mult_mod_eq [of "n div 10" 10] by (simp_all add: div_mult2_eq [symmetric])
    have b: "n div 100 < 10" "0 < n div 100" "n div 10 < 256"
      using 3 assms by (simp_all add: div_greater_zero_iff)
    from i e b assms show ?thesis
      by (intro exI [of _ "digit_char (n mod 10)"]) simp
  qed
qed

lemma v4_loop_dot:
  assumes "is_digit p" and "cs \<noteq> []" and "length fs < 3"
  shows "v4_loop n k fs (Some p) (CHR ''.'' # cs) = v4_loop 0 0 (fs @ [of_nat n]) (Some CHR ''.'') cs"
  using assms by auto

lemma parse_v4_string:
  "parse_v4 (v4_string [a, b, c, d]) = Some [a, b, c, d]"
proof -
  note u = unat_byte_less
  let ?r3 = "itoa (unat d)"
  let ?r2 = "itoa (unat c) @ ''.'' @ ?r3"
  let ?r1 = "itoa (unat b) @ ''.'' @ ?r2"
  obtain p0 where 0: "is_digit p0" "v4_loop 0 0 [] None (itoa (unat a) @ ''.'' @ ?r1) =
      v4_loop (unat a) (length (itoa (unat a))) [] (Some p0) (''.'' @ ?r1)"
    using v4_loop_octet [OF u] by blast
  obtain p1 where 1: "is_digit p1" "v4_loop 0 0 [a] (Some CHR ''.'') ?r1 =
      v4_loop (unat b) (length (itoa (unat b))) [a] (Some p1) (''.'' @ ?r2)"
    using v4_loop_octet [OF u] by blast
  obtain p2 where 2: "is_digit p2" "v4_loop 0 0 [a, b] (Some CHR ''.'') ?r2 =
      v4_loop (unat c) (length (itoa (unat c))) [a, b] (Some p2) (''.'' @ ?r3)"
    using v4_loop_octet [OF u] by blast
  obtain p3 where 3: "is_digit p3" "v4_loop 0 0 [a, b, c] (Some CHR ''.'') (?r3 @ []) =
      v4_loop (unat d) (length (itoa (unat d))) [a, b, c] (Some p3) []"
    using v4_loop_octet [OF u] by blast
  have "v4_loop 0 0 [] None (v4_string [a, b, c, d]) = Some (unat d, [a, b, c])"
    using 0 1 2 3
    by (simp add: v4_string_def v4_loop_dot numeral_3_eq_3 del: v4_loop.simps(2))
  then show ?thesis by (simp add: parse_v4_def)
qed

section \<open>Lengths\<close>

lemma v4_loop_length:
  "v4_loop val digs fs prev s = Some (v, fs') \<Longrightarrow> length fs \<le> 3 \<Longrightarrow> length fs' \<le> 3"
  by (induction val digs fs prev s rule: v4_loop.induct) (auto split: if_splits)

lemma parse_v4_length: "parse_v4 s = Some q \<Longrightarrow> length q = 4"
  using v4_loop_length [of 0 0 "[]" None s]
  by (auto simp: parse_v4_def split: option.splits if_splits)

lemma v6_loop_length:
  "v6_loop n ip ell s = Some (ip', ell', r) \<Longrightarrow> length ip + 2 * n \<le> 16 \<Longrightarrow>
   (\<forall>e. ell = Some e \<longrightarrow> e \<le> length ip) \<Longrightarrow>
   length ip' \<le> 16 \<and> (\<forall>e. ell' = Some e \<longrightarrow> e \<le> length ip')"
proof (induction n ip ell s rule: v6_loop.induct)
  case (2 n ip ell s)
  obtain acc off rest where g: "hex_group 0 0 s = Some (acc, off, rest)" and off: "off \<noteq> 0"
    using "2.prems"(1) by (auto split: option.splits if_splits)
  let ?ip = "ip @ [of_nat (acc div 256), of_nat acc]"
  show ?case
  proof (cases "has_prefix ''.'' rest")
    case True
    with "2.prems" g off show ?thesis
      by (auto split: if_splits option.splits dest: parse_v4_length)
  next
    case False
    show ?thesis
    proof (cases rest)
      case Nil
      with False "2.prems" g off show ?thesis by auto
    next
      case (Cons c rest1)
      have ell: "\<forall>e. ell = Some e \<longrightarrow> e \<le> length ?ip" using "2.prems"(3) by fastforce
      note IH = "2.IH" [OF g refl refl off False refl Cons]
      have c: "c = CHR '':''" "rest1 \<noteq> []"
        using "2.prems"(1) g off False Cons by (auto simp: Let_def split: if_splits list.splits)
      then obtain c2 rest2 where r1: "rest1 = c2 # rest2" by (cases rest1) auto
      show ?thesis
        using "2.prems"(1,2) IH(1) [OF _ r1] IH(2) [OF _ r1] ell g off False Cons c r1
        by (auto simp: Let_def split: if_splits)
    qed
  qed
qed simp

lemma parse_v6_length: "parse_v6 s = Some ip \<Longrightarrow> length ip = 16"
proof -
  assume p: "parse_v6 s = Some ip"
  show ?thesis
  proof (cases "s = ''::''")
    case True
    with p show ?thesis by (auto simp: parse_v6_def split: if_splits)
  next
    case False
    let ?ell = "if has_prefix ''::'' s then Some 0 else None"
    let ?s = "if has_prefix ''::'' s then drop 2 s else s"
    from p False obtain ip' ell r where v: "v6_loop 8 [] ?ell ?s = Some (ip', ell, r)"
      by (auto simp: parse_v6_def Let_def split: if_splits option.splits prod.splits)
    from v6_loop_length [OF v] have "length ip' \<le> 16" "\<forall>e. ell = Some e \<longrightarrow> e \<le> length ip'" by auto
    with p False v show ?thesis
      by (auto simp: parse_v6_def Let_def split: if_splits option.splits)
  qed
qed

lemma ParseIP_length: "ParseIP s = Some ip \<Longrightarrow> length ip = 16"
  by (auto simp: ParseIP_def v4_prefix_def split: option.splits if_splits
      dest: parse_v4_length parse_v6_length)

lemma To4_length: "To4 ip = Some q \<Longrightarrow> length q = 4"
  by (auto simp: To4_def split: if_splits)

end
