(* ===== verification/ProxyUtil.thy ===== *)
theory ProxyUtil
  imports GoText
begin

text \<open>
  The helpers of the proxy servers (\<open>internal/proxy/util.go\<close> and the two parsers at the
  end of \<open>internal/proxy/http.go\<close>): connection identifiers, host and port text, and the
  decimal conversions the package writes by hand, at the widths the code has.
\<close>

section \<open>Identifiers\<close>

definition nibble_char :: "nat \<Rightarrow> char" where
  "nibble_char d = (if d < 10 then char_of (48 + d) else char_of (87 + d))"

text \<open>\<open>newID\<close> over the eight bytes that the random source gave.\<close>

definition newID :: "byte list \<Rightarrow> string" where
  "newID b = concat (map (\<lambda>x. [nibble_char (unat x div 16), nibble_char (unat x mod 16)]) b)"

lemma nibble_char_inject: "d < 16 \<Longrightarrow> e < 16 \<Longrightarrow> nibble_char d = nibble_char e \<longleftrightarrow> d = e"
proof -
  assume d: "d < 16" and e: "e < 16"
  have v: "of_char (nibble_char k) = (if k < 10 then 48 + k else 87 + k)" if "k < 16" for k :: nat
    using that by (simp add: nibble_char_def)
  show ?thesis
  proof
    assume "nibble_char d = nibble_char e"
    then have "(of_char (nibble_char d) :: nat) = of_char (nibble_char e)" by simp
    with d e show "d = e" by (simp add: v split: if_splits)
  qed simp
qed

lemma length_newID: "length (newID b) = 2 * length b"
  by (induction b) (simp_all add: newID_def)

text \<open>Different random bytes give different identifiers.\<close>

lemma newID_inject: "length a = length b \<Longrightarrow> newID a = newID b \<longleftrightarrow> a = b"
proof (induction a b rule: list_induct2)
  case (Cons x xs y ys)
  have lt: "unat z div 16 < 16" "unat z mod 16 < 16" for z :: byte
    using unat_byte_less [of z] by (simp_all add: less_mult_imp_div_less)
  have "x = y" if "unat x div 16 = unat y div 16" "unat x mod 16 = unat y mod 16"
  proof -
    from that have "unat x = unat y" by (metis div_mult_mod_eq)
    then show ?thesis by (simp add: word_unat_eq_iff)
  qed
  with Cons show ?case
    by (auto simp: newID_def nibble_char_inject lt)
qed simp

section \<open>Decimal text of a port\<close>

text \<open>
  The loop of \<open>uint16ToStr\<close>: it writes the digits from the end of a five-byte buffer;
  an index below zero would panic.
\<close>

function u16_loop :: "u16 \<Rightarrow> nat \<Rightarrow> byte list \<Rightarrow> go_panic + (nat \<times> byte list)" where
  "u16_loop p i buf =
     (if p = 0 then Inr (i, buf)
      else if i = 0 then Inl IndexOutOfRange
      else u16_loop (p div 10) (i - 1) (buf[i - 1 := ucast (48 + p mod 10)]))"
  by pat_completeness auto
termination
  by (relation "measure (\<lambda>(p, i, buf). i)") auto

declare u16_loop.simps [simp del]

definition uint16ToStr :: "u16 \<Rightarrow> go_panic + string" where
  "uint16ToStr p =
     (if p = 0 then Inr ''0''
      else case u16_loop p 5 (replicate 5 0) of
        Inl e \<Rightarrow> Inl e
      | Inr (i, buf) \<Rightarrow> Inr (string_of (drop i buf)))"

definition digits_or_empty :: "nat \<Rightarrow> string" where
  "digits_or_empty n = (if n = 0 then [] else itoa n)"

lemma digits_or_empty_step:
  "0 < n \<Longrightarrow> digits_or_empty n = digits_or_empty (n div 10) @ [digit_char (n mod 10)]"
  by (subst (1 2) digits_or_empty_def, subst itoa.simps) auto

lemma u16_digit:
  fixes p :: u16
  shows "char_of (unat (ucast (48 + p mod 10) :: byte)) = digit_char (unat p mod 10)"
proof -
  have "unat (48 + p mod 10) = 48 + unat p mod 10"
    by (simp add: unat_word_ariths unat_mod_distrib)
  then have "unat (ucast (48 + p mod 10) :: byte) = 48 + unat p mod 10"
    by (simp add: unsigned_ucast_eq take_bit_eq_mod)
  then show ?thesis by (simp add: digit_char_def)
qed

lemma u16_loop_correct:
  "unat p < 10 ^ i \<Longrightarrow> i \<le> length buf \<Longrightarrow>
   \<exists>j buf'. u16_loop p i buf = Inr (j, buf') \<and>
     string_of (drop j buf') = digits_or_empty (unat p) @ string_of (drop i buf)"
proof (induction p i buf rule: u16_loop.induct)
  case (1 p i buf)
  show ?case
  proof (cases "p = 0")
    case True
    then show ?thesis
      by (intro exI [of _ i] exI [of _ buf]) (simp add: u16_loop.simps digits_or_empty_def)
  next
    case False
    then have p: "0 < unat p" by (simp add: unat_gt_0)
    with "1.prems"(1) have i: "0 < i" by (cases i) auto
    let ?b = "buf[i - 1 := ucast (48 + p mod 10)]"
    have q: "unat (p div 10) = unat p div 10" by (simp add: unat_div_distrib)
    have "unat (p div 10) < 10 ^ (i - 1)"
      using "1.prems"(1) i q by (cases i) (simp_all add: less_mult_imp_div_less mult.commute)
    moreover have "i - 1 \<le> length ?b" using "1.prems"(2) by simp
    ultimately obtain j b' where j: "u16_loop (p div 10) (i - 1) ?b = Inr (j, b')"
      "string_of (drop j b') = digits_or_empty (unat p div 10) @ string_of (drop (i - 1) ?b)"
      using "1.IH" False i q by auto
    have "drop (i - 1) ?b = ucast (48 + p mod 10) # drop i buf"
      using i "1.prems"(2) by (simp add: Cons_nth_drop_Suc [symmetric])
    then have "string_of (drop j b') = digits_or_empty (unat p) @ string_of (drop i buf)"
      using j(2) digits_or_empty_step [OF p] u16_digit [of p] by (simp add: string_of_def)
    with j(1) False i show ?thesis by (simp add: u16_loop.simps [of p])
  qed
qed

lemma uint16ToStr_eq: "uint16ToStr p = Inr (itoa (unat p))"
proof (cases "p = 0")
  case True
  moreover have "itoa 0 = ''0''" by (subst itoa.simps) (simp add: digit_char_def, code_simp)
  ultimately show ?thesis by (simp add: uint16ToStr_def)
next
  case False
  have "unat p < 10 ^ 5" 
    by (rule less_trans [OF unat_u16_less]) simp
  from u16_loop_correct [OF this, of "replicate 5 0"] obtain j b where
    "u16_loop p 5 (replicate 5 0) = Inr (j, b)" "string_of (drop j b) = digits_or_empty (unat p)"
    by (auto simp: string_of_def)
  with False show ?thesis by (simp add: uint16ToStr_def digits_or_empty_def unat_gt_0 unat_eq_zero)
qed

section \<open>Host and port\<close>

definition joinedHost :: "string \<Rightarrow> u16 \<Rightarrow> go_panic + string" where
  "joinedHost host port =
     (case SplitHostPort host of
        Inr _ \<Rightarrow> Inr host
      | Inl _ \<Rightarrow>
          (case uint16ToStr port of Inl e \<Rightarrow> Inl e | Inr s \<Rightarrow> Inr (JoinHostPort host s)))"

definition splitHostPort :: "string \<Rightarrow> string \<times> string" where
  "splitHostPort addr = (case SplitHostPort addr of Inl _ \<Rightarrow> (addr, []) | Inr hp \<Rightarrow> hp)"

text \<open>The address that is dialled, without the detour through the buffer.\<close>

definition dial_target :: "string \<Rightarrow> u16 \<Rightarrow> string" where
  "dial_target host port =
     (case SplitHostPort host of Inr _ \<Rightarrow> host | Inl _ \<Rightarrow> JoinHostPort host (itoa (unat port)))"

lemma joinedHost_eq: "joinedHost host port = Inr (dial_target host port)"
  by (simp add: joinedHost_def dial_target_def uint16ToStr_eq split: sum.split)

text \<open>
  \<open>parsePort\<close>: the accumulator is Go's \<open>int\<close>, 64 bits wide on every platform built, so
  a long digit string wraps around. The loop runs over runes; a rune that is not ASCII is
  no digit, as its bytes here are not.
\<close>

fun port_loop :: "i64 \<Rightarrow> string \<Rightarrow> i64 option" where
  "port_loop n [] = Some n"
| "port_loop n (c # cs) =
     (if \<not> is_digit c then None
      else port_loop (n * 10 + of_nat (digit_val c)) cs)"

definition parsePort :: "string \<Rightarrow> int \<Rightarrow> int" where
  "parsePort s def =
     (if s = [] then def
      else case port_loop 0 s of
        None \<Rightarrow> def
      | Some n \<Rightarrow> if sint n \<le> 0 \<or> sint n > 65535 then def else sint n)"

lemma port_loop_eq:
  "port_loop (of_nat n) s =
     (if \<forall>c \<in> set s. is_digit c then Some (of_nat (foldl (\<lambda>n c. n * 10 + digit_val c) n s)) else None)"
proof (induction s arbitrary: n)
  case (Cons c s)
  have "(of_nat n * 10 + of_nat (digit_val c) :: i64) = of_nat (n * 10 + digit_val c)" by simp
  then have "port_loop (of_nat n) (c # s) =
      (if is_digit c then port_loop (of_nat (n * 10 + digit_val c)) s else None)"
    by (simp only: port_loop.simps if_not_P if_False if_True) simp
  then show ?case unfolding Cons.IH by simp
qed simp

lemma port_loop_zero:
  "port_loop 0 s = (if \<forall>c \<in> set s. is_digit c then Some (of_nat (dec_val s)) else None)"
  using port_loop_eq [of 0 s] by (simp add: dec_val_def)

lemma sint_of_nat_small:
  assumes "n < 2 ^ 63"
  shows "sint (of_nat n :: i64) = int n"
proof -
  have "sint (of_nat n :: i64) = signed_take_bit 63 (int n)" by (simp add: signed_of_nat)
  also have "\<dots> = int n"
  proof (rule signed_take_bit_int_eq_self)
    show "- (2 ^ 63) \<le> int n" by simp
    show "int n < 2 ^ 63" using assms by (metis of_nat_less_iff of_nat_numeral of_nat_power)
  qed
  finally show ?thesis .
qed

lemma parsePort_small:
  assumes "dec_val s < 2 ^ 63"
  shows "parsePort s d =
    (if (\<forall>c \<in> set s. is_digit c) \<and> 0 < dec_val s \<and> dec_val s \<le> 65535 then int (dec_val s) else d)"
proof (cases "s = []")
  case True
  then show ?thesis by (simp add: parsePort_def dec_val_def)
next
  case False
  then show ?thesis
    using sint_of_nat_small [OF assms] by (simp add: parsePort_def port_loop_zero)
qed

text \<open>Whatever the text, the result is a port if the default is one.\<close>

lemma parsePort_range:
  "0 < d \<Longrightarrow> d \<le> 65535 \<Longrightarrow> 0 < parsePort s d \<and> parsePort s d \<le> 65535"
  by (simp add: parsePort_def split: option.split)

lemma parsePort_itoa:
  assumes "0 < n" and "n \<le> 65535"
  shows "parsePort (itoa n) d = int n"
proof -
  have "n < 2 ^ 63" using assms(2) by simp
  then show ?thesis
    using parsePort_small [of "itoa n" d] itoa_digits [of n] assms by simp
qed

text \<open>
  The hand-written conversion never leaves its five-byte buffer, prints every 16-bit
  number as its decimal text, and the package's own parser reads that text back as the same
  port, with 0, which is no port, giving the default.
\<close>

theorem uint16ToStr_correct:
  "uint16ToStr p = Inr (itoa (unat p)) \<and>
   parsePort (itoa (unat p)) d = (if p = 0 then d else int (unat p))"
proof (cases "p = 0")
  case True
  have "parsePort (itoa 0) d = d" using parsePort_small [of "itoa 0" d] by simp
  with True show ?thesis by (simp add: uint16ToStr_eq)
next
  case False
  have "unat p \<le> 65535" using unat_u16_less [of p] by linarith
  with False parsePort_itoa [of "unat p" d] show ?thesis
    by (simp add: uint16ToStr_eq unat_gt_0)
qed

text \<open>
  For text whose number fits in 63 bits, \<open>parsePort\<close> is the number if the text is all
  digits and the number is a port, and the default in every other case; so with a port as the
  default, the result is always a port.
\<close>

theorem parsePort_spec:
  assumes "dec_val s < 2 ^ 63"
  shows "parsePort s d =
    (if (\<forall>c \<in> set s. is_digit c) \<and> 0 < dec_val s \<and> dec_val s \<le> 65535 then int (dec_val s) else d)"
  using assms by (rule parsePort_small)

theorem parsePort_spec_witness:
  "parsePort ''8080'' 443 = 8080 \<and> parsePort ''80x'' 443 = 443"
proof -
  have "dec_val ''8080'' = 8080" "dec_val ''80x'' < 2 ^ 63"
    by (simp_all add: dec_val_def digit_val_def)
  then show ?thesis
    using parsePort_spec [of "''8080''" 443] parsePort_spec [of "''80x''" 443]
    by (simp add: is_digit_def)
qed

text \<open>
  Beyond 63 bits the accumulator wraps, so a twenty-digit number that is no port at all
  is taken for port 80.
\<close>

theorem parsePort_wraps:
  "dec_val ''18446744073709551696'' = 2 ^ 64 + 80 \<and> parsePort ''18446744073709551696'' 443 = 80"
proof -
  have v: "dec_val ''18446744073709551696'' = 2 ^ 64 + 80"
    by (simp add: dec_val_def digit_val_def)
  have d: "\<forall>c \<in> set ''18446744073709551696''. is_digit c" by (simp add: is_digit_def)
  have "port_loop 0 ''18446744073709551696'' = Some (of_nat (2 ^ 64 + 80))"
    using d unfolding port_loop_zero v by (rule if_P)
  then have "parsePort ''18446744073709551696'' 443 = 80" by (simp add: parsePort_def)
  with v show ?thesis by blast
qed

text \<open>\<open>copyDeadline\<close>, with \<open>None\<close> for the zero time.\<close>

definition copyDeadline :: "int \<Rightarrow> int \<Rightarrow> int option" where
  "copyDeadline now timeout = (if timeout \<le> 0 then None else Some (now + timeout))"

end
