(* ===== verification/Dialer.thy ===== *)
theory Dialer
  imports Pool NetConn NetIP ProxyUtil
begin

text \<open>
  Dialling out through an upstream (\<open>internal/proxy/dialer.go\<close>): the HTTP CONNECT client
  with Go's buffered reader, and the SOCKS5 client. A network is what each TCP dial will
  give, in order; it records the addresses dialled and the connections the dialer dropped.
\<close>

section \<open>Data\<close>

datatype dial_error =
    NilUpstream
  | UnsupportedType string
  | TcpDial string
  | ConnIO io_error
  | ReadResponse io_error
  | MalformedStatus string
  | ConnectFailed string
  | BadServerVersion byte
  | NeedsUserPass
  | NoAcceptableMethod
  | UnknownMethod byte
  | DomainTooLong
  | BadReplyVersion byte
  | ConnectRejected byte
  | UnknownAtyp byte
  | CredentialsTooLong
  | AuthFailed
  | DialPanic go_panic

record net =
  n_peer :: "nat \<Rightarrow> string \<Rightarrow> conn option"
  n_dialled :: "string list"
  n_dropped :: "conn list"

text \<open>\<open>net.Dialer.DialContext\<close>: the peer decides, by the number of the dial and the address.\<close>

definition tcpDial :: "string \<Rightarrow> net \<Rightarrow> (dial_error + conn) \<times> net" where
  "tcpDial addr w =
     (let w' = w\<lparr>n_dialled := n_dialled w @ [addr]\<rparr> in
      case n_peer w (length (n_dialled w)) addr of
        None \<Rightarrow> (Inl (TcpDial addr), w')
      | Some c \<Rightarrow> (Inr c, w'))"

definition drop_conn :: "conn \<Rightarrow> net \<Rightarrow> net" where
  "drop_conn c w = w\<lparr>n_dropped := n_dropped w @ [closeConn c]\<rparr>"

text \<open>\<open>NewDialer\<close>: the timeout it keeps, in nanoseconds.\<close>

definition NewDialer :: "int \<Rightarrow> int" where
  "NewDialer timeout = (if timeout \<le> 0 then 15 * 1000000000 else timeout)"

definition wr :: "byte list \<Rightarrow> (dial_error, unit) io" where
  "wr bs = liftIO ConnIO (writeConn bs)"

definition rd :: "nat \<Rightarrow> (dial_error, byte list) io" where
  "rd n = liftIO ConnIO (readFull n)"

section \<open>Fields of a line\<close>

text \<open>
  \<open>cur += string(c)\<close> on a byte converts it as a code point, so a byte above 127 comes out
  as the two bytes of its UTF-8 encoding.
\<close>

definition string_of_byte :: "char \<Rightarrow> string" where
  "string_of_byte c =
     (let n = (of_char c :: nat) in
      if n < 128 then [c] else [char_of (192 + n div 64), char_of (128 + n mod 64)])"

definition is_space :: "char \<Rightarrow> bool" where
  "is_space c \<longleftrightarrow> c = CHR '' '' \<or> c = CHR 0x09 \<or> c = CHR 0x0D \<or> c = CHR 0x0A"

fun split_loop :: "string \<Rightarrow> string list \<Rightarrow> string \<Rightarrow> string list" where
  "split_loop cur out [] = (if cur \<noteq> [] then out @ [cur] else out)"
| "split_loop cur out (c # cs) =
     (if is_space c then
        (if cur \<noteq> [] then split_loop [] (out @ [cur]) cs else split_loop cur out cs)
      else split_loop (cur @ string_of_byte c) out cs)"

definition splitFields :: "string \<Rightarrow> string list" where
  "splitFields s = split_loop [] [] s"

section \<open>HTTP CONNECT\<close>

text \<open>
  \<open>strconv.Atoi\<close> with its error dropped: \<open>0\<close> for text that is no number, the nearest
  64-bit value for a number that does not fit.
\<close>

definition Atoi :: "string \<Rightarrow> int" where
  "Atoi s =
     (let neg = has_prefix ''-'' s;
          ds = (if has_prefix ''-'' s \<or> has_prefix ''+'' s then drop 1 s else s);
          v = int (dec_val ds)
      in if ds = [] \<or> \<not> (\<forall>c \<in> set ds. is_digit c) then 0
         else if neg then max (- (2 ^ 63)) (- v) else min (2 ^ 63 - 1) v)"

definition crlf :: string where
  "crlf = [CHR 0x0D, CHR 0x0A]"

definition connect_request :: "string \<Rightarrow> string \<Rightarrow> string" where
  "connect_request host auth =
     ''CONNECT '' @ host @ '' HTTP/1.1'' @ crlf @ ''Host: '' @ host @ crlf @
     (if auth \<noteq> [] then ''Proxy-Authorization: '' @ auth @ crlf else []) @ crlf"

text \<open>\<open>url.UserPassword(user, pass)\<close> as text: percent-encoding of what userinfo may not hold.\<close>

definition hex_upper :: "nat \<Rightarrow> char" where
  "hex_upper d = (if d < 10 then char_of (48 + d) else char_of (55 + d))"

definition user_char_ok :: "char \<Rightarrow> bool" where
  "user_char_ok c \<longleftrightarrow>
     (let n = (of_char c :: nat) in
      (97 \<le> n \<and> n \<le> 122) \<or> (65 \<le> n \<and> n \<le> 90) \<or> (48 \<le> n \<and> n \<le> 57)) \<or>
     c \<in> set ''-_.~$&+,;=''"

definition escape_user :: "string \<Rightarrow> string" where
  "escape_user s =
     concat (map (\<lambda>c. if user_char_ok c then [c]
       else [CHR ''%'', hex_upper (of_char c div 16), hex_upper (of_char c mod 16)]) s)"

definition basicAuthHeader :: "string \<Rightarrow> string \<Rightarrow> string" where
  "basicAuthHeader user pass =
     (if user = [] \<and> pass = [] then []
      else ''Basic '' @ escape_user user @ '':'' @ escape_user pass @ ''@'')"

text \<open>
  \<open>bufio.Reader.ReadString('\n')\<close> on a fresh reader of 4096 bytes: the line so far, the
  buffer, the segments still in the connection. A fill takes what fits of one segment.
\<close>

definition bufsize :: nat where
  "bufsize = 4096"

fun cut_line :: "byte list \<Rightarrow> (byte list \<times> byte list) option" where
  "cut_line [] = None"
| "cut_line (b # bs) =
     (if b = 10 then Some ([b], bs)
      else case cut_line bs of None \<Rightarrow> None | Some (l, r) \<Rightarrow> Some (b # l, r))"

function readLine ::
  "byte list \<Rightarrow> byte list \<Rightarrow> byte list list \<Rightarrow> (io_error + byte list) \<times> byte list \<times> byte list list" where
  "readLine acc buf segs =
     (case cut_line buf of
        Some (l, r) \<Rightarrow> (Inr (acc @ l), r, segs)
      | None \<Rightarrow>
          if bufsize \<le> length buf then readLine (acc @ buf) [] segs
          else (case segs of
              [] \<Rightarrow> (Inl EOF, [], [])
            | s # ss \<Rightarrow>
                if length s \<le> bufsize - length buf then readLine acc (buf @ s) ss
                else readLine acc (buf @ take (bufsize - length buf) s)
                       (drop (bufsize - length buf) s # ss)))"
  by pat_completeness auto
termination
  by (relation "measures [\<lambda>(acc, buf, segs). sum_list (map (\<lambda>s. length s + 1) segs),
                          \<lambda>(acc, buf, segs). length buf]")
     (auto simp: bufsize_def)

declare readLine.simps [simp del]

lemma cut_line_Some: "cut_line bs = Some (l, r) \<Longrightarrow> bs = l @ r \<and> l \<noteq> []"
  by (induction bs arbitrary: l) (auto split: if_splits option.splits)

lemma cut_line_append: "cut_line bs = Some (l, r) \<Longrightarrow> cut_line (bs @ cs) = Some (l, r @ cs)"
  by (induction bs arbitrary: l) (auto split: if_splits option.splits)

lemma cut_line_append_None:
  "cut_line as = None \<Longrightarrow> cut_line (as @ bs) = map_option (\<lambda>(l, r). (as @ l, r)) (cut_line bs)"
proof (induction as)
  case Nil
  show ?case by (cases "cut_line bs") auto
next
  case (Cons a as)
  then show ?case by (cases "cut_line bs") (auto split: if_splits option.splits)
qed

text \<open>Nothing is lost or invented inside the reader.\<close>

lemma readLine_stream:
  "readLine acc buf segs = (Inr l, buf', segs') \<Longrightarrow>
   \<exists>l'. l = acc @ l' \<and> cut_line (buf @ concat segs) = Some (l', buf' @ concat segs')"
proof (induction acc buf segs arbitrary: l buf' segs' rule: readLine.induct)
  case (1 acc buf segs)
  show ?case
  proof (cases "cut_line buf")
    case (Some lr)
    with "1.prems" show ?thesis
      by (cases lr) (auto simp: readLine.simps [of acc] dest: cut_line_append)
  next
    case None
    note cut = cut_line_append_None [OF None]
    show ?thesis
    proof (cases "bufsize \<le> length buf")
      case True
      with "1.IH"(1) "1.prems" None show ?thesis
        by (fastforce simp: readLine.simps [of acc] cut)
    next
      case False
      then obtain s ss where segs: "segs = s # ss"
        using "1.prems" None by (cases segs) (auto simp: readLine.simps [of acc])
      show ?thesis
      proof (cases "length s \<le> bufsize - length buf")
        case True
        with "1.IH"(2) "1.prems" None False segs show ?thesis
          by (fastforce simp: readLine.simps [of acc])
      next
        case big: False
        let ?k = "bufsize - length buf"
        have "readLine acc (buf @ take ?k s) (drop ?k s # ss) = (Inr l, buf', segs')"
          using "1.prems" None False segs big by (simp add: readLine.simps [of acc])
        from "1.IH"(3) [OF None False segs big this] obtain l' where
          l: "l = acc @ l'"
          and c: "cut_line ((buf @ take ?k s) @ concat (drop ?k s # ss)) = Some (l', buf' @ concat segs')"
          by blast
        have "(buf @ take ?k s) @ concat (drop ?k s # ss) = buf @ concat segs"
          unfolding segs concat.simps append_assoc
          by (simp only: append_assoc [symmetric] append_take_drop_id) 
        with l c show ?thesis by simp
      qed
    qed
  qed
qed

lemma readLine_shorter:
  assumes "readLine [] buf segs = (Inr l, buf', segs')"
  shows "length buf' + length (concat segs') < length buf + length (concat segs)"
proof -
  from readLine_stream [OF assms] have "cut_line (buf @ concat segs) = Some (l, buf' @ concat segs')"
    by auto
  from cut_line_Some [OF this] have "length (buf @ concat segs) > length (buf' @ concat segs')" by simp
  then show ?thesis by simp
qed

definition blank_line :: "byte list \<Rightarrow> bool" where
  "blank_line l \<longleftrightarrow> l = [13, 10] \<or> l = [10]"

text \<open>The loop that drains the header lines, up to a blank one.\<close>

function drain_headers ::
  "byte list \<Rightarrow> byte list list \<Rightarrow> (io_error + unit) \<times> byte list \<times> byte list list" where
  "drain_headers buf segs =
     (case readLine [] buf segs of
        (Inl e, buf', segs') \<Rightarrow> (Inl e, buf', segs')
      | (Inr line, buf', segs') \<Rightarrow>
          if blank_line line then (Inr (), buf', segs') else drain_headers buf' segs')"
  by pat_completeness auto
termination
  by (relation "measure (\<lambda>(buf, segs). length buf + length (concat segs))")
     (auto dest: readLine_shorter [OF sym])

declare drain_headers.simps [simp del]

record http_response =
  Status :: string
  StatusCode :: int

text \<open>
  \<open>readHTTPResponse\<close>. The buffered reader goes out of scope at the end: what is left in its
  buffer is gone, the segments it has not asked for stay in the connection.
\<close>

definition readHTTPResponse :: "(dial_error, http_response) io" where
  "readHTTPResponse c =
     (if c_closed c then (Inl (ReadResponse UseOfClosed), c)
      else case readLine [] [] (c_in c) of
        (Inl e, _, segs) \<Rightarrow> (Inl (ReadResponse e), c\<lparr>c_in := segs\<rparr>)
      | (Inr line, buf, segs) \<Rightarrow>
          (let statusLine = string_of line; parts = splitFields statusLine in
           if length parts < 2 then (Inl (MalformedStatus statusLine), c\<lparr>c_in := segs\<rparr>)
           else
             (let code = Atoi (parts ! 1) in
              case drain_headers buf segs of
                (Inl e, _, segs') \<Rightarrow> (Inl (ReadResponse e), c\<lparr>c_in := segs'\<rparr>)
              | (Inr _, _, segs') \<Rightarrow>
                  (Inr \<lparr>Status = statusLine, StatusCode = code\<rparr>, c\<lparr>c_in := segs'\<rparr>))))"

text \<open>
  What \<open>dialHTTP\<close> does on the raw connection; every early return closes it.
\<close>

definition http_tunnel :: "string \<Rightarrow> string \<Rightarrow> (dial_error, unit) io" where
  "http_tunnel target auth =
     andThen (wr (bytes_of (connect_request target auth))) (\<lambda>_.
     andThen readHTTPResponse (\<lambda>resp.
     if StatusCode resp \<noteq> 200 then fail (ConnectFailed (Status resp)) else ret ()))"

definition finish :: "(dial_error, unit) io \<Rightarrow> conn \<Rightarrow> net \<Rightarrow> (dial_error + conn) \<times> net" where
  "finish m raw w =
     (case m raw of
        (Inl e, raw') \<Rightarrow> (Inl e, drop_conn raw' w)
      | (Inr _, raw') \<Rightarrow> (Inr raw', w))"

definition dialHTTP :: "upstream \<Rightarrow> string \<Rightarrow> u16 \<Rightarrow> net \<Rightarrow> (dial_error + conn) \<times> net" where
  "dialHTTP up host port w =
     (case tcpDial (up_Addr up) w of
        (Inl e, w') \<Rightarrow> (Inl e, w')
      | (Inr raw, w') \<Rightarrow>
          (case joinedHost host port of
             Inl p \<Rightarrow> (Inl (DialPanic p), w')
           | Inr target \<Rightarrow>
               finish (http_tunnel target (basicAuthHeader (up_Username up) (up_Password up))) raw w'))"

section \<open>SOCKS5 client\<close>

definition byte_of_len :: "string \<Rightarrow> byte" where
  "byte_of_len s = of_nat (length s)"

definition socks5UserPass :: "string \<Rightarrow> string \<Rightarrow> (dial_error, unit) io" where
  "socks5UserPass user pass =
     (if length user > 255 \<or> length pass > 255 then fail CredentialsTooLong
      else
        andThen (wr ([1, byte_of_len user] @ bytes_of user @ [byte_of_len pass] @ bytes_of pass)) (\<lambda>_.
        andThen (rd 2) (\<lambda>reply.
        if reply ! 1 \<noteq> 0 then fail AuthFailed else ret ())))"

definition port_bytes :: "u16 \<Rightarrow> byte list" where
  "port_bytes port = [ucast (drop_bit 8 port), ucast port]"

text \<open>The address type and the address of the request.\<close>

definition socks5_addr :: "string \<Rightarrow> dial_error + byte list" where
  "socks5_addr host =
     (case ParseIP host of
        None \<Rightarrow> if length host > 255 then Inl DomainTooLong
                else Inr ([3, byte_of_len host] @ bytes_of host)
      | Some ip \<Rightarrow>
          (case To4 ip of
             Some ip4 \<Rightarrow> Inr (1 # ip4)
           | None \<Rightarrow> Inr (4 # ip)))"

definition socks5_greeting :: "string \<Rightarrow> string \<Rightarrow> byte list" where
  "socks5_greeting user pass = (if user \<noteq> [] \<or> pass \<noteq> [] then [5, 1, 2] else [5, 1, 0])"

definition socks5_auth :: "byte \<Rightarrow> string \<Rightarrow> string \<Rightarrow> (dial_error, unit) io" where
  "socks5_auth m user pass =
     (if m = 0 then ret ()
      else if m = 2 then
        (if user = [] then fail NeedsUserPass else socks5UserPass user pass)
      else if m = 255 then fail NoAcceptableMethod
      else fail (UnknownMethod m))"

definition socks5_reply_len :: "byte \<Rightarrow> (dial_error, nat) io" where
  "socks5_reply_len atyp =
     (if atyp = 1 then ret 4
      else if atyp = 4 then ret 16
      else if atyp = 3 then andThen (rd 1) (\<lambda>l. ret (unat (l ! 0)))
      else fail (UnknownAtyp atyp))"

definition socks5_reply :: "(dial_error, unit) io" where
  "socks5_reply =
     andThen (rd 4) (\<lambda>head.
     if head ! 0 \<noteq> 5 then fail (BadReplyVersion (head ! 0))
     else if head ! 1 \<noteq> 0 then fail (ConnectRejected (head ! 1))
     else
       andThen (socks5_reply_len (head ! 3)) (\<lambda>addrLen.
       if addrLen > 0 then andThen (rd (addrLen + 2)) (\<lambda>_. ret ()) else ret ()))"

definition socks5Handshake :: "string \<Rightarrow> u16 \<Rightarrow> string \<Rightarrow> string \<Rightarrow> (dial_error, unit) io" where
  "socks5Handshake host port user pass =
     andThen (wr (socks5_greeting user pass)) (\<lambda>_.
     andThen (rd 2) (\<lambda>method.
     if method ! 0 \<noteq> 5 then fail (BadServerVersion (method ! 0))
     else
       andThen (socks5_auth (method ! 1) user pass) (\<lambda>_.
       case socks5_addr host of
         Inl e \<Rightarrow> fail e
       | Inr addr \<Rightarrow>
           andThen (wr ([5, 1, 0] @ addr @ port_bytes port)) (\<lambda>_. socks5_reply))))"

definition dialSOCKS5 :: "upstream \<Rightarrow> string \<Rightarrow> u16 \<Rightarrow> net \<Rightarrow> (dial_error + conn) \<times> net" where
  "dialSOCKS5 up host port w =
     (case tcpDial (up_Addr up) w of
        (Inl e, w') \<Rightarrow> (Inl e, w')
      | (Inr raw, w') \<Rightarrow>
          finish (socks5Handshake host port (up_Username up) (up_Password up)) raw w')"

section \<open>Dial\<close>

definition Dial :: "upstream option \<Rightarrow> string \<Rightarrow> u16 \<Rightarrow> net \<Rightarrow> (dial_error + conn) \<times> net" where
  "Dial upo host port w =
     (case upo of
        None \<Rightarrow> (Inl NilUpstream, w)
      | Some up \<Rightarrow>
          if up_Type up = ''direct'' then
            (case joinedHost host port of
               Inl p \<Rightarrow> (Inl (DialPanic p), w)
             | Inr addr \<Rightarrow> tcpDial addr w)
          else if up_Type up = ''http'' then dialHTTP up host port w
          else if up_Type up = ''socks5'' then dialSOCKS5 up host port w
          else (Inl (UnsupportedType (up_Type up)), w))"

section \<open>The response reader against the stream\<close>

text \<open>
  What the response reader should see depends on the stream only: \<open>ref_drain\<close> and
  \<open>ref_response\<close> know no segments and no buffer, and keep all that follows the headers.
\<close>

function ref_drain :: "byte list \<Rightarrow> byte list option" where
  "ref_drain bs =
     (case cut_line bs of
        None \<Rightarrow> None
      | Some (l, r) \<Rightarrow> if blank_line l then Some r else ref_drain r)"
  by pat_completeness auto
termination
  by (relation "measure length") (auto dest!: sym [of "Some _"] cut_line_Some)

declare ref_drain.simps [simp del]

definition ref_response :: "byte list \<Rightarrow> dial_error + (http_response \<times> byte list)" where
  "ref_response bs =
     (case cut_line bs of
        None \<Rightarrow> Inl (ReadResponse EOF)
      | Some (l, r) \<Rightarrow>
          if length (splitFields (string_of l)) < 2 then Inl (MalformedStatus (string_of l))
          else case ref_drain r of
            None \<Rightarrow> Inl (ReadResponse EOF)
          | Some body \<Rightarrow>
              Inr (\<lparr>Status = string_of l, StatusCode = Atoi (splitFields (string_of l) ! 1)\<rparr>, body))"

lemma readLine_Inl:
  "readLine acc buf segs = (Inl e, buf', segs') \<Longrightarrow>
   e = EOF \<and> buf' = [] \<and> segs' = [] \<and> cut_line (buf @ concat segs) = None"
proof (induction acc buf segs arbitrary: e buf' segs' rule: readLine.induct)
  case (1 acc buf segs)
  show ?case
  proof (cases "cut_line buf")
    case (Some lr)
    with "1.prems" show ?thesis by (cases lr) (simp add: readLine.simps [of acc])
  next
    case None
    note cut = cut_line_append_None [OF None]
    show ?thesis
    proof (cases "bufsize \<le> length buf")
      case True
      with "1.IH"(1) "1.prems" None show ?thesis by (simp add: readLine.simps [of acc] cut)
    next
      case False
      note big = this
      show ?thesis
      proof (cases segs)
        case Nil
        with big None "1.prems" show ?thesis by (simp add: readLine.simps [of acc])
      next
        case (Cons s ss)
        let ?k = "bufsize - length buf"
        show ?thesis
        proof (cases "length s \<le> ?k")
          case True
          with "1.IH"(2) "1.prems" None big Cons show ?thesis by (simp add: readLine.simps [of acc])
        next
          case False
          with "1.prems" None big Cons
          have "readLine acc (buf @ take ?k s) (drop ?k s # ss) = (Inl e, buf', segs')"
            by (simp add: readLine.simps [of acc])
          moreover have "(buf @ take ?k s) @ concat (drop ?k s # ss) = buf @ concat segs"
            unfolding Cons concat.simps append_assoc
            by (simp only: append_assoc [symmetric] append_take_drop_id)
          ultimately show ?thesis using "1.IH"(3) [OF None big Cons False] by metis
        qed
      qed
    qed
  qed
qed

lemma readLine_cut:
  assumes "readLine [] buf segs = (r, buf', segs')"
  shows "(case r of
      Inl e \<Rightarrow> e = EOF \<and> buf' @ concat segs' = [] \<and> cut_line (buf @ concat segs) = None
    | Inr l \<Rightarrow> cut_line (buf @ concat segs) = Some (l, buf' @ concat segs'))"
  using assms readLine_stream [of "[]" buf segs] readLine_Inl [of "[]" buf segs]
  by (cases r) auto

lemma drain_headers_ref:
  "drain_headers buf segs = (r, buf', segs') \<Longrightarrow>
   (case r of
      Inl e \<Rightarrow> e = EOF \<and> segs' = [] \<and> ref_drain (buf @ concat segs) = None
    | Inr u \<Rightarrow> ref_drain (buf @ concat segs) = Some (buf' @ concat segs'))"
proof (induction buf segs arbitrary: r buf' segs' rule: drain_headers.induct)
  case (1 buf segs)
  obtain q b1 s1 where q: "readLine [] buf segs = (q, b1, s1)" by (cases "readLine [] buf segs")
  show ?case
  proof (cases q)
    case (Inl e)
    with q have "cut_line (buf @ concat segs) = None" "e = EOF" "s1 = []" using readLine_Inl by blast+
    with "1.prems" q Inl show ?thesis
      by (auto simp: drain_headers.simps [of buf] ref_drain.simps [of "buf @ concat segs"])
  next
    case (Inr l)
    with readLine_cut [OF q] have c: "cut_line (buf @ concat segs) = Some (l, b1 @ concat s1)"
      by simp
    show ?thesis
    proof (cases "blank_line l")
      case True
      with "1.prems" q Inr c show ?thesis
        by (auto simp: drain_headers.simps [of buf] ref_drain.simps [of "buf @ concat segs"])
    next
      case False
      with "1.prems" q Inr have d: "drain_headers b1 s1 = (r, buf', segs')"
        by (simp add: drain_headers.simps [of buf])
      have eq: "ref_drain (buf @ concat segs) = ref_drain (b1 @ concat s1)"
        using c False by (simp add: ref_drain.simps [of "buf @ concat segs"])
      from "1.IH" [OF q [symmetric] Inr refl False d] show ?thesis unfolding eq by (cases r) simp_all
    qed
  qed
qed

lemma ref_drain_suffix: "ref_drain bs = Some r \<Longrightarrow> \<exists>hd. bs = hd @ r"
proof (induction bs arbitrary: r rule: ref_drain.induct)
  case (1 bs)
  from "1.prems" obtain l t where c: "cut_line bs = Some (l, t)"
    by (auto simp: ref_drain.simps [of bs] split: option.splits)
  with "1.prems" "1.IH" [OF c refl] have "\<exists>hd. t = hd @ r"
    by (auto simp: ref_drain.simps [of bs] split: if_splits)
  with cut_line_Some [OF c] show ?case by (metis append_assoc)
qed

text \<open>The reader decides by the stream alone, and may lose the front of what follows.\<close>

lemma readHTTPResponse_ref:
  assumes "\<not> c_closed c" and r: "readHTTPResponse c = (r, c')"
  shows "(case ref_response (pending c) of
      Inl e \<Rightarrow> r = Inl e
    | Inr (resp, body) \<Rightarrow> r = Inr resp \<and> (\<exists>lost. body = lost @ pending c'))"
proof -
  obtain q b1 s1 where q: "readLine [] [] (c_in c) = (q, b1, s1)"
    by (cases "readLine [] [] (c_in c)")
  note cut = readLine_cut [OF q, simplified, folded pending_def]
  show ?thesis
  proof (cases q)
    case (Inl e)
    with cut q r assms(1) show ?thesis
      by (auto simp: readHTTPResponse_def ref_response_def)
  next
    case (Inr l)
    show ?thesis
    proof (cases "length (splitFields (string_of l)) < 2")
      case True
      with cut q r assms(1) Inr show ?thesis
        by (auto simp: readHTTPResponse_def ref_response_def Let_def)
    next
      case False
      obtain d b2 s2 where d: "drain_headers b1 s1 = (d, b2, s2)" by (cases "drain_headers b1 s1")
      from drain_headers_ref [OF d] cut q r assms(1) Inr False d show ?thesis
        by (cases d) (auto simp: readHTTPResponse_def ref_response_def Let_def pending_def)
    qed
  qed
qed

lemma io_tame_readHTTPResponse [io_rules]: "io_tame readHTTPResponse"
  unfolding io_tame_def
proof
  fix c
  obtain r c' where r: "readHTTPResponse c = (r, c')" by (cases "readHTTPResponse c")
  obtain q b1 s1 where q: "readLine [] [] (c_in c) = (q, b1, s1)"
    by (cases "readLine [] [] (c_in c)")
  obtain d b2 s2 where d: "drain_headers b1 s1 = (d, b2, s2)" by (cases "drain_headers b1 s1")
  have line: "concat (c_in c) = l @ b1 @ concat s1" if "q = Inr l" for l
    using readLine_cut [OF q] that cut_line_Some [of "concat (c_in c)"] by simp
  have s1: "\<exists>got. concat (c_in c) = got @ concat s1"
  proof (cases q)
    case (Inl e)
    with readLine_cut [OF q] have "concat s1 = []" by (simp del: concat_eq_Nil_conv)
    show ?thesis unfolding \<open>concat s1 = []\<close> by (rule exI) (rule append_Nil2 [symmetric])
  next
    case (Inr l)
    from line [OF this] show ?thesis by (intro exI [of _ "l @ b1"]) simp
  qed
  have s2: "\<exists>got. b1 @ concat s1 = got @ concat s2"
  proof (cases d)
    case (Inl e)
    with drain_headers_ref [OF d] show ?thesis by simp
  next
    case (Inr u)
    with drain_headers_ref [OF d] have "ref_drain (b1 @ concat s1) = Some (b2 @ concat s2)" by simp
    from ref_drain_suffix [OF this] show ?thesis by (metis append_assoc)
  qed
  have s12: "\<exists>got. concat (c_in c) = got @ concat s2" if "q = Inr l" for l
    using line [OF that] s2 append_assoc by metis
  from r q d have "c' = c \<or> c' = c\<lparr>c_in := s1\<rparr> \<or> (\<exists>l. q = Inr l) \<and> c' = c\<lparr>c_in := s2\<rparr>"
    by (auto simp: readHTTPResponse_def Let_def split: if_splits sum.splits)
  with s1 s12 r show "c_closed (snd (readHTTPResponse c)) = c_closed c \<and>
    c_deadline (snd (readHTTPResponse c)) = c_deadline c \<and>
    (\<exists>out. c_out (snd (readHTTPResponse c)) = c_out c @ out) \<and>
    (\<exists>got. pending c = got @ pending (snd (readHTTPResponse c)))"
    by (auto simp: pending_def)
qed

end
