(* ===== verification/DialerSpec.thy ===== *)
theory DialerSpec
  imports Dialer
begin

text \<open>
  What the dialer promises: every connection it opens is either handed over open or closed;
  a SOCKS5 handshake is exactly the RFC 1928 conversation, in both directions; an HTTP CONNECT
  is decided by the response header alone. Three theorems show where the code falls short of
  the protocols: the Basic credentials, the early tunnel bytes, the empty bound domain.
\<close>

section \<open>Every connection is accounted for\<close>

definition dial_address :: "upstream \<Rightarrow> string \<Rightarrow> u16 \<Rightarrow> string option" where
  "dial_address up host port =
     (if up_Type up = ''direct'' then Some (dial_target host port)
      else if up_Type up = ''http'' \<or> up_Type up = ''socks5'' then Some (up_Addr up)
      else None)"

lemma io_tame_wr_rd [io_rules]: "io_tame (wr bs)" "io_tame (rd n)"
  by (simp_all add: wr_def rd_def io_rules)

lemma io_tame_http_tunnel [io_rules]: "io_tame (http_tunnel target auth)"
  unfolding http_tunnel_def by (intro io_rules) (simp add: io_rules)

lemma io_tame_socks5_reply [io_rules]: "io_tame socks5_reply"
  unfolding socks5_reply_def socks5_reply_len_def by (simp add: io_rules)

lemma io_tame_socks5_auth [io_rules]: "io_tame (socks5_auth m user pass)"
  unfolding socks5_auth_def socks5UserPass_def by (simp add: io_rules)

lemma io_tame_socks5Handshake [io_rules]: "io_tame (socks5Handshake host port user pass)"
  unfolding socks5Handshake_def by (simp add: io_rules split: sum.split)

lemma finish_accounts:
  assumes m: "io_tame m" and f: "finish m raw w = (r, w')"
  shows "n_dialled w' = n_dialled w \<and> n_peer w' = n_peer w \<and>
    (case r of
       Inr c \<Rightarrow> n_dropped w' = n_dropped w \<and> c_closed c = c_closed raw \<and>
         (\<exists>got. pending raw = got @ pending c)
     | Inl e \<Rightarrow> \<exists>c. n_dropped w' = n_dropped w @ [c] \<and> c_closed c)"
proof -
  obtain x raw' where x: "m raw = (x, raw')" by (cases "m raw")
  from f x io_tameD [OF m x] show ?thesis
    by (cases x) (auto simp: finish_def drop_conn_def)
qed

lemma Dial_cases:
  assumes "Dial (Some up) host port w = (r, w')"
  shows "case dial_address up host port of
      None \<Rightarrow> r = Inl (UnsupportedType (up_Type up)) \<and> w' = w
    | Some a \<Rightarrow> n_dialled w' = n_dialled w @ [a] \<and> n_peer w' = n_peer w \<and>
        (case n_peer w (length (n_dialled w)) a of
           None \<Rightarrow> r = Inl (TcpDial a) \<and> n_dropped w' = n_dropped w
         | Some raw \<Rightarrow>
             (case r of
                Inr c \<Rightarrow> n_dropped w' = n_dropped w \<and> c_closed c = c_closed raw \<and>
                  (\<exists>got. pending raw = got @ pending c)
              | Inl e \<Rightarrow> \<exists>c. n_dropped w' = n_dropped w @ [c] \<and> c_closed c))"
proof -
  note fin = finish_accounts [OF io_tame_http_tunnel] finish_accounts [OF io_tame_socks5Handshake]
  consider "up_Type up = ''direct''" | "up_Type up = ''http''" | "up_Type up = ''socks5''"
    | "dial_address up host port = None" unfolding dial_address_def by metis
  then show ?thesis
  proof cases
    case 1
    with assms show ?thesis
      by (auto simp: Dial_def dial_address_def joinedHost_eq tcpDial_def Let_def split: option.splits)
  next
    case 2
    show ?thesis
    proof (cases "n_peer w (length (n_dialled w)) (up_Addr up)")
      case None
      with 2 assms show ?thesis
        by (auto simp: Dial_def dial_address_def dialHTTP_def tcpDial_def Let_def)
    next
      case (Some raw)
      with 2 assms have "finish (http_tunnel (dial_target host port) (basicAuthHeader (up_Username up) (up_Password up))) raw
          (w\<lparr>n_dialled := n_dialled w @ [up_Addr up]\<rparr>) = (r, w')"
        by (simp add: Dial_def dialHTTP_def joinedHost_eq tcpDial_def Let_def)
      from fin(1) [OF this] 2 Some show ?thesis
        by (simp add: dial_address_def split: sum.splits)
    qed
  next
    case 3
    show ?thesis
    proof (cases "n_peer w (length (n_dialled w)) (up_Addr up)")
      case None
      with 3 assms show ?thesis
        by (auto simp: Dial_def dial_address_def dialSOCKS5_def tcpDial_def Let_def)
    next
      case (Some raw)
      with 3 assms have "finish (socks5Handshake host port (up_Username up) (up_Password up)) raw
          (w\<lparr>n_dialled := n_dialled w @ [up_Addr up]\<rparr>) = (r, w')"
        by (simp add: Dial_def dialSOCKS5_def joinedHost_eq tcpDial_def Let_def)
      from fin(2) [OF this] 3 Some show ?thesis
        by (simp add: dial_address_def split: sum.splits)
    qed
  next
    case 4
    with assms show ?thesis by (auto simp: Dial_def dial_address_def split: if_splits)
  qed
qed

lemma Dial_accounting:
  "case dial_address up host port of
      None \<Rightarrow> snd (Dial (Some up) host port w) = w
    | Some a \<Rightarrow> n_dialled (snd (Dial (Some up) host port w)) = n_dialled w @ [a] \<and>
        n_peer (snd (Dial (Some up) host port w)) = n_peer w"
  using Dial_cases [of up host port w] by (cases "Dial (Some up) host port w") (auto split: option.splits)

text \<open>
  C17. A dial contacts exactly one address, once. If no connection comes of it, that is the
  error; if one does, it is either returned, as open as the peer made it and with nothing
  invented in its input, or closed and an error returned. No connection leaks.
\<close>

theorem Dial_accounts:
  assumes "Dial (Some up) host port w = (r, w')"
  shows "case dial_address up host port of
      None \<Rightarrow> r = Inl (UnsupportedType (up_Type up)) \<and> w' = w
    | Some a \<Rightarrow> n_dialled w' = n_dialled w @ [a] \<and> n_peer w' = n_peer w \<and>
        (case n_peer w (length (n_dialled w)) a of
           None \<Rightarrow> r = Inl (TcpDial a) \<and> n_dropped w' = n_dropped w
         | Some raw \<Rightarrow>
             (case r of
                Inr c \<Rightarrow> n_dropped w' = n_dropped w \<and> c_closed c = c_closed raw \<and>
                  (\<exists>got. pending raw = got @ pending c)
              | Inl e \<Rightarrow> \<exists>c. n_dropped w' = n_dropped w @ [c] \<and> c_closed c))"
  using assms by (rule Dial_cases)

definition one_peer :: "conn \<Rightarrow> net" where
  "one_peer c = \<lparr>n_peer = \<lambda>n a. if n = 0 then Some c else None, n_dialled = [], n_dropped = []\<rparr>"

definition http_up :: upstream where
  "http_up = \<lparr>up_Name = ''h'', up_Type = ''http'', up_Addr = ''10.0.0.1:3128'',
     up_Username = ''user'', up_Password = ''pass'', up_healthy = True\<rparr>"

theorem Dial_accounts_witness:
  "\<exists>c. n_dropped (snd (Dial (Some http_up) ''example.com'' 443 (one_peer (fresh_conn [])))) = [c] \<and>
     c_closed c"
proof -
  let ?d = "Dial (Some http_up) ''example.com'' 443 (one_peer (fresh_conn []))"
  have r: "fst ?d = Inl (ReadResponse EOF)"
    by (simp add: Dial_def http_up_def dialHTTP_def tcpDial_def one_peer_def
        joinedHost_eq finish_def http_tunnel_def andThen_def wr_def liftIO_def writeConn_def
        fresh_conn_def readHTTPResponse_def readLine.simps bufsize_def)
  have d: "Dial (Some http_up) ''example.com'' 443 (one_peer (fresh_conn [])) = (fst ?d, snd ?d)"
    by simp
  from Dial_accounts [OF d] r show ?thesis
    by (simp add: dial_address_def http_up_def one_peer_def)
qed

section \<open>The SOCKS5 conversation\<close>

text \<open>What the server says after the four bytes \<open>5, 0, rsv, atyp\<close>, as the client takes it.\<close>

definition addr_len :: "byte \<Rightarrow> byte list \<Rightarrow> nat \<Rightarrow> bool" where
  "addr_len atyp pre n \<longleftrightarrow>
     atyp = 1 \<and> pre = [] \<and> n = 4 \<or> atyp = 4 \<and> pre = [] \<and> n = 16 \<or>
     atyp = 3 \<and> (\<exists>l. pre = [l] \<and> n = unat l)"

definition bound_addr :: "byte \<Rightarrow> byte list \<Rightarrow> bool" where
  "bound_addr atyp bnd \<longleftrightarrow>
     (\<exists>pre n rest. bnd = pre @ rest \<and> addr_len atyp pre n \<and>
        length rest = (if n = 0 then 0 else n + 2))"

definition auth_packet :: "byte \<Rightarrow> string \<Rightarrow> string \<Rightarrow> byte list" where
  "auth_packet m user pass =
     (if m = 2 then [1, byte_of_len user] @ bytes_of user @ [byte_of_len pass] @ bytes_of pass else [])"

definition auth_reply :: "byte \<Rightarrow> byte \<Rightarrow> byte list" where
  "auth_reply m v = (if m = 2 then [v, 0] else [])"

definition can_auth :: "byte \<Rightarrow> string \<Rightarrow> string \<Rightarrow> bool" where
  "can_auth m user pass \<longleftrightarrow>
     m = 0 \<or> m = 2 \<and> user \<noteq> [] \<and> length user \<le> 255 \<and> length pass \<le> 255"

definition client_script :: "byte \<Rightarrow> string \<Rightarrow> string \<Rightarrow> byte list \<Rightarrow> u16 \<Rightarrow> byte list" where
  "client_script m user pass addr port =
     socks5_greeting user pass @ auth_packet m user pass @ [5, 1, 0] @ addr @ port_bytes port"

definition server_script :: "byte \<Rightarrow> byte \<Rightarrow> byte \<Rightarrow> byte \<Rightarrow> byte list \<Rightarrow> byte list" where
  "server_script m v rsv atyp bnd = [5, m] @ auth_reply m v @ [5, 0, rsv, atyp] @ bnd"

lemma wr_Inr: "wr bs c = (Inr u, c') \<Longrightarrow> c_out c' = c_out c @ bs \<and> pending c' = pending c"
  by (auto simp: wr_def liftIO_def split: prod.splits sum.splits dest: writeConn_Inr)

lemma rd_Inr:
  "rd n c = (Inr bs, c') \<Longrightarrow> length bs = n \<and> pending c = bs @ pending c' \<and> c_out c' = c_out c"
  by (auto simp: rd_def liftIO_def split: prod.splits sum.splits dest: readFull_Inr)

lemma exchange_wr: "exchange (wr bs) [] bs ()"
  unfolding wr_def by (intro exchange_liftIO exchange_writeConn)

lemma exchange_rd: "length bs = n \<Longrightarrow> exchange (rd n) bs [] bs"
  unfolding rd_def by (intro exchange_liftIO exchange_readFull)

lemma two_bytes: "length bs = 2 \<longleftrightarrow> (\<exists>a b. bs = [a, b])"
  by (auto simp: length_Suc_conv numeral_2_eq_2)

lemma four_bytes: "length bs = 4 \<longleftrightarrow> (\<exists>a b c d. bs = [a, b, c, d])"
  by (auto simp: length_Suc_conv eval_nat_numeral)

lemma one_byte: "length bs = Suc 0 \<longleftrightarrow> (\<exists>a. bs = [a])"
  by (auto simp: length_Suc_conv)

lemma socks5_auth_Inr:
  assumes "socks5_auth m user pass c = (Inr u, c')"
  shows "can_auth m user pass \<and> c_out c' = c_out c @ auth_packet m user pass \<and>
    (\<exists>v. pending c = auth_reply m v @ pending c')"
proof (cases "m = 2")
  case True
  with assms show ?thesis
    by (auto simp: socks5_auth_def socks5UserPass_def can_auth_def auth_packet_def auth_reply_def
        andThen_Inr_iff two_bytes split: if_splits dest!: wr_Inr rd_Inr) metis
next
  case False
  with assms show ?thesis
    by (auto simp: socks5_auth_def can_auth_def auth_packet_def auth_reply_def split: if_splits)
qed

lemma socks5_reply_Inr:
  assumes "socks5_reply c = (Inr u, c')"
  shows "c_out c' = c_out c \<and>
    (\<exists>rsv atyp bnd. pending c = [5, 0, rsv, atyp] @ bnd @ pending c' \<and> bound_addr atyp bnd)"
proof -
  from assms obtain head c1 n c2 where h: "rd 4 c = (Inr head, c1)"
    and five: "head ! 0 = 5" "head ! 1 = 0"
    and n: "socks5_reply_len (head ! 3) c1 = (Inr n, c2)"
    and r: "(if 0 < n then andThen (rd (n + 2)) (\<lambda>_. ret ()) else ret ()) c2 = (Inr u, c')"
    by (auto simp: socks5_reply_def andThen_Inr_iff split: if_splits)
  from rd_Inr [OF h] five obtain rsv atyp where head: "head = [5, 0, rsv, atyp]"
    "pending c = [5, 0, rsv, atyp] @ pending c1" "c_out c1 = c_out c"
    by (auto simp: four_bytes)
  from n head(1) have "c_out c2 = c_out c1 \<and>
      (\<exists>pre. pending c1 = pre @ pending c2 \<and> addr_len atyp pre n)"
    by (auto simp: socks5_reply_len_def addr_len_def andThen_Inr_iff one_byte split: if_splits
        dest!: rd_Inr)
  then obtain pre where pre: "c_out c2 = c_out c1" "pending c1 = pre @ pending c2"
    "addr_len atyp pre n" by blast
  from r have "c_out c' = c_out c2 \<and> (\<exists>rest. pending c2 = rest @ pending c' \<and>
      length rest = (if n = 0 then 0 else n + 2))"
    by (cases "n = 0") (auto simp: andThen_Inr_iff dest!: rd_Inr)
  then obtain rest where rest: "c_out c' = c_out c2" "pending c2 = rest @ pending c'"
    "length rest = (if n = 0 then 0 else n + 2)" by blast
  have "bound_addr atyp (pre @ rest)"
    using pre(3) rest(3) unfolding bound_addr_def by blast
  moreover have "pending c = [5, 0, rsv, atyp] @ (pre @ rest) @ pending c'"
    using head(2) pre(2) rest(2) by simp
  ultimately show ?thesis using head(3) pre(1) rest(1) by metis
qed


lemma exchange_socks5_auth:
  assumes "can_auth m user pass"
  shows "exchange (socks5_auth m user pass) (auth_reply m v) (auth_packet m user pass) ()"
proof (cases "m = 2")
  case True
  with assms have "user \<noteq> []" "\<not> (255 < length user \<or> 255 < length pass)"
    by (auto simp: can_auth_def)
  moreover have "exchange (andThen (wr (auth_packet 2 user pass)) (\<lambda>_. andThen (rd 2) (\<lambda>reply.
      if reply ! 1 \<noteq> 0 then fail AuthFailed else ret ()))) ([] @ [v, 0] @ []) (auth_packet 2 user pass @ [] @ []) ()"
    by (intro exchange_andThen [OF exchange_wr _ refl refl] exchange_andThen [OF exchange_rd _ refl refl])
      (simp_all add: exchange_ret)
  ultimately show ?thesis
    using True by (simp add: socks5_auth_def socks5UserPass_def auth_reply_def auth_packet_def)
next
  case False
  with assms show ?thesis
    by (simp add: can_auth_def socks5_auth_def auth_reply_def auth_packet_def exchange_ret)
qed

lemma exchange_socks5_reply:
  assumes "bound_addr atyp bnd"
  shows "exchange socks5_reply ([5, 0, rsv, atyp] @ bnd) [] ()"
proof -
  from assms obtain pre n rest where b: "bnd = pre @ rest"
    "length rest = (if n = 0 then 0 else n + 2)" and p: "addr_len atyp pre n"
    unfolding bound_addr_def by blast
  have len: "exchange (socks5_reply_len atyp) pre [] n"
  proof (cases "atyp = 3")
    case True
    with p obtain l where l: "pre = [l] @ []" "n = unat l" by (auto simp: addr_len_def)
    have "exchange (andThen (rd 1) (\<lambda>l. ret (unat (l ! 0)) :: (dial_error, nat) io)) ([l] @ []) ([] @ []) (unat l)"
      by (rule exchange_andThen [OF exchange_rd [of "[l]"] _ refl refl]) (use exchange_ret in force)+
    with True l show ?thesis by (simp add: socks5_reply_len_def)
  next
    case False
    with p show ?thesis by (auto simp: socks5_reply_len_def addr_len_def exchange_ret)
  qed
  have tail: "exchange (if 0 < n then andThen (rd (n + 2)) (\<lambda>_. ret ()) else ret () :: (dial_error, unit) io)
      rest [] ()"
  proof (cases "n = 0")
    case True
    with b(2) show ?thesis by (simp add: exchange_ret)
  next
    case False
    with b(2) have "exchange (andThen (rd (n + 2)) (\<lambda>_. ret () :: (dial_error, unit) io))
        (rest @ []) ([] @ []) ()"
      by (intro exchange_andThen [OF exchange_rd exchange_ret refl refl]) simp
    with False show ?thesis by (simp del: ret_simp)
  qed
  have both: "exchange (andThen (socks5_reply_len atyp)
      (\<lambda>n. if 0 < n then andThen (rd (n + 2)) (\<lambda>_. ret ()) else ret () :: (dial_error, unit) io))
      (pre @ rest) ([] @ []) ()"
    by (rule exchange_andThen [OF len _ refl refl]) (rule tail)
  show ?thesis
    unfolding socks5_reply_def b(1)
    by (rule exchange_andThen [OF exchange_rd [of "[5, 0, rsv, atyp]"], where ib = "pre @ rest" and ob = "[]"])
      (use both in simp_all)
qed

lemma exchange_socks5Handshake:
  assumes "can_auth m user pass" and "socks5_addr host = Inr addr" and "bound_addr atyp bnd"
  shows "exchange (socks5Handshake host port user pass) (server_script m v rsv atyp bnd)
    (client_script m user pass addr port) ()"
proof -
  have w: "exchange (andThen (wr ([5, 1, 0] @ addr @ port_bytes port)) (\<lambda>_. socks5_reply))
      ([5, 0, rsv, atyp] @ bnd) ([5, 1, 0] @ addr @ port_bytes port) ()"
    by (rule exchange_andThen [OF exchange_wr exchange_socks5_reply [OF assms(3)]]) simp_all
  have a: "exchange (andThen (socks5_auth m user pass)
        (\<lambda>_. andThen (wr ([5, 1, 0] @ addr @ port_bytes port)) (\<lambda>_. socks5_reply)))
      (auth_reply m v @ [5, 0, rsv, atyp] @ bnd)
      (auth_packet m user pass @ [5, 1, 0] @ addr @ port_bytes port) ()"
    by (rule exchange_andThen [OF exchange_socks5_auth [OF assms(1)] w]) simp_all
  show ?thesis
    unfolding socks5Handshake_def client_script_def server_script_def assms(2) sum.case
    by (rule exchange_andThen [OF exchange_wr exchange_andThen [OF exchange_rd [of "[5, m]"],
            where ib = "auth_reply m v @ [5, 0, rsv, atyp] @ bnd" and
              ob = "auth_packet m user pass @ [5, 1, 0] @ addr @ port_bytes port"]])
      (use a in simp_all)
qed

text \<open>
  C19. The converse, and the liveness of the client: against any server that follows the
  script, however the bytes are cut into segments, the handshake succeeds, having said exactly
  its part of the conversation and taken exactly the server's.
\<close>

theorem socks5_completes:
  assumes "usable c" and "pending c = server_script m v rsv atyp bnd @ post"
    and "can_auth m user pass" and "socks5_addr host = Inr addr" and "bound_addr atyp bnd"
  shows "\<exists>c'. socks5Handshake host port user pass c = (Inr (), c') \<and> usable c' \<and>
    pending c' = post \<and> c_out c' = c_out c @ client_script m user pass addr port"
  using exchangeE [OF exchange_socks5Handshake [OF assms(3-5)] assms(1,2)] by metis

definition example_addr :: "byte list" where
  "example_addr = [3, 11] @ bytes_of ''example.com''"

lemma example_addr: "socks5_addr ''example.com'' = Inr example_addr"
  by code_simp

definition example_server :: conn where
  "example_server = fresh_conn [[5], [2, 1, 0, 5, 0, 0], [1, 0, 0, 0, 0, 0, 0, 83, 83, 72]]"

lemma example_server: "usable example_server"
  "pending example_server = server_script 2 1 0 1 [0, 0, 0, 0, 0, 0] @ [83, 83, 72]"
  by (simp_all add: example_server_def usable_def fresh_conn_def pending_def server_script_def
      auth_reply_def)

lemma example_bound: "bound_addr 1 [0, 0, 0, 0, 0, 0]"
  by (simp add: bound_addr_def addr_len_def)


theorem socks5_completes_witness:
  "\<exists>c'. socks5Handshake ''example.com'' 443 ''u'' ''p'' example_server = (Inr (), c') \<and>
     pending c' = [83, 83, 72]"
  using socks5_completes [OF example_server, of "''u''" "''p''" "''example.com''" example_addr 443]
    example_addr example_bound by (auto simp: can_auth_def)

lemma socks5_reply_out: "socks5_reply c = (r, c') \<Longrightarrow> c_out c' = c_out c"
proof -
  have rd_out: "rd n c = (x, c1) \<Longrightarrow> c_out c1 = c_out c" for n c x c1
    by (auto simp: rd_def liftIO_def split: prod.splits sum.splits dest: readFull_cases)
  assume "socks5_reply c = (r, c')"
  then show ?thesis
    by (auto simp: socks5_reply_def socks5_reply_len_def andThen_def dest!: rd_out
        split: prod.splits sum.splits if_splits)
qed

lemma socks5_request_out:
  assumes "andThen (wr bs) (\<lambda>_. socks5_reply) c = (r, c')"
  shows "c_out c' = c_out c \<or> c_out c' = c_out c @ bs"
proof -
  obtain x c1 where w: "wr bs c = (x, c1)" by (cases "wr bs c")
  show ?thesis
  proof (cases x)
    case (Inl e)
    with w assms show ?thesis
      by (auto simp: wr_def liftIO_def split: prod.splits sum.splits dest: writeConn_Inl)
  next
    case (Inr u)
    with w assms socks5_reply_out wr_Inr show ?thesis by auto
  qed
qed

text \<open>
  Credentials leave the program only on request: as long as the server's second byte is
  not 2, whatever else it sends and however the handshake ends, nothing but the greeting and
  the request was written.
\<close>

theorem socks5_credentials_on_request:
  assumes h: "socks5Handshake host port user pass c = (r, c')"
    and no: "\<And>v rest. pending c \<noteq> v # 2 # rest"
  shows "c_out c' = c_out c \<or> c_out c' = c_out c @ socks5_greeting user pass \<or>
    (\<exists>addr. socks5_addr host = Inr addr \<and>
       c_out c' = c_out c @ socks5_greeting user pass @ [5, 1, 0] @ addr @ port_bytes port)"
proof -
  obtain x1 c1 where g: "wr (socks5_greeting user pass) c = (x1, c1)"
    by (cases "wr (socks5_greeting user pass) c")
  show ?thesis
  proof (cases x1)
    case (Inl e)
    with g have "c1 = c" by (auto simp: wr_def liftIO_def split: prod.splits sum.splits dest: writeConn_Inl)
    with Inl g h show ?thesis by (simp add: socks5Handshake_def)
  next
    case (Inr u)
    note wrote = wr_Inr [OF g [unfolded Inr]]
    obtain x2 c2 where m: "rd 2 c1 = (x2, c2)" by (cases "rd 2 c1")
    have o2: "c_out c2 = c_out c1"
      using m by (auto simp: rd_def liftIO_def split: prod.splits sum.splits dest: readFull_cases)
    show ?thesis
    proof (cases "\<exists>k. x2 = Inr [5, k]")
      case False
      have "c_out c' = c_out c2"
      proof (cases x2)
        case (Inl e)
        with g m h \<open>x1 = Inr u\<close> show ?thesis by (simp add: socks5Handshake_def)
      next
        case (Inr bs)
        with rd_Inr m obtain a b where "bs = [a, b]" using two_bytes by metis
        with False Inr g m h \<open>x1 = Inr u\<close> show ?thesis by (auto simp: socks5Handshake_def)
      qed
      with wrote o2 show ?thesis by simp
    next
      case True
      then obtain k where k: "x2 = Inr [5, k]" by blast
      with m rd_Inr have "pending c = 5 # k # pending c2" using wrote by fastforce
      with no have k2: "k \<noteq> 2" by blast
      obtain x3 c3 where a: "socks5_auth k user pass c2 = (x3, c3)"
        by (cases "socks5_auth k user pass c2")
      with k2 have c3: "c3 = c2" by (auto simp: socks5_auth_def split: if_splits)
      let ?k = "case socks5_addr host of Inl e \<Rightarrow> fail e
        | Inr addr \<Rightarrow> andThen (wr ([5, 1, 0] @ addr @ port_bytes port)) (\<lambda>_. socks5_reply)"
      have rest: "(case x3 of Inl e \<Rightarrow> (Inl e, c2) | Inr _ \<Rightarrow> ?k c2) = (r, c')"
        using g m a h k \<open>x1 = Inr u\<close> c3
        by (auto simp: socks5Handshake_def split: sum.splits)
      have "c_out c' = c_out c2 \<or> (\<exists>addr. socks5_addr host = Inr addr \<and>
          c_out c' = c_out c2 @ [5, 1, 0] @ addr @ port_bytes port)"
        using rest socks5_request_out by (auto split: sum.splits)
      with wrote o2 show ?thesis by auto
    qed
  qed
qed

theorem socks5_credentials_on_request_witness:
  "\<exists>c'. socks5Handshake ''example.com'' 443 ''user'' ''secret'' (fresh_conn [[5, 255]]) =
       (Inl NoAcceptableMethod, c') \<and> (c_out c' = [] \<or> c_out c' = [5, 1, 2] \<or>
     (\<exists>addr. c_out c' = [5, 1, 2] @ [5, 1, 0] @ addr @ port_bytes 443))"
proof -
  let ?h = "socks5Handshake ''example.com'' 443 ''user'' ''secret'' (fresh_conn [[5, 255]])"
  have "fst ?h = Inl NoAcceptableMethod" by code_simp
  then have h: "?h = (Inl NoAcceptableMethod, snd ?h)" by (metis prod.collapse)
  have no: "pending (fresh_conn [[5, 255]]) \<noteq> v # 2 # rest" for v rest
    by (simp add: pending_def fresh_conn_def)
  have s: "c_out (fresh_conn [[5, 255]]) = []" "socks5_greeting ''user'' ''secret'' = [5, 1, 2]"
    by (simp_all add: fresh_conn_def socks5_greeting_def)
  from socks5_credentials_on_request [OF h no] h show ?thesis unfolding s by auto
qed

text \<open>
  Where the client leaves the protocol: a success reply whose bound address is the empty
  domain name (type 3, length 0, then the two bytes of the port) is accepted, but the port
  bytes are not read, because the code reads the rest only if the length is positive. They
  come out as the first two bytes of the tunnel.
\<close>

theorem socks5_empty_domain_leaks_port:
  assumes "usable c" and "pending c = server_script m v rsv 3 [0] @ p1 # p2 # post"
    and "can_auth m user pass" and "socks5_addr host = Inr addr"
  shows "\<exists>c'. socks5Handshake host port user pass c = (Inr (), c') \<and> pending c' = p1 # p2 # post"
proof -
  have "bound_addr 3 [0]"
    unfolding bound_addr_def addr_len_def
    by (intro exI [of _ "[0]"] exI [of _ 0] exI [of _ "[]"]) simp
  from exchangeE [OF exchange_socks5Handshake [OF assms(3,4) this] assms(1,2)] show ?thesis
    by metis
qed

theorem socks5_empty_domain_leaks_port_witness:
  "\<exists>c'. socks5Handshake ''example.com'' 443 [] [] (fresh_conn [[5, 0, 5, 0, 0, 3, 0, 31, 144, 83]]) =
     (Inr (), c') \<and> pending c' = [31, 144, 83]"
proof -
  let ?c = "fresh_conn [[5, 0, 5, 0, 0, 3, 0, 31, 144, 83]]"
  have "usable ?c" by (simp add: usable_def fresh_conn_def)
  moreover have "pending ?c = server_script 0 0 0 3 [0] @ 31 # 144 # [83]"
    by (simp add: pending_def fresh_conn_def server_script_def auth_reply_def)
  ultimately show ?thesis
    by (rule socks5_empty_domain_leaks_port [OF _ _ _ example_addr]) (simp add: can_auth_def)
qed

section \<open>The HTTP tunnel\<close>

text \<open>
  C21. An HTTP CONNECT writes exactly one request and is decided by the header of the response
  alone, however it is cut into segments: the tunnel is up if and only if there is a status
  line with code 200 followed by header lines and a blank line. What is left to read is a
  suffix of what follows the header.
\<close>

theorem http_tunnel_decided_by_header:
  assumes "usable c" and "http_tunnel target auth c = (r, c')"
  shows "c_out c' = c_out c @ bytes_of (connect_request target auth) \<and>
    (case ref_response (pending c) of
       Inl e \<Rightarrow> r = Inl e
     | Inr (resp, body) \<Rightarrow>
         if StatusCode resp = 200 then r = Inr () \<and> (\<exists>lost. body = lost @ pending c')
         else r = Inl (ConnectFailed (Status resp)))"
proof -
  let ?c1 = "c\<lparr>c_out := c_out c @ bytes_of (connect_request target auth)\<rparr>"
  have w: "wr (bytes_of (connect_request target auth)) c = (Inr (), ?c1)"
    using assms(1) by (simp add: wr_def liftIO_def writeConn_open usable_def)
  obtain q c2 where q: "readHTTPResponse ?c1 = (q, c2)" by (cases "readHTTPResponse ?c1")
  have "\<not> c_closed ?c1" using assms(1) by (simp add: usable_def)
  note ref = readHTTPResponse_ref [OF this q]
  have out: "c_out c2 = c_out ?c1"
    using q by (auto simp: readHTTPResponse_def Let_def split: if_splits sum.splits prod.splits)
  from assms(2) w q have "c' = c2 \<and> r = (case q of Inl e \<Rightarrow> Inl e
      | Inr resp \<Rightarrow> if StatusCode resp \<noteq> 200 then Inl (ConnectFailed (Status resp)) else Inr ())"
    by (cases q) (auto simp: http_tunnel_def split: if_splits)
  with ref out show ?thesis by (auto split: sum.splits prod.splits)
qed

definition ok_response :: string where
  "ok_response = ''HTTP/1.1 200 OK'' @ crlf @ ''Via: x'' @ crlf @ crlf"

theorem http_tunnel_decided_by_header_witness:
  "\<exists>c'. http_tunnel ''example.com:443'' [] (fresh_conn [bytes_of ok_response]) = (Inr (), c') \<and>
     c_out c' = bytes_of (connect_request ''example.com:443'' [])"
proof -
  let ?c = "fresh_conn [bytes_of ok_response]"
  have "fst (http_tunnel ''example.com:443'' [] ?c) = Inr ()" by code_simp
  then have h: "http_tunnel ''example.com:443'' [] ?c =
      (Inr (), snd (http_tunnel ''example.com:443'' [] ?c))" by (metis prod.collapse)
  have u: "usable ?c" and e: "c_out ?c = []" by (simp_all add: usable_def fresh_conn_def)
  from conjunct1 [OF http_tunnel_decided_by_header [OF u h]] e
  have "c_out (snd (http_tunnel ''example.com:443'' [] ?c)) =
      bytes_of (connect_request ''example.com:443'' [])" by simp
  with h show ?thesis by blast
qed

text \<open>The whole response inside one segment that fits the reader's buffer.\<close>

lemma readLine_first:
  assumes "cut_line s = Some (l, r)" and "length s \<le> bufsize"
  shows "readLine [] [] (s # ss) = (Inr l, r, ss)"
proof -
  have "readLine [] [] (s # ss) = readLine [] s ss"
    using assms(2) by (simp add: readLine.simps [of "[]" "[]" "s # ss"] bufsize_def)
  also have "\<dots> = (Inr l, r, ss)"
    using assms(1) by (simp add: readLine.simps [of "[]" s ss])
  finally show ?thesis .
qed

lemma drain_headers_buffered:
  "ref_drain buf = Some r \<Longrightarrow> drain_headers buf ss = (Inr (), r, ss)"
proof (induction buf arbitrary: r rule: ref_drain.induct)
  case (1 buf)
  from "1.prems" obtain l t where c: "cut_line buf = Some (l, t)"
    by (auto simp: ref_drain.simps [of buf] split: option.splits)
  have line: "readLine [] buf ss = (Inr l, t, ss)" by (simp add: readLine.simps [of "[]" buf] c)
  show ?case
  proof (cases "blank_line l")
    case True
    with "1.prems" c line show ?thesis
      by (simp add: ref_drain.simps [of buf] drain_headers.simps [of buf])
  next
    case False
    with "1.prems" c have "ref_drain t = Some r" by (simp add: ref_drain.simps [of buf])
    from "1.IH" [OF c refl False this] False line show ?thesis
      by (simp add: drain_headers.simps [of buf])
  qed
qed

text \<open>
  Where the tunnel loses data: the header is read through a buffered reader that is then
  dropped. If the proxy's answer and the first bytes of the tunnelled server (an SSH or SMTP
  greeting) come in one segment, those bytes are gone from the returned connection.
\<close>

theorem http_tunnel_loses_early_bytes:
  assumes u: "usable c" and s: "c_in c = s # ss" "length s \<le> 4096"
    and resp: "ref_response s = Inr (resp, extra)" "StatusCode resp = 200"
  shows "\<exists>c'. http_tunnel target auth c = (Inr (), c') \<and> pending c' = concat ss \<and>
    (\<exists>header. pending c = header @ extra @ concat ss)"
proof -
  let ?c1 = "c\<lparr>c_out := c_out c @ bytes_of (connect_request target auth)\<rparr>"
  have w: "wr (bytes_of (connect_request target auth)) c = (Inr (), ?c1)"
    using u by (simp add: wr_def liftIO_def writeConn_open usable_def)
  from resp(1) obtain l t where c: "cut_line s = Some (l, t)"
    and len: "\<not> length (splitFields (string_of l)) < 2" and d: "ref_drain t = Some extra"
    and r: "resp = \<lparr>Status = string_of l, StatusCode = Atoi (splitFields (string_of l) ! 1)\<rparr>"
    by (auto simp: ref_response_def split: option.splits if_splits)
  have "readHTTPResponse ?c1 = (Inr resp, ?c1\<lparr>c_in := ss\<rparr>)"
    using u s readLine_first [OF c] drain_headers_buffered [OF d] len r
    by (simp add: readHTTPResponse_def usable_def bufsize_def Let_def)
  with w resp(2) have t: "http_tunnel target auth c = (Inr (), ?c1\<lparr>c_in := ss\<rparr>)"
    by (simp add: http_tunnel_def)
  from ref_drain_suffix [OF d] obtain hd where "t = hd @ extra" by blast
  with cut_line_Some [OF c] s have "pending c = (l @ hd) @ extra @ concat ss"
    by (simp add: pending_def)
  moreover have "pending (?c1\<lparr>c_in := ss\<rparr>) = concat ss" by (simp add: pending_def)
  ultimately show ?thesis using t by metis
qed

theorem http_tunnel_loses_early_bytes_witness:
  "\<exists>c'. http_tunnel ''example.com:22'' [] (fresh_conn [bytes_of (ok_response @ ''SSH-2.0'')]) =
     (Inr (), c') \<and> pending c' = []"
proof -
  let ?s = "bytes_of (ok_response @ ''SSH-2.0'')"
  let ?resp = "\<lparr>Status = ''HTTP/1.1 200 OK'' @ crlf, StatusCode = 200\<rparr>"
  have r: "ref_response ?s = Inr (?resp, bytes_of ''SSH-2.0'')" by code_simp
  have l: "length ?s \<le> 4096" by (simp add: ok_response_def crlf_def)
  have u: "usable (fresh_conn [?s])" by (simp add: usable_def fresh_conn_def)
  have i: "c_in (fresh_conn [?s]) = [?s]" by (simp add: fresh_conn_def)
  have "StatusCode ?resp = 200" by simp
  from http_tunnel_loses_early_bytes [OF u i l r this] show ?thesis
    unfolding concat.simps by blast
qed

definition base64_char :: "char \<Rightarrow> bool" where
  "base64_char c \<longleftrightarrow>
     (let n = (of_char c :: nat) in
      (97 \<le> n \<and> n \<le> 122) \<or> (65 \<le> n \<and> n \<le> 90) \<or> (48 \<le> n \<and> n \<le> 57)) \<or>
     c \<in> set ''+/=''"

text \<open>
  The header that is sent for Basic authentication holds the escaped user and password
  with a colon and an at sign, in the clear, where RFC 7617 asks for their base64: there is
  always a character that base64 does not have.
\<close>

theorem basic_auth_is_not_base64:
  assumes "user \<noteq> [] \<or> pass \<noteq> []"
  shows "\<exists>cred. basicAuthHeader user pass = ''Basic '' @ cred \<and> \<not> list_all base64_char cred"
proof -
  have "\<not> base64_char CHR ''@''" by code_simp
  with assms show ?thesis by (auto simp: basicAuthHeader_def list_all_iff)
qed

theorem basic_auth_is_not_base64_witness:
  "basicAuthHeader ''user'' ''pass'' = ''Basic user:pass@'' \<and>
   (\<exists>cred. ''Basic user:pass@'' = ''Basic '' @ cred \<and> \<not> list_all base64_char cred)"
proof -
  have "basicAuthHeader ''user'' ''pass'' = ''Basic user:pass@''" by code_simp
  with basic_auth_is_not_base64 [of "''user''" "''pass''"] show ?thesis by simp
qed

end
