(* ===== verification/Failover.thy ===== *)
theory Failover
  imports DialerSpec
begin

text \<open>
  Connecting through the pool (\<open>dialWithFailover\<close> in \<open>internal/proxy/http.go\<close>). The retry
  loop is written over the three calls it makes: \<open>select\<close> for \<open>p.Select("", host)\<close>,
  \<open>count\<close> for \<open>len(p.List())\<close> and \<open>dial\<close> for \<open>d.Dial\<close>. What the loop promises is proved
  once, in the locale \<open>failover_client\<close>, from the laws of a selector and of a dialer; the
  pool and the dialer of this development are its interpretation. \<open>env k\<close> is what the
  other goroutines do to the pool before the \<open>k\<close>-th selection.
\<close>

section \<open>The code\<close>

datatype failover_error =
    PoolSelect string pool_error
  | SelectFailed pool_error
  | DialFailed string string dial_error
  | DirectDial dial_error
  | MarkedUnhealthy string string
  | NoHealthyProxies

partial_function (option) failover_loop ::
  "(nat \<Rightarrow> 's \<Rightarrow> (pool_error + upstream) \<times> 's) \<Rightarrow> ('s \<Rightarrow> nat) \<Rightarrow>
   (upstream \<Rightarrow> 'w \<Rightarrow> (dial_error + conn) \<times> 'w) \<Rightarrow> nat \<Rightarrow> string set \<Rightarrow> failover_error \<Rightarrow>
   's \<Rightarrow> 'w \<Rightarrow> (((failover_error + conn) \<times> string) \<times> 's \<times> 'w) option" where
  "failover_loop select count dial attempts attempted lastErr s w =
     (if \<not> attempts < count s * 2 then Some ((Inl lastErr, []), s, w)
      else case select attempts s of
        (Inl e, s') \<Rightarrow> Some ((Inl (SelectFailed e), []), s', w)
      | (Inr up, s') \<Rightarrow>
          if up_Name up \<in> attempted then
            failover_loop select count dial (attempts + 1) attempted lastErr s' w
          else if up_Type up = ''direct'' then
            (case dial up w of
               (Inr conn, w') \<Rightarrow> Some ((Inr conn, up_Name up), s', w')
             | (Inl e, w') \<Rightarrow>
                 failover_loop select count dial (attempts + 1) (insert (up_Name up) attempted)
                   (DirectDial e) s' w')
          else if \<not> up_healthy up then
            failover_loop select count dial (attempts + 1) (insert (up_Name up) attempted)
              (MarkedUnhealthy (up_Name up) (up_Addr up)) s' w
          else
            (case dial up w of
               (Inr conn, w') \<Rightarrow> Some ((Inr conn, up_Name up), s', w')
             | (Inl e, w') \<Rightarrow>
                 failover_loop select count dial (attempts + 1) (insert (up_Name up) attempted)
                   (DialFailed (up_Name up) (up_Addr up) e) s' w'))"

text \<open>A selection with its result read through the pointer.\<close>

definition pick :: "(nat \<Rightarrow> nat) \<Rightarrow> string \<Rightarrow> string \<Rightarrow> pool \<Rightarrow> (pool_error + upstream) \<times> pool" where
  "pick rnd preferred host p =
     (case Select rnd preferred host p of
        (Inl e, p') \<Rightarrow> (Inl e, p')
      | (Inr r, p') \<Rightarrow> (Inr (p_obj p' r), p'))"

definition dialWithFailover ::
  "(nat \<Rightarrow> pool \<Rightarrow> pool) \<Rightarrow> (nat \<Rightarrow> nat \<Rightarrow> nat) \<Rightarrow> string \<Rightarrow> string \<Rightarrow> u16 \<Rightarrow> pool \<Rightarrow> net \<Rightarrow>
   (((failover_error + conn) \<times> string) \<times> pool \<times> net) option" where
  "dialWithFailover env rnd preferred host port p w =
     (if preferred \<noteq> [] then
        (case pick (rnd 0) preferred host p of
           (Inl e, p') \<Rightarrow> Some ((Inl (PoolSelect preferred e), []), p', w)
         | (Inr up, p') \<Rightarrow>
             (case Dial (Some up) host port w of
                (Inl e, w') \<Rightarrow> Some ((Inl (DialFailed (up_Name up) (up_Addr up) e), up_Name up), p', w')
              | (Inr conn, w') \<Rightarrow> Some ((Inr conn, up_Name up), p', w')))
      else
        failover_loop (\<lambda>k q. pick (rnd k) [] host (env k q)) (\<lambda>q. length (Pool_List q))
          (\<lambda>up. Dial (Some up) host port) 0 {} NoHealthyProxies p w)"

section \<open>What the loop promises, from the contracts of its calls\<close>

text \<open>The \<open>i\<close>-th of the selections that start with number \<open>k\<close> in state \<open>s\<close>.\<close>

fun pick_seq :: "(nat \<Rightarrow> 's \<Rightarrow> 'r \<times> 's) \<Rightarrow> nat \<Rightarrow> 's \<Rightarrow> nat \<Rightarrow> 'r" where
  "pick_seq select k s 0 = fst (select k s)"
| "pick_seq select k s (Suc i) = pick_seq select (Suc k) (snd (select k s)) i"

definition dialable :: "upstream \<Rightarrow> bool" where
  "dialable up \<longleftrightarrow> up_Type up = ''direct'' \<or> up_healthy up"

locale failover_client =
  fixes select :: "nat \<Rightarrow> 's \<Rightarrow> (pool_error + upstream) \<times> 's"
    and members :: "'s \<Rightarrow> upstream list"
    and dial :: "upstream \<Rightarrow> 'w \<Rightarrow> (dial_error + conn) \<times> 'w"
    and log :: "'w \<Rightarrow> string list"
    and addr :: "upstream \<Rightarrow> string option"
    and good :: "'s \<Rightarrow> bool"
    and world :: "'w \<Rightarrow> bool"
  assumes select_member: "good s \<Longrightarrow> select k s = (Inr u, s') \<Longrightarrow> u \<in> set (members s)"
    and select_good: "good s \<Longrightarrow> good (snd (select k s))"
    and select_frame: "members (snd (select k s)) = members s"
    and dial_log: "log (snd (dial u w)) = log w @ (case addr u of None \<Rightarrow> [] | Some a \<Rightarrow> [a])"
    and dial_world: "world w \<Longrightarrow> world (snd (dial u w))"
begin

abbreviation loop where
  "loop \<equiv> failover_loop select (\<lambda>s. length (members s)) dial"

definition contacted :: "upstream list \<Rightarrow> string list" where
  "contacted us = concat (map (\<lambda>u. case addr u of None \<Rightarrow> [] | Some a \<Rightarrow> [a]) us)"

text \<open>
  The loop returns, and what it did is a list of attempts on pairwise different members, in
  order; on success the last of them made the connection.
\<close>

definition attempts_ok ::
  "string set \<Rightarrow> 's \<Rightarrow> 'w \<Rightarrow> ((failover_error + conn) \<times> string) \<times> 's \<times> 'w \<Rightarrow> bool" where
  "attempts_ok att s w x \<longleftrightarrow>
     (case x of ((r, n), s', w') \<Rightarrow> members s' = members s \<and> (world w \<longrightarrow> world w') \<and>
       (\<exists>us. set us \<subseteq> set (members s) \<and> (\<forall>u \<in> set us. dialable u) \<and> distinct (map up_Name us) \<and>
          up_Name ` set us \<inter> att = {} \<and> log w' = log w @ contacted us \<and>
          (\<forall>c. r = Inr c \<longrightarrow> us \<noteq> [] \<and> n = up_Name (last us) \<and> (\<exists>v. dial (last us) v = (Inr c, w')))))"

lemma attempts_ok_stop:
  "members s' = members s \<Longrightarrow> attempts_ok att s w ((Inl e, n), s', w)"
  unfolding attempts_ok_def by (auto intro: exI [of _ "[]"] simp: contacted_def)

lemma attempts_ok_hit:
  assumes "u \<in> set (members s)" and "dialable u" and "up_Name u \<notin> att" and "dial u w = (Inr c, w')"
    and "members s' = members s"
  shows "attempts_ok att s w ((Inr c, up_Name u), s', w')"
  unfolding attempts_ok_def prod.case
  using assms dial_log [of u w] dial_world [of w u]
  by (intro conjI impI exI [of _ "[u]"]) (auto simp: contacted_def)

lemma attempts_ok_miss:
  assumes "u \<in> set (members s)" and "dialable u" and "up_Name u \<notin> att" and "dial u w = (Inl e, w')"
    and "members s' = members s" and "attempts_ok (insert (up_Name u) att) s' w' x"
  shows "attempts_ok att s w x"
proof -
  obtain r n s2 w2 where x: "x = ((r, n), s2, w2)" by (cases x) auto
  with assms(6) obtain us where us: "set us \<subseteq> set (members s')" "\<forall>u \<in> set us. dialable u"
    "distinct (map up_Name us)" "up_Name ` set us \<inter> insert (up_Name u) att = {}"
    "log w2 = log w' @ contacted us" "members s2 = members s'" "world w' \<longrightarrow> world w2"
    "\<And>c. r = Inr c \<Longrightarrow> us \<noteq> [] \<and> n = up_Name (last us) \<and> (\<exists>v. dial (last us) v = (Inr c, w2))"
    by (auto simp: attempts_ok_def)
  have "log w2 = log w @ contacted (u # us)"
    using us(5) dial_log [of u w] assms(4) by (simp add: contacted_def)
  moreover have "world w \<longrightarrow> world w2" using us(7) dial_world [of w u] assms(4) by simp
  moreover have "(u # us) \<noteq> [] \<and> n = up_Name (last (u # us)) \<and> (\<exists>v. dial (last (u # us)) v = (Inr c, w2))"
    if "r = Inr c" for c using us(8) [OF that] by simp
  ultimately show ?thesis
    unfolding attempts_ok_def x prod.case using us assms(1-5)
    by (intro conjI exI [of _ "u # us"]) auto
qed

lemma attempts_ok_mono: "attempts_ok (insert n att) s w x \<Longrightarrow> attempts_ok att s w x"
  unfolding attempts_ok_def by (cases x) (auto; blast)

lemma attempts_ok_frame: "members s' = members s \<Longrightarrow> attempts_ok att s' w x \<longleftrightarrow> attempts_ok att s w x"
  by (simp add: attempts_ok_def)

text \<open>One turn of the loop: the upstream selected is skipped, refused, dialled or missed.\<close>

lemma loop_turn [consumes 3, case_names again unhealthy hit miss]:
  assumes "k < length (members s) * 2" and "select k s = (Inr u, s')" and "dial u w = (d, w')"
  obtains "up_Name u \<in> att" "loop k att err s w = loop (k + 1) att err s' w"
  | "up_Name u \<notin> att" "\<not> dialable u"
      "loop k att err s w = loop (k + 1) (insert (up_Name u) att) (MarkedUnhealthy (up_Name u) (up_Addr u)) s' w"
  | c where "up_Name u \<notin> att" "dialable u" "d = Inr c" "loop k att err s w = Some ((Inr c, up_Name u), s', w')"
  | e err' where "up_Name u \<notin> att" "dialable u" "d = Inl e"
      "loop k att err s w = loop (k + 1) (insert (up_Name u) att) err' s' w'"
  using assms
  by (cases "up_Name u \<in> att"; cases "up_Type u = ''direct''"; cases "up_healthy u"; cases d)
    (simp_all add: failover_loop.simps [of select _ _ k] dialable_def)

lemma loop_attempts:
  "good s \<Longrightarrow> \<exists>x. loop k att err s w = Some x \<and> attempts_ok att s w x"
proof (induction "length (members s) * 2 - k" arbitrary: k att err s w rule: less_induct)
  case less
  show ?case
  proof (cases "k < length (members s) * 2")
    case False
    then show ?thesis
      by (intro exI [of _ "((Inl err, []), s, w)"])
        (simp add: failover_loop.simps [of select] attempts_ok_stop)
  next
    case more: True
    obtain q s' where sel: "select k s = (q, s')" by (cases "select k s")
    then have mem: "members s' = members s" using select_frame [of k s] by simp
    have less': "length (members s') * 2 - (k + 1) < length (members s) * 2 - k"
      using more mem by simp
    have "good s'" using select_good [OF less.prems, of k] sel by simp
    note rec = less.hyps [OF less' this] and mono = attempts_ok_frame [OF mem]
    show ?thesis
    proof (cases q)
      case (Inl e)
      then show ?thesis using more sel mem
        by (simp add: failover_loop.simps [of select _ _ k] attempts_ok_stop)
    next
      case (Inr u)
      with sel less.prems have u: "u \<in> set (members s)" by (simp add: select_member)
      obtain d w' where dial: "dial u w = (d, w')" by (cases "dial u w")
      from more sel [unfolded Inr] dial show ?thesis
      proof (cases rule: loop_turn [where att = att and err = err])
        case again
        with rec [of att err w] mono show ?thesis by metis
      next
        case unhealthy
        with rec [of "insert (up_Name u) att" "MarkedUnhealthy (up_Name u) (up_Addr u)" w] mono attempts_ok_mono
        show ?thesis by metis
      next
        case (hit c)
        with attempts_ok_hit [OF u hit(2,1) dial [unfolded hit(3)] mem] show ?thesis by blast
      next
        case (miss e err')
        with rec [of "insert (up_Name u) att" err' w'] attempts_ok_miss [OF u miss(2,1) dial [unfolded miss(3)] mem]
        show ?thesis by metis
      qed
    qed
  qed
qed

text \<open>
  A member that is always reachable, if the selections get to it in time, is found: the loop
  then returns a connection, through it or through one tried before.
\<close>

definition reachable_via :: "upstream \<Rightarrow> bool" where
  "reachable_via u \<longleftrightarrow> dialable u \<and> (\<forall>w. world w \<longrightarrow> (\<exists>c w'. dial u w = (Inr c, w')))"

lemma loop_succeeds:
  assumes "i < length (members s) * 2 - k" and "pick_seq select k s i = Inr u"
    and "\<And>j. j < i \<Longrightarrow> \<exists>v. pick_seq select k s j = Inr v"
    and "reachable_via u" and "up_Name u \<notin> att" and "world w"
    and "\<And>v. v \<in> set (members s) \<Longrightarrow> up_Name v = up_Name u \<Longrightarrow> v = u"
    and "good s"
  shows "\<exists>c n s' w'. loop k att err s w = Some ((Inr c, n), s', w')"
  using assms
proof (induction i arbitrary: k att err s w)
  case 0
  then obtain s' where sel: "select k s = (Inr u, s')" by (cases "select k s") auto
  obtain c w' where "dial u w = (Inr c, w')" using 0 by (auto simp: reachable_via_def)
  with 0 sel show ?case
    by (cases "up_Type u = ''direct''")
      (auto simp: failover_loop.simps [of select _ _ k] reachable_via_def dialable_def)
next
  case (Suc i)
  from Suc.prems(3) [of 0] obtain v s' where sel: "select k s = (Inr v, s')"
    by (cases "select k s") auto
  then have mem: "members s' = members s" using select_frame [of k s] by simp
  have good: "good s'" using select_good [OF Suc.prems(8), of k] sel by simp
  have more: "k < length (members s) * 2" using Suc.prems(1) by simp
  have pre: "i < length (members s') * 2 - (k + 1)" "pick_seq select (k + 1) s' i = Inr u"
    using Suc.prems(1,2) sel mem by simp_all
  have earlier: "\<exists>v. pick_seq select (k + 1) s' j = Inr v" if "j < i" for j
    using Suc.prems(3) [of "Suc j"] that sel by simp
  have inj: "v = u" if "v \<in> set (members s')" "up_Name v = up_Name u" for v
    using Suc.prems(7) that mem by simp
  have rec: "\<exists>c n s'' w''. loop (k + 1) att' err' s' v' = Some ((Inr c, n), s'', w'')"
    if "up_Name u \<notin> att'" "world v'" for att' err' v'
    by (rule Suc.IH [OF pre _ Suc.prems(4) that]) (use earlier inj good in auto)
  obtain d w' where dial: "dial v w = (d, w')" by (cases "dial v w")
  have w': "world w'" using dial_world [OF Suc.prems(6), of v] dial by simp
  have other: "up_Name u \<notin> insert (up_Name v) att" if "v \<noteq> u"
    using Suc.prems(5,7) that select_member [OF Suc.prems(8) sel] by auto
  from more sel dial show ?case
  proof (cases rule: loop_turn [where att = att and err = err])
    case again
    with rec [OF Suc.prems(5,6)] show ?thesis by simp
  next
    case unhealthy
    then have "v \<noteq> u" using Suc.prems(4) by (auto simp: reachable_via_def)
    with rec [OF other Suc.prems(6)] unhealthy(3) show ?thesis by simp
  next
    case (hit c)
    then show ?thesis by simp
  next
    case (miss e err')
    with dial Suc.prems(4,6) have "v \<noteq> u" by (auto simp: reachable_via_def)
    with rec [OF other w'] miss(4) show ?thesis by simp
  qed
qed

end

section \<open>The pool and the dialer meet the contracts\<close>

definition pool_members :: "pool \<Rightarrow> upstream list" where
  "pool_members p = map (p_obj p) (p_all p)"

definition pool_select :: "(nat \<Rightarrow> nat \<Rightarrow> nat) \<Rightarrow> string \<Rightarrow> nat \<Rightarrow> pool \<Rightarrow> (pool_error + upstream) \<times> pool" where
  "pool_select rnd host k p = pick (rnd k) [] host p"

lemma pick_frame: "p_obj (snd (pick rnd n host p)) = p_obj p" "p_all (snd (pick rnd n host p)) = p_all p"
  using Select_frame [OF refl, of rnd n host p]
  by (auto simp: pick_def split: prod.splits sum.splits)

lemma index_of_mem: "index_of xs i = Inr r \<Longrightarrow> r \<in> set xs"
  by (auto simp: index_of_def go_index_Inr split: sum.splits)

lemma Select_mem:
  assumes "Select rnd [] host p = (Inr r, p')" and "pool_ok p"
  shows "r \<in> set (p_all p)"
  using assms candidates_subset [of p] pool_okD(3) [OF assms(2)]
  by (auto simp: Select_def Let_def dest!: index_of_mem split: if_splits option.splits)

text \<open>Selection and dialling as the loop of \<open>dialWithFailover\<close> calls them.\<close>

lemma pool_select_member:
  assumes "pool_ok p" and "pool_select rnd host k p = (Inr u, p')"
  shows "u \<in> set (pool_members p)"
proof -
  obtain r where r: "Select (rnd k) [] host p = (Inr r, p')" "u = p_obj p' r"
    using assms(2) by (auto simp: pool_select_def pick_def split: prod.splits sum.splits)
  from Select_mem [OF r(1) assms(1)] r(2) Select_frame(1) [of "rnd k" "[]" host p p'] r(1)
  show ?thesis by (simp add: pool_members_def)
qed

lemma pool_select_frame:
  "pool_members (snd (pool_select rnd host k p)) = pool_members p"
  "pool_ok p \<Longrightarrow> pool_ok (snd (pool_select rnd host k p))"
  using pool_ok_Select [of p "rnd k" "[]" host]
  by (auto simp: pool_select_def pool_members_def pick_frame)
    (auto simp: pick_def split: prod.splits sum.splits)

lemma Dial_net:
  "n_dialled (snd (Dial (Some u) host port w)) =
     n_dialled w @ (case dial_address u host port of None \<Rightarrow> [] | Some a \<Rightarrow> [a])"
  "n_peer (snd (Dial (Some u) host port w)) = n_peer w"
  using Dial_accounting [of u host port w] by (auto split: option.splits)

interpretation fo: failover_client "pool_select rnd host" pool_members "\<lambda>u. Dial (Some u) host port"
    n_dialled "\<lambda>u. dial_address u host port" pool_ok "\<lambda>w. n_peer w = peer"
  for rnd :: "nat \<Rightarrow> nat \<Rightarrow> nat" and host :: string and port :: u16
    and peer :: "nat \<Rightarrow> string \<Rightarrow> conn option"
  by unfold_locales (simp_all add: pool_select_member pool_select_frame Dial_net)

lemma dialWithFailover_loop:
  "dialWithFailover (\<lambda>_ q. q) rnd [] host port p w =
   failover_loop (pool_select rnd host) (\<lambda>q. length (pool_members q))
     (\<lambda>u. Dial (Some u) host port) 0 {} NoHealthyProxies p w"
  by (simp add: dialWithFailover_def pool_select_def [abs_def] pool_members_def Pool_List_def)

section \<open>Properties\<close>

text \<open>The addresses that attempts on the given upstreams contact.\<close>

definition contacts :: "string \<Rightarrow> u16 \<Rightarrow> upstream list \<Rightarrow> string list" where
  "contacts host port us = List.map_filter (\<lambda>u. dial_address u host port) us"

lemma contacted_contacts: "fo.contacted host port us = contacts host port us"
  by (induction us) (simp_all add: fo.contacted_def contacts_def List.map_filter_def split: option.split)



lemma unat_u64_less: "unat (x :: u64) < 2 ^ 64"
  using unsigned_less [where ?'a = nat, of x] by simp

text \<open>What round-robin gives to a caller that has the pool to itself.\<close>

lemma round_robin_picks:
  assumes "\<And>k. rand_ok (rnd k)" and "small_pool p" and "p_all p \<noteq> []" and "p_strategy p = ''round-robin''"
  shows "pick_seq (pool_select rnd host) k p i =
    Inr (p_obj p (candidates p ! ((unat (p_rrCounter p) + i) mod 2 ^ 64 mod length (candidates p))))"
  using assms(2-)
proof (induction i arbitrary: k p)
  case 0
  have "unat (p_rrCounter p) mod 2 ^ 64 = unat (p_rrCounter p)"
    using unat_u64_less [of "p_rrCounter p"] by simp
  with Select_strategy [OF assms(1) 0(1,2), of "[]" k host] 0(3) show ?case
    by (simp add: pool_select_def pick_def effective_name_def pick_index_def Let_def)
next
  case (Suc i)
  have "snd (pool_select rnd host k p) = bump p"
    using Select_strategy [OF assms(1) Suc.prems(1,2), of "[]" k host] Suc.prems(3)
    by (simp add: pool_select_def pick_def effective_name_def)
  moreover have "unat (p_rrCounter (bump p)) = (unat (p_rrCounter p) + 1) mod 2 ^ 64"
    using Suc.prems(3) by (simp add: bump_def unat_word_ariths)
  moreover have "small_pool (bump p)" "p_all (bump p) \<noteq> []" "p_strategy (bump p) = ''round-robin''"
    using Suc.prems by simp_all
  ultimately show ?case
    using Suc.IH [of "bump p" "Suc k"] by (simp add: mod_simps)
qed

text \<open>Among \<open>2 * h\<close> values of a counter that may wrap once, every residue occurs.\<close>

lemma residues_covered:
  assumes "t < h" and "h < 2 ^ 63" and "c < 2 ^ 64"
  shows "\<exists>i < 2 * h. (c + i) mod 2 ^ 64 mod h = (t :: nat)"
proof (cases "c + h \<le> 2 ^ 64")
  case True
  define i where "i = (t + h - c mod h) mod h"
  have h: "0 < h" using assms(1) by simp
  then have i: "i < h" by (simp add: i_def)
  have cm: "c mod h < h" using h by simp
  have "(c + i) mod h = (c mod h + (t + h - c mod h)) mod h"
    unfolding i_def by (metis mod_add_left_eq mod_add_right_eq)
  also have "c mod h + (t + h - c mod h) = t + h" using cm by linarith
  also have "(t + h) mod h = t" using assms(1) by simp
  finally have "(c + i) mod h = t" .
  moreover have "(c + i) mod 2 ^ 64 = c + i" using True i by simp
  ultimately show ?thesis using i by (intro exI [of _ i]) auto
next
  case False
  define i where "i = 2 ^ 64 - c + t"
  have "i < 2 * h" using False assms(1) by (simp add: i_def)
  moreover have "(c + i) mod 2 ^ 64 = t" using assms by (simp add: i_def)
  ultimately show ?thesis using assms(1) by (intro exI [of _ i]) auto
qed


definition all_up :: net where
  "all_up = \<lparr>n_peer = \<lambda>n a. Some (fresh_conn []), n_dialled = [], n_dropped = []\<rparr>"

lemma example_direct:
  "p_obj (example_pool s) 0 = upstream_of_entry direct_entry\<lparr>up_healthy := True\<rparr>"
  by (simp add: example_pool_def Pool_New_def example_entries_def pool_append_def new_upstream_def
      empty_pool_def Let_def SetHealthy_def)


text \<open>A selector that always comes up with the same upstream leaves the loop nothing to do.\<close>

lemma loop_stuck:
  assumes pick: "\<And>k s. I s \<Longrightarrow> \<exists>s'. select k s = (Inr u, s') \<and> I s' \<and> count s' = count s"
    and "I s" and "up_Name u \<in> att"
  shows "\<exists>s'. failover_loop select count dial k att err s w = Some ((Inl err, []), s', w)"
  using assms(2)
proof (induction "count s * 2 - k" arbitrary: k s rule: less_induct)
  case less
  from pick [OF less.prems, of k] obtain s' where s': "select k s = (Inr u, s')" "I s'"
    "count s' = count s" by blast
  show ?case
  proof (cases "k < count s * 2")
    case True
    with s'(3) have "count s' * 2 - (k + 1) < count s * 2 - k" by simp
    from less.hyps [OF this s'(2)] True s'(1) assms(3) show ?thesis
      by (simp add: failover_loop.simps [of select _ _ k])
  qed (simp add: failover_loop.simps [of select _ _ k])
qed

lemma loop_one_chance:
  assumes pick: "\<And>k s. I s \<Longrightarrow> \<exists>s'. select k s = (Inr u, s') \<and> I s' \<and> count s' = count s"
    and "I s" and "0 < count s" and "dialable u" and "dial u w = (Inl e, w')"
  shows "\<exists>err s'. failover_loop select count dial 0 {} err0 s w = Some ((Inl err, []), s', w')"
proof -
  from pick [OF assms(2), of 0] obtain s' where s': "select 0 s = (Inr u, s')" "I s'" by blast
  have "\<exists>err. failover_loop select count dial 0 {} err0 s w =
      failover_loop select count dial 1 {up_Name u} err s' w'"
    using assms(3-5) s'(1)
    by (cases "up_Type u = ''direct''") (auto simp: failover_loop.simps [of select _ _ 0] dialable_def)
  with loop_stuck [where I = I, OF pick s'(2), of "{up_Name u}"] show ?thesis by fastforce
qed

text \<open>
  C36. Under every strategy but random and round-robin there is no failover at all: the
  selection answers the same upstream each time, so when dialling that one fails the call
  fails, with no other upstream contacted, however many are healthy.
\<close>

theorem sticky_strategies_never_fail_over:
  assumes strategy: "p_strategy p \<notin> {''random'', ''round-robin''}"
    and first: "Select (rnd 0) [] host p = (Inr r, p)"
    and d: "dialable (p_obj p r)" and fails: "Dial (Some (p_obj p r)) host port w = (Inl e, w')"
  shows "\<exists>err p'. dialWithFailover (\<lambda>_ q. q) rnd [] host port p w = Some ((Inl err, []), p', w')"
proof -
  have "Select (rnd k) [] host p = Select (rnd 0) [] host p" for k
    using strategy by (simp add: Select_def Let_def)
  with first have same: "Select (rnd k) [] host p = (Inr r, p)" for k by simp
  have "0 < length (p_all p)" using first by (auto simp: Select_def split: if_splits)
  moreover have "\<exists>q'. pool_select rnd host k q = (Inr (p_obj p r), q') \<and> q' = p \<and>
      length (pool_members q') = length (pool_members q)" if "q = p" for k q
    using that same by (simp add: pool_select_def pick_def)
  ultimately show ?thesis
    unfolding dialWithFailover_loop
    by (intro loop_one_chance [where I = "\<lambda>q. q = p" and u = "p_obj p r"])
      (use d fails in \<open>simp_all add: pool_members_def\<close>)
qed

definition one_proxy_up :: net where
  "one_proxy_up = \<lparr>n_peer = \<lambda>n a. if a = ''10.0.0.1:3128'' then Some (fresh_conn [bytes_of ok_response])
     else None, n_dialled = [], n_dropped = []\<rparr>"

theorem sticky_strategies_never_fail_over_witness:
  "\<exists>err p' w'. dialWithFailover (\<lambda>_ q. q) (\<lambda>_ _. 0) [] ''h'' 80 (example_pool ''name'') one_proxy_up =
     Some ((Inl err, []), p', w')"
proof -
  let ?p = "example_pool ''name''"
  have s: "Select ((\<lambda>_ _. 0) (0 :: nat)) [] ''h'' ?p = (Inr 0, ?p)"
    by (simp add: Select_def example_pool_simps effective_name_def index_of_def Let_def)
  note u = example_direct
  have "fst (Dial (Some (p_obj ?p 0)) ''h'' 80 one_proxy_up) = Inl (TcpDial ''h:80'')"
    unfolding u by code_simp
  then have d: "Dial (Some (p_obj ?p 0)) ''h'' 80 one_proxy_up =
      (Inl (TcpDial ''h:80''), snd (Dial (Some (p_obj ?p 0)) ''h'' 80 one_proxy_up))"
    by (metis prod.collapse)
  have "dialable (p_obj ?p 0)" unfolding u by (simp add: dialable_def upstream_of_entry_def direct_entry_def)
  from sticky_strategies_never_fail_over [where rnd = "\<lambda>_ _. 0", OF _ s this d] show ?thesis by (auto simp: example_pool_simps)
qed

text \<open>
  Round-robin failover is only complete for a caller that has the counter to itself. With
  two candidates and another handler that selects once between any two selections of this one,
  every selection of this one lands on the same candidate; if that one cannot be reached, the
  call fails without ever trying the other.
\<close>

theorem round_robin_starved_by_other_handler:
  assumes small: "small_pool p" and rnd: "\<And>k. rand_ok (rnd k)" "rand_ok rnd'"
    and rr: "p_strategy p = ''round-robin''" and two: "candidates p = [a, b]"
    and r: "r = (if even (unat (p_rrCounter p)) then b else a)"
    and d: "dialable (p_obj p r)" and fails: "Dial (Some (p_obj p r)) host port w = (Inl e, w')"
  shows "\<exists>err p'. dialWithFailover (\<lambda>_ q. snd (Select rnd' [] other q)) rnd [] host port p w =
    Some ((Inl err, []), p', w')"
proof -
  let ?env = "\<lambda>q. snd (Select rnd' [] other q)"
  let ?I = "\<lambda>q. small_pool q \<and> p_strategy q = ''round-robin'' \<and> candidates q = [a, b] \<and>
      p_all q = p_all p \<and> p_obj q = p_obj p \<and>
      (even (unat (p_rrCounter q)) \<longleftrightarrow> even (unat (p_rrCounter p)))"
  have ne: "p_all q \<noteq> []" if "?I q" for q
    using that by (metis candidates_empty list.distinct(1))
  have flip: "even (unat (p_rrCounter (bump q))) \<longleftrightarrow> odd (unat (p_rrCounter q))"
    if "p_strategy q = ''round-robin''" for q
    using that by (simp add: bump_def unat_word_ariths dvd_mod_iff)
  have sel: "Select rn [] key q = (Inr (candidates q ! pick_index rn key q), bump q)"
    if "?I q" "rand_ok rn" for rn key q
    using that ne [OF that(1)] by (intro Select_strategy) (simp_all add: effective_name_def)
  have step: "\<exists>q'. pick (rnd k) [] host (?env q) = (Inr (p_obj p r), q') \<and> ?I q' \<and>
      length (Pool_List q') = length (Pool_List q)" if q: "?I q" for k q
  proof -
    have e: "?env q = bump q" using sel [OF q rnd(2)] by simp
    have Ib: "small_pool (bump q) \<and> p_strategy (bump q) = ''round-robin'' \<and> p_all (bump q) \<noteq> []"
      using q ne [OF q] by simp
    have s: "Select (rnd k) [] host (bump q) =
        (Inr (candidates (bump q) ! pick_index (rnd k) host (bump q)), bump (bump q))"
      using Ib rnd(1) by (intro Select_strategy) (simp_all add: effective_name_def)
    have "pick_index (rnd k) host (bump q) = unat (p_rrCounter (bump q)) mod 2"
      using q by (simp add: pick_index_def Let_def numeral_2_eq_2)
    then have "candidates (bump q) ! pick_index (rnd k) host (bump q) = r"
      using q flip [of q] r by (cases "even (unat (p_rrCounter q))") (auto simp: odd_iff_mod_2_eq_one)
    with s e q flip [of q] flip [of "bump q"] show ?thesis by (simp add: pick_def Pool_List_def)
  qed
  have "0 < length (Pool_List p)" using ne [of p] small rr two by (simp add: Pool_List_def)
  then show ?thesis
    unfolding dialWithFailover_def using small rr two d fails
    by (simp, intro loop_one_chance [where I = ?I and u = "p_obj p r", OF step]) simp_all
qed

text \<open>Two proxies, of which the first is down and the second would answer.\<close>

definition two_proxies :: pool where
  "two_proxies = Pool_New \<lparr>pc_Strategy = ''round-robin'', pc_HealthCheck = False, pc_Proxies =
     [\<lparr>pe_Name = ''b'', pe_Type = ''http'', pe_Server = ''10.0.0.1'', pe_Port = 3128,
        pe_Username = [], pe_Password = []\<rparr>,
      \<lparr>pe_Name = ''a'', pe_Type = ''http'', pe_Server = ''10.0.0.9'', pe_Port = 3128,
        pe_Username = [], pe_Password = []\<rparr>]\<rparr>"

lemma two_proxies_simps:
  "candidates two_proxies = [0, 1]" "p_all two_proxies = [0, 1]"
  "p_strategy two_proxies = ''round-robin''" "p_rrCounter two_proxies = 0"
  "p_obj two_proxies 1 = \<lparr>up_Name = ''a'', up_Type = ''http'',
     up_Addr = JoinHostPort ''10.0.0.9'' (sprint_int 3128), up_Username = [], up_Password = [],
     up_healthy = True\<rparr>"
  by (simp_all add: two_proxies_def Pool_New_def pool_append_def new_upstream_def empty_pool_def
      Let_def SetHealthy_def candidates_def Healthy_def upstream_of_entry_def)

lemma two_proxies_types:
  "up_Type (p_obj two_proxies 0) = ''http''" "up_Type (p_obj two_proxies (Suc 0)) = ''http''"
  by (simp_all add: two_proxies_def Pool_New_def pool_append_def new_upstream_def empty_pool_def
      Let_def SetHealthy_def upstream_of_entry_def)

theorem round_robin_starved_by_other_handler_witness:
  "\<exists>err p' w'. dialWithFailover (\<lambda>_ q. snd (Select (\<lambda>_. 0) [] ''other'' q)) (\<lambda>_ _. 0) [] ''h'' 80
     two_proxies one_proxy_up = Some ((Inl err, []), p', w')"
proof -
  let ?d = "Dial (Some (p_obj two_proxies 1)) ''h'' 80 one_proxy_up"
  have "fst ?d = Inl (TcpDial ''10.0.0.9:3128'')" unfolding two_proxies_simps by code_simp
  then have d: "?d = (Inl (TcpDial ''10.0.0.9:3128''), snd ?d)" by (metis prod.collapse)
  have s: "small_pool two_proxies" by (simp add: small_pool_def two_proxies_simps)
  have r: "(1 :: ref) = (if even (unat (p_rrCounter two_proxies)) then 1 else 0)"
    by (simp add: two_proxies_simps)
  have h: "dialable (p_obj two_proxies 1)" unfolding two_proxies_simps by (simp add: dialable_def)
  from round_robin_starved_by_other_handler [where rnd = "\<lambda>_ _. 0", OF s rand_ok_zero rand_ok_zero
      two_proxies_simps(3,1) r h d]
  show ?thesis by blast
qed

text \<open>
  The fallback of the selection to unhealthy upstreams never helps a connection: if no
  upstream is direct or healthy, the call fails without dialling anybody, although the
  selection keeps returning upstreams.
\<close>

theorem unhealthy_fallback_is_never_dialled:
  assumes ok: "pool_ok p" and down: "\<And>u. u \<in> set (pool_members p) \<Longrightarrow> \<not> dialable u"
  shows "\<exists>e name p' w'. dialWithFailover (\<lambda>_ q. q) rnd [] host port p w = Some ((Inl e, name), p', w') \<and>
    n_dialled w' = n_dialled w"
proof -
  from fo.loop_attempts [OF ok, of rnd host port 0 "{}" NoHealthyProxies w "n_peer w"]
  obtain r name p' w' where run: "dialWithFailover (\<lambda>_ q. q) rnd [] host port p w = Some ((r, name), p', w')"
    and att: "fo.attempts_ok host port (n_peer w) {} p w ((r, name), p', w')"
    by (auto simp: dialWithFailover_loop)
  from att obtain us where us: "set us \<subseteq> set (pool_members p)" "\<forall>u \<in> set us. dialable u"
    "n_dialled w' = n_dialled w @ contacts host port us" "\<forall>c. r = Inr c \<longrightarrow> us \<noteq> []"
    by (auto simp: fo.attempts_ok_def contacted_contacts)
  with down have "us = []" by (cases us) auto
  with us run show ?thesis by (cases r) (auto simp: contacts_def List.map_filter_def)
qed

theorem unhealthy_fallback_is_never_dialled_witness:
  "\<exists>e name p' w'. dialWithFailover (\<lambda>_ q. q) (\<lambda>_ _. 0) [] ''h'' 80
     (health_tick (\<lambda>_. False) two_proxies) all_up = Some ((Inl e, name), p', w') \<and> n_dialled w' = []"
proof -
  let ?p = "health_tick (\<lambda>_. False) two_proxies"
  have "pool_ok two_proxies" unfolding two_proxies_def by (rule Pool_New_ok) simp
  then have ok: "pool_ok ?p"
    by (simp add: health_tick_def two_proxies_simps probe_def)
  have "\<not> dialable u" if "u \<in> set (pool_members ?p)" for u
  proof -
    have o: "p_all ?p = p_all two_proxies" "p_obj ?p r = (if r \<in> set (p_all two_proxies)
        then (p_obj two_proxies r)\<lparr>up_healthy := alive (\<lambda>_. False) (p_obj two_proxies r)\<rparr>
        else p_obj two_proxies r)" for r
      unfolding health_tick_def probes_frame probes_obj by (rule refl)+
    from that show ?thesis
      by (auto simp: pool_members_def o two_proxies_simps(2) two_proxies_types dialable_def alive_def)
  qed
  from unhealthy_fallback_is_never_dialled [OF ok this, of "\<lambda>_ _. 0" "''h''" 80 all_up]
  show ?thesis by (simp add: all_up_def)
qed

text \<open>
  A client that names its upstream gets that one or an error: an unknown name fails with
  no dial, a known one is dialled once, healthy or not, under its own name, and the pool is
  left as it was whatever the strategy.
\<close>

theorem preferred_is_exclusive:
  assumes ok: "pool_ok p" and name: "preferred \<noteq> []"
  shows "dialWithFailover env rnd preferred host port p w =
    (case Pool_Get preferred p of
       None \<Rightarrow> Some ((Inl (PoolSelect preferred
           (if Pool_List p = [] then EmptyPool else PinnedNotFound preferred)), []), p, w)
     | Some r \<Rightarrow>
         (case Dial (Some (p_obj p r)) host port w of
            (Inl e, w') \<Rightarrow> Some ((Inl (DialFailed preferred (up_Addr (p_obj p r)) e), preferred), p, w')
          | (Inr c, w') \<Rightarrow> Some ((Inr c, preferred), p, w')))"
proof (cases "p_byName p preferred")
  case None
  with name show ?thesis
    by (simp add: dialWithFailover_def pick_def Select_def effective_name_def Pool_Get_def Pool_List_def)
next
  case (Some r)
  then have "r \<in> set (p_all p)" "up_Name (p_obj p r) = preferred"
    by (simp_all add: pool_okD(3) [OF ok])
  with Some name show ?thesis
    by (auto simp: dialWithFailover_def pick_def Select_def effective_name_def Pool_Get_def
        split: prod.split sum.split)
qed

theorem preferred_is_exclusive_witness:
  "dialWithFailover (\<lambda>_ q. q) (\<lambda>_ _. 0) ''nobody'' ''h'' 80 (example_pool ''hash'') all_up =
     Some ((Inl (PoolSelect ''nobody'' (PinnedNotFound ''nobody'')), []), example_pool ''hash'', all_up)"
proof -
  have "Pool_Get ''nobody'' (example_pool ''hash'') = None"
    using pool_ok_byName_None [OF example_pool_ok, of "''hash''" "''nobody''"]
    by (simp add: Pool_Get_def example_pool_simps)
  then show ?thesis
    using preferred_is_exclusive [where preferred = "''nobody''", OF example_pool_ok]
    by (simp add: Pool_List_def example_pool_simps)
qed

end
