(* ===== verification/ConnTrack.thy ===== *)
theory ConnTrack
  imports GoText
begin

text \<open>
  Connection tracking (\<open>internal/conntrack/conn.go\<close>): the registry of live connections.
  Entries are shared by pointer between the handler that serves the connection, the map of
  the manager and the API, so they live in a store. The cancel channel of an entry is kept
  with its state, since closing a nil or a closed channel panics in Go. The locale
  \<open>connection_registry\<close> is what a handler relies on; \<open>cm_ok\<close> is the invariant that
  keeps \<open>Close\<close> from panicking.
\<close>

section \<open>Data\<close>

type_synonym eref = nat

datatype protocol = ProtoHTTP | ProtoSOCKS5

datatype network = NetTCP | NetUDP

datatype chan = NilChan | OpenChan | ClosedChan

record entry =
  e_ID :: string
  e_StartTime :: int
  e_InboundNet :: network
  e_Inbound :: protocol
  e_Source :: string
  e_Host :: string
  e_Target :: string
  e_Proxy :: string
  e_Upload :: i64
  e_Download :: i64
  e_cancel :: chan
  e_closed :: bool

record manager =
  m_obj :: "eref \<Rightarrow> entry"
  m_next :: eref
  m_entries :: "string \<rightharpoonup> eref"

text \<open>The string value of the two string types.\<close>

fun protocol_string :: "protocol \<Rightarrow> string" where
  "protocol_string ProtoHTTP = ''HTTP''"
| "protocol_string ProtoSOCKS5 = ''SOCKS5''"

fun network_string :: "network \<Rightarrow> string" where
  "network_string NetTCP = ''TCP''"
| "network_string NetUDP = ''UDP''"

record view =
  w_ID :: string
  w_StartTime :: int
  w_Inbound :: string
  w_Network :: string
  w_Source :: string
  w_Host :: string
  w_Target :: string
  w_Proxy :: string
  w_Upload :: int
  w_Download :: int
  w_Closed :: bool

definition zero_entry :: entry where
  "zero_entry = \<lparr>e_ID = [], e_StartTime = 0, e_InboundNet = NetTCP, e_Inbound = ProtoHTTP,
     e_Source = [], e_Host = [], e_Target = [], e_Proxy = [], e_Upload = 0, e_Download = 0,
     e_cancel = NilChan, e_closed = False\<rparr>"

section \<open>Entries\<close>

definition update_entry :: "eref \<Rightarrow> (entry \<Rightarrow> entry) \<Rightarrow> manager \<Rightarrow> manager" where
  "update_entry r f m = m\<lparr>m_obj := (m_obj m)(r := f (m_obj m r))\<rparr>"

definition Closed :: "eref \<Rightarrow> manager \<Rightarrow> bool" where
  "Closed r m = e_closed (m_obj m r)"

definition AddUpload :: "eref \<Rightarrow> int \<Rightarrow> manager \<Rightarrow> manager" where
  "AddUpload r n m = update_entry r (\<lambda>e. e\<lparr>e_Upload := e_Upload e + of_int n\<rparr>) m"

definition AddDownload :: "eref \<Rightarrow> int \<Rightarrow> manager \<Rightarrow> manager" where
  "AddDownload r n m = update_entry r (\<lambda>e. e\<lparr>e_Download := e_Download e + of_int n\<rparr>) m"

text \<open>\<open>close(c)\<close> on a channel.\<close>

fun close_chan :: "chan \<Rightarrow> go_panic + chan" where
  "close_chan NilChan = Inl CloseOfNilChannel"
| "close_chan ClosedChan = Inl CloseOfClosedChannel"
| "close_chan OpenChan = Inr ClosedChan"

text \<open>\<open>Close\<close>: the compare-and-swap lets one caller through, who closes the channel.\<close>

definition Entry_Close :: "eref \<Rightarrow> manager \<Rightarrow> go_panic + manager" where
  "Entry_Close r m =
     (if e_closed (m_obj m r) then Inr m
      else
        (let m1 = update_entry r (\<lambda>e. e\<lparr>e_closed := True\<rparr>) m in
         case close_chan (e_cancel (m_obj m1 r)) of
           Inl p \<Rightarrow> Inl p
         | Inr c \<Rightarrow> Inr (update_entry r (\<lambda>e. e\<lparr>e_cancel := c\<rparr>) m1)))"

text \<open>\<open>Done\<close>: the channel a copy loop listens on; it fires when it is closed.\<close>

definition Done :: "eref \<Rightarrow> manager \<Rightarrow> chan" where
  "Done r m = e_cancel (m_obj m r)"

section \<open>Manager\<close>

definition NewManager :: manager where
  "NewManager = \<lparr>m_obj = (\<lambda>_. zero_entry), m_next = 0, m_entries = Map.empty\<rparr>"

text \<open>\<open>&Entry{...}\<close>.\<close>

definition new_entry :: "entry \<Rightarrow> manager \<Rightarrow> eref \<times> manager" where
  "new_entry e m =
     (m_next m, m\<lparr>m_obj := (m_obj m)(m_next m := e), m_next := Suc (m_next m)\<rparr>)"

definition Register :: "eref \<Rightarrow> manager \<Rightarrow> manager" where
  "Register r m =
     (let m1 = (if e_cancel (m_obj m r) = NilChan
                then update_entry r (\<lambda>e. e\<lparr>e_cancel := OpenChan\<rparr>) m else m)
      in m1\<lparr>m_entries := (m_entries m1)(e_ID (m_obj m1 r) \<mapsto> r)\<rparr>)"

definition Unregister :: "string \<Rightarrow> manager \<Rightarrow> manager" where
  "Unregister i m = m\<lparr>m_entries := (m_entries m)(i := None)\<rparr>"

definition Manager_Get :: "string \<Rightarrow> manager \<Rightarrow> eref option" where
  "Manager_Get i m = m_entries m i"

text \<open>
  Go leaves the order of a loop over a map open, so the operations that loop take the
  order, a list of the identifiers. The entries collected are those the map holds.
\<close>

definition collect :: "string list \<Rightarrow> manager \<Rightarrow> eref list" where
  "collect order m = List.map_filter (m_entries m) order"

definition view_entry :: "entry \<Rightarrow> view" where
  "view_entry e = \<lparr>w_ID = e_ID e, w_StartTime = e_StartTime e,
     w_Inbound = protocol_string (e_Inbound e), w_Network = network_string (e_InboundNet e),
     w_Source = e_Source e, w_Host = e_Host e, w_Target = e_Target e, w_Proxy = e_Proxy e,
     w_Upload = sint (e_Upload e), w_Download = sint (e_Download e), w_Closed = e_closed e\<rparr>"

definition Manager_Snapshot :: "string list \<Rightarrow> manager \<Rightarrow> view list" where
  "Manager_Snapshot order m = map (\<lambda>r. view_entry (m_obj m r)) (collect order m)"

fun close_each :: "eref list \<Rightarrow> manager \<Rightarrow> go_panic + manager" where
  "close_each [] m = Inr m"
| "close_each (r # rs) m =
     (case Entry_Close r m of Inl p \<Rightarrow> Inl p | Inr m' \<Rightarrow> close_each rs m')"

definition CloseAll :: "string list \<Rightarrow> manager \<Rightarrow> go_panic + manager" where
  "CloseAll order m = close_each (collect order m) m"

section \<open>The registry interface\<close>

text \<open>
  What a connection handler relies on: its entry can be found under its identifier from
  \<open>register\<close> to \<open>unregister\<close>, and other identifiers do not notice.
\<close>

locale connection_registry =
  fixes register :: "'r \<Rightarrow> 'm \<Rightarrow> 'm"
    and unregister :: "string \<Rightarrow> 'm \<Rightarrow> 'm"
    and get :: "string \<Rightarrow> 'm \<Rightarrow> 'r option"
    and key :: "'r \<Rightarrow> 'm \<Rightarrow> string"
  assumes get_register: "get k (register r m) = (if k = key r m then Some r else get k m)"
    and get_unregister: "get k (unregister k' m) = (if k = k' then None else get k m)"
    and key_register: "key r (register s m) = key r m"
    and key_unregister: "key r (unregister k m) = key r m"
begin

lemma session_visible: "get (key r m) (register r m) = Some r"
  by (simp add: get_register)

lemma session_restores:
  "get (key r m) m = None \<Longrightarrow> get k (unregister (key r m) (register r m)) = get k m"
  by (simp add: get_register get_unregister)

lemma sessions_independent:
  "key r m \<noteq> key s m \<Longrightarrow>
   get (key s m) (unregister (key r m) (register s (register r m))) = Some s"
  by (simp add: get_register get_unregister key_register)

lemma unregister_twice: "get k (unregister i (unregister i m)) = get k (unregister i m)"
  by (simp add: get_unregister)

end

lemma update_entry_simps [simp]:
  "m_entries (update_entry r f m) = m_entries m" "m_next (update_entry r f m) = m_next m"
  "m_obj (update_entry r f m) s = (if s = r then f (m_obj m r) else m_obj m s)"
  by (simp_all add: update_entry_def)

lemma Register_simps [simp]:
  "m_entries (Register r m) = (m_entries m)(e_ID (m_obj m r) \<mapsto> r)"
  "m_next (Register r m) = m_next m"
  "m_obj (Register r m) s = (if s = r \<and> e_cancel (m_obj m r) = NilChan
     then (m_obj m r)\<lparr>e_cancel := OpenChan\<rparr> else m_obj m s)"
  by (simp_all add: Register_def Let_def)

lemma Unregister_simps [simp]:
  "m_entries (Unregister i m) = (m_entries m)(i := None)"
  "m_next (Unregister i m) = m_next m" "m_obj (Unregister i m) = m_obj m"
  by (simp_all add: Unregister_def)

interpretation cm: connection_registry Register Unregister Manager_Get "\<lambda>r m. e_ID (m_obj m r)"
  by unfold_locales (auto simp: Manager_Get_def)

section \<open>Invariant\<close>

text \<open>
  The closed flag of every entry agrees with its channel, and an entry that the map holds
  has a channel, has been allocated, and is found under its own identifier.
\<close>

definition chan_ok :: "entry \<Rightarrow> bool" where
  "chan_ok e \<longleftrightarrow> (e_closed e \<longleftrightarrow> e_cancel e = ClosedChan)"

definition cm_ok :: "manager \<Rightarrow> bool" where
  "cm_ok m \<longleftrightarrow> (\<forall>r. chan_ok (m_obj m r)) \<and>
     (\<forall>i r. m_entries m i = Some r \<longrightarrow>
        r < m_next m \<and> e_ID (m_obj m r) = i \<and> e_cancel (m_obj m r) \<noteq> NilChan)"

lemma cm_okD:
  assumes "cm_ok m"
  shows "chan_ok (m_obj m r)"
    and "m_entries m i = Some r \<Longrightarrow> r < m_next m"
    and "m_entries m i = Some r \<Longrightarrow> e_ID (m_obj m r) = i"
    and "m_entries m i = Some r \<Longrightarrow> e_cancel (m_obj m r) \<noteq> NilChan"
  using assms by (auto simp: cm_ok_def)

lemma cm_ok_NewManager: "cm_ok NewManager"
  by (simp add: cm_ok_def NewManager_def zero_entry_def chan_ok_def)

lemma cm_ok_new_entry:
  assumes "cm_ok m" and "chan_ok e" and "new_entry e m = (r, m')"
  shows "cm_ok m'" and "r < m_next m'" and "m_obj m' r = e" and "m_entries m' = m_entries m"
proof -
  have m': "m' = m\<lparr>m_obj := (m_obj m)(m_next m := e), m_next := Suc (m_next m)\<rparr>"
    and r: "r = m_next m"
    using assms(3) by (auto simp: new_entry_def)
  have "s \<noteq> m_next m" if "m_entries m i = Some s" for i s
    using cm_okD(2) [OF assms(1) that] by simp
  with assms(1,2) show "cm_ok m'"
    by (auto simp: m' cm_ok_def intro: less_SucI)
  show "r < m_next m'" and "m_obj m' r = e" and "m_entries m' = m_entries m"
    by (simp_all add: m' r)
qed

lemma cm_ok_Register: "cm_ok m \<Longrightarrow> r < m_next m \<Longrightarrow> cm_ok (Register r m)"
  by (auto simp: cm_ok_def chan_ok_def split: if_splits)

lemma cm_ok_Unregister: "cm_ok m \<Longrightarrow> cm_ok (Unregister i m)"
  by (auto simp: cm_ok_def split: if_splits)

lemma cm_ok_AddUpload: "cm_ok m \<Longrightarrow> cm_ok (AddUpload r n m)"
  by (auto simp: cm_ok_def AddUpload_def chan_ok_def)

lemma cm_ok_AddDownload: "cm_ok m \<Longrightarrow> cm_ok (AddDownload r n m)"
  by (auto simp: cm_ok_def AddDownload_def chan_ok_def)

text \<open>\<open>Close\<close> on an entry with a channel: what it does, completely.\<close>

definition mark_closed :: "eref \<Rightarrow> manager \<Rightarrow> manager" where
  "mark_closed r m = update_entry r (\<lambda>e. e\<lparr>e_closed := True, e_cancel := ClosedChan\<rparr>) m"

lemma Entry_Close_eq:
  assumes "chan_ok (m_obj m r)" and "e_cancel (m_obj m r) \<noteq> NilChan"
  shows "Entry_Close r m = Inr (mark_closed r m)"
proof (cases "e_cancel (m_obj m r)")
  case OpenChan
  with assms show ?thesis
    by (simp add: Entry_Close_def chan_ok_def mark_closed_def update_entry_def)
next
  case ClosedChan
  with assms(1) have same: "(m_obj m r)\<lparr>e_closed := True, e_cancel := ClosedChan\<rparr> = m_obj m r"
    by (simp add: chan_ok_def)
  have "mark_closed r m = m"
    by (simp only: mark_closed_def update_entry_def same fun_upd_triv) simp
  with ClosedChan assms(1) show ?thesis by (simp add: Entry_Close_def chan_ok_def)
qed (use assms in simp)

lemma mark_closed_simps [simp]:
  "m_entries (mark_closed r m) = m_entries m" "m_next (mark_closed r m) = m_next m"
  "m_obj (mark_closed r m) s =
     (if s = r then (m_obj m r)\<lparr>e_closed := True, e_cancel := ClosedChan\<rparr> else m_obj m s)"
  by (simp_all add: mark_closed_def)

lemma cm_ok_mark_closed: "cm_ok m \<Longrightarrow> cm_ok (mark_closed r m)"
  by (auto simp: cm_ok_def chan_ok_def)

text \<open>A manager with one connection, to try the statements on.\<close>

definition example_entry :: entry where
  "example_entry = zero_entry\<lparr>e_ID := ''c1'', e_Host := ''example.com''\<rparr>"

definition example_manager :: manager where
  "example_manager = Register 0 (snd (new_entry example_entry NewManager))"

lemma example_new: "new_entry example_entry NewManager = (0, snd (new_entry example_entry NewManager))"
  by (simp add: new_entry_def NewManager_def)

lemma example_entry_simps: "e_ID example_entry = ''c1''" "e_cancel example_entry = NilChan"
  "\<not> e_closed example_entry" "chan_ok example_entry"
  by (simp_all add: example_entry_def zero_entry_def chan_ok_def)

lemma example_manager_ok: "cm_ok example_manager"
  unfolding example_manager_def
  by (intro cm_ok_Register cm_ok_new_entry [OF cm_ok_NewManager example_entry_simps(4) example_new])

lemma example_manager_simps:
  "m_entries example_manager = [''c1'' \<mapsto> 0]" "Manager_Get ''c1'' example_manager = Some 0"
  by (simp_all add: example_manager_def new_entry_def NewManager_def Manager_Get_def example_entry_simps)

text \<open>
  Closing an entry that has been registered never panics, closes its channel, touches no
  other entry and not the registry, and doing it again changes nothing.
\<close>

theorem Close_idempotent:
  assumes "cm_ok m" and "Manager_Get i m = Some r"
  shows "\<exists>m'. Entry_Close r m = Inr m' \<and> Entry_Close r m' = Inr m' \<and> Closed r m' \<and>
    Done r m' = ClosedChan \<and> m_entries m' = m_entries m \<and> (\<forall>s. s \<noteq> r \<longrightarrow> m_obj m' s = m_obj m s)"
proof -
  from assms have ok: "chan_ok (m_obj m r)" "e_cancel (m_obj m r) \<noteq> NilChan"
    by (auto simp: Manager_Get_def dest: cm_okD)
  have again: "Entry_Close r (mark_closed r m) = Inr (mark_closed r m)"
    by (simp add: Entry_Close_def)
  show ?thesis
    by (rule exI [of _ "mark_closed r m"]) (simp add: Entry_Close_eq [OF ok] again Closed_def Done_def)
qed

theorem Close_idempotent_witness:
  "\<exists>m'. Entry_Close 0 example_manager = Inr m' \<and> Entry_Close 0 m' = Inr m' \<and> Closed 0 m'"
  using Close_idempotent [OF example_manager_ok example_manager_simps(2)] by blast

text \<open>What \<open>CloseAll\<close> does to a list of entries with channels.\<close>

lemma close_each_eq:
  assumes "cm_ok m" and "\<forall>r \<in> set rs. e_cancel (m_obj m r) \<noteq> NilChan"
  shows "\<exists>m'. close_each rs m = Inr m' \<and> cm_ok m' \<and> m_entries m' = m_entries m \<and>
    m_next m' = m_next m \<and>
    (\<forall>s. m_obj m' s = (if s \<in> set rs
       then (m_obj m s)\<lparr>e_closed := True, e_cancel := ClosedChan\<rparr> else m_obj m s))"
  using assms
proof (induction rs arbitrary: m)
  case (Cons r rs)
  from Cons.prems have close: "Entry_Close r m = Inr (mark_closed r m)"
    by (intro Entry_Close_eq) (auto simp: cm_ok_def)
  from Cons.prems have "\<forall>s \<in> set rs. e_cancel (m_obj (mark_closed r m) s) \<noteq> NilChan" by simp
  from Cons.IH [OF cm_ok_mark_closed [OF Cons.prems(1)] this] obtain m' where
    m': "close_each rs (mark_closed r m) = Inr m'" "cm_ok m'" "m_entries m' = m_entries m"
      "m_next m' = m_next m" and
    obj: "\<forall>s. m_obj m' s = (if s \<in> set rs
       then (m_obj (mark_closed r m) s)\<lparr>e_closed := True, e_cancel := ClosedChan\<rparr>
       else m_obj (mark_closed r m) s)"
    by auto
  then show ?case using close by (intro exI [of _ m']) auto
qed simp

lemma collect_mem:
  "r \<in> set (collect order m) \<longleftrightarrow> (\<exists>i \<in> set order. m_entries m i = Some r)"
  by (induction order) (auto simp: collect_def List.map_filter_def split: option.splits)

text \<open>
  \<open>CloseAll\<close>, whatever order Go loops over the map in, never panics, leaves the
  registry as it is, closes every connection registered, and no other.
\<close>

theorem CloseAll_closes_all:
  assumes ok: "cm_ok m" and order: "set order = dom (m_entries m)"
  shows "\<exists>m'. CloseAll order m = Inr m' \<and> cm_ok m' \<and> m_entries m' = m_entries m \<and>
    (\<forall>i r. Manager_Get i m = Some r \<longrightarrow> Closed r m' \<and> Done r m' = ClosedChan) \<and>
    (\<forall>s. s \<notin> ran (m_entries m) \<longrightarrow> m_obj m' s = m_obj m s)"
proof -
  have mem: "r \<in> set (collect order m) \<longleftrightarrow> r \<in> ran (m_entries m)" for r
    by (auto simp: collect_mem order ran_def dom_def)
  have "\<forall>r \<in> set (collect order m). e_cancel (m_obj m r) \<noteq> NilChan"
    using cm_okD(4) [OF ok] by (auto simp: collect_mem)
  from close_each_eq [OF ok this] obtain m' where
    m': "CloseAll order m = Inr m'" "cm_ok m'" "m_entries m' = m_entries m" and
    obj: "\<forall>s. m_obj m' s = (if s \<in> ran (m_entries m)
       then (m_obj m s)\<lparr>e_closed := True, e_cancel := ClosedChan\<rparr> else m_obj m s)"
    by (auto simp: CloseAll_def mem)
  have "r \<in> ran (m_entries m)" if "Manager_Get i m = Some r" for i r
    using that by (auto simp: Manager_Get_def ran_def)
  with m' obj show ?thesis
    by (intro exI [of _ m']) (auto simp: Closed_def Done_def)
qed

theorem CloseAll_closes_all_witness:
  "\<exists>m'. CloseAll [''c1''] example_manager = Inr m' \<and> Closed 0 m'"
  using CloseAll_closes_all [OF example_manager_ok, of "[''c1'']"] example_manager_simps by auto

section \<open>Snapshots\<close>

lemma collect_full:
  assumes "distinct order" and "set order = dom (m_entries m)"
  shows "map (\<lambda>r. Some r) (collect order m) = map (m_entries m) order"
proof -
  have "set order \<subseteq> dom (m_entries m) \<Longrightarrow>
      map Some (List.map_filter (m_entries m) order) = map (m_entries m) order"
    by (induction order) (auto simp: List.map_filter_def)
  with assms show ?thesis by (simp add: collect_def)
qed

text \<open>
  A snapshot has one entry per registered connection, in the order of the loop, each
  with the counters of the entry registered under its identifier.
\<close>

theorem Snapshot_complete:
  assumes ok: "cm_ok m" and order: "distinct order" "set order = dom (m_entries m)"
  shows "map w_ID (Manager_Snapshot order m) = order \<and>
    (\<forall>v \<in> set (Manager_Snapshot order m).
       \<exists>r. Manager_Get (w_ID v) m = Some r \<and> v = view_entry (m_obj m r))"
proof
  let ?c = "collect order m"
  have len: "length ?c = length order"
    using collect_full [OF order] by (metis length_map)
  have nth: "m_entries m (order ! k) = Some (?c ! k)" if "k < length order" for k
    using arg_cong [OF collect_full [OF order], of "\<lambda>xs. xs ! k"] that len by simp
  show "map w_ID (Manager_Snapshot order m) = order"
  proof (rule nth_equalityI)
    show "map w_ID (Manager_Snapshot order m) ! k = order ! k"
      if "k < length (map w_ID (Manager_Snapshot order m))" for k
      using that cm_okD(3) [OF ok nth [of k]]
      by (simp add: Manager_Snapshot_def len view_entry_def)
  qed (simp add: Manager_Snapshot_def len)
  show "\<forall>v \<in> set (Manager_Snapshot order m).
       \<exists>r. Manager_Get (w_ID v) m = Some r \<and> v = view_entry (m_obj m r)"
  proof
    fix v assume "v \<in> set (Manager_Snapshot order m)"
    then obtain r where r: "r \<in> set ?c" "v = view_entry (m_obj m r)"
      by (auto simp: Manager_Snapshot_def)
    then obtain i where i: "m_entries m i = Some r" by (auto simp: collect_mem)
    with cm_okD(3) [OF ok i] r(2)
    show "\<exists>r. Manager_Get (w_ID v) m = Some r \<and> v = view_entry (m_obj m r)"
      by (auto simp: Manager_Get_def view_entry_def)
  qed
qed

theorem Snapshot_complete_witness:
  "map w_ID (Manager_Snapshot [''c1''] example_manager) = [''c1'']"
  using Snapshot_complete [OF example_manager_ok, of "[''c1'']"] example_manager_simps by auto

section \<open>Interleaved callers\<close>

text \<open>\<open>entry.Proxy = proxyName\<close>.\<close>

definition SetProxy :: "eref \<Rightarrow> string \<Rightarrow> manager \<Rightarrow> manager" where
  "SetProxy r name m = update_entry r (\<lambda>e. e\<lparr>e_Proxy := name\<rparr>) m"

text \<open>
  The steps of all the goroutines: a handler registers an entry it has just built, counts
  bytes, notes the upstream, closes and unregisters; the API closes entries it has looked
  up, perhaps after the handler has unregistered them.
\<close>

inductive cm_step :: "manager \<Rightarrow> manager \<Rightarrow> bool" where
  step_register: "e_cancel e = NilChan \<Longrightarrow> \<not> e_closed e \<Longrightarrow> new_entry e m = (r, m1) \<Longrightarrow>
    cm_step m (Register r m1)"
| step_unregister: "cm_step m (Unregister i m)"
| step_close: "e_cancel (m_obj m r) \<noteq> NilChan \<Longrightarrow> Entry_Close r m = Inr m' \<Longrightarrow> cm_step m m'"
| step_upload: "cm_step m (AddUpload r n m)"
| step_download: "cm_step m (AddDownload r n m)"
| step_proxy: "cm_step m (SetProxy r name m)"

lemma cm_ok_SetProxy: "cm_ok m \<Longrightarrow> cm_ok (SetProxy r name m)"
  by (auto simp: cm_ok_def SetProxy_def chan_ok_def)

lemma cm_ok_step: "cm_step m m' \<Longrightarrow> cm_ok m \<Longrightarrow> cm_ok m'"
proof (induction rule: cm_step.induct)
  case (step_register e m r m1)
  then have "chan_ok e" by (simp add: chan_ok_def)
  from cm_ok_new_entry [OF step_register.prems this step_register.hyps(3)] show ?case
    by (intro cm_ok_Register)
next
  case (step_close m r m')
  then have "m' = mark_closed r m"
    using Entry_Close_eq [of m r] by (simp add: cm_okD)
  with step_close show ?case by (simp add: cm_ok_mark_closed)
qed (simp_all add: cm_ok_Unregister cm_ok_AddUpload cm_ok_AddDownload cm_ok_SetProxy)

interpretation cm_sys: invariant_system "\<lambda>m. m = NewManager" cm_step cm_ok
proof unfold_locales
  show "cm_ok m" if "m = NewManager" for m using that cm_ok_NewManager by simp
  show "cm_ok m'" if "cm_ok m" "cm_step m m'" for m m' using cm_ok_step [OF that(2,1)] .
qed

text \<open>A connection that is closed stays closed: no step reopens one.\<close>

lemma closed_stable:
  assumes "cm_step m m'" and "cm_ok m" and "r < m_next m" and "Closed r m"
  shows "Closed r m' \<and> r < m_next m'"
  using assms
proof (induction rule: cm_step.induct)
  case (step_register e m s m1)
  then show ?case by (auto simp: new_entry_def Closed_def)
next
  case (step_close m s m')
  then have "m' = mark_closed s m"
    using Entry_Close_eq [of m s] by (simp add: cm_okD)
  with step_close show ?case by (simp add: Closed_def)
qed (auto simp: Closed_def AddUpload_def AddDownload_def SetProxy_def)

lemma cm_reach_invs:
  assumes "reach (\<lambda>m. m = NewManager) cm_step m"
  shows "cm_ok m"
  using assms by (rule cm_sys.reach_inv)

text \<open>
  C30. In every state the program can reach, with any number of handlers and API calls
  interleaved: whoever looks a connection up and closes it does not panic, and after the
  close every later state still has that connection closed.
\<close>

theorem close_is_safe_and_final:
  assumes "reach (\<lambda>m. m = NewManager) cm_step m" and "Manager_Get i m = Some r"
  shows "\<exists>m'. Entry_Close r m = Inr m' \<and> cm_step m m' \<and>
    (\<forall>m''. reach (\<lambda>x. x = m') cm_step m'' \<longrightarrow> Closed r m'')"
proof -
  have ok: "cm_ok m" using assms(1) by (rule cm_reach_invs)
  have r: "e_cancel (m_obj m r) \<noteq> NilChan" "r < m_next m"
    using assms(2) cm_okD [OF ok] by (simp_all add: Manager_Get_def)
  have close: "Entry_Close r m = Inr (mark_closed r m)"
    using r(1) cm_okD(1) [OF ok] by (rule Entry_Close_eq [rotated])
  have "cm_ok m'' \<and> r < m_next m'' \<and> Closed r m''"
    if "reach (\<lambda>x. x = mark_closed r m) cm_step m''" for m''
    using that
  proof (induction rule: reach.induct)
    case (reach_start s)
    then show ?case using cm_ok_mark_closed [OF ok] r(2) by (simp add: Closed_def)
  next
    case (reach_step s t)
    then show ?case using closed_stable cm_ok_step by blast
  qed
  with close step_close [OF r(1) close] show ?thesis by blast
qed

theorem close_is_safe_and_final_witness:
  "\<exists>m'. Entry_Close 0 example_manager = Inr m' \<and> cm_step example_manager m'"
proof -
  have "cm_step NewManager example_manager"
    unfolding example_manager_def
    by (rule step_register [OF example_entry_simps(2,3) example_new])
  with reach_start have "reach (\<lambda>m. m = NewManager) cm_step example_manager"
    by (rule reach_step) simp
  from close_is_safe_and_final [OF this example_manager_simps(2)] show ?thesis by blast
qed

text \<open>
  The bracket every connection handler puts around its work, registering a fresh
  identifier and unregistering it at the end, makes the connection visible under its
  identifier and afterwards leaves every lookup as it was, even when the API has closed
  the entry in between.
\<close>

theorem session_bracket:
  assumes ok: "cm_ok m" and fresh: "Manager_Get (e_ID e) m = None"
    and e: "e_cancel e = NilChan" "\<not> e_closed e" and new: "new_entry e m = (r, m1)"
  shows "Manager_Get (e_ID e) (Register r m1) = Some r \<and> \<not> Closed r (Register r m1) \<and>
    (\<exists>m2. Entry_Close r (Register r m1) = Inr m2 \<and>
       (\<forall>i. Manager_Get i (Unregister (e_ID e) m2) = Manager_Get i m))"
proof -
  have "chan_ok e" using e by (simp add: chan_ok_def)
  note n = cm_ok_new_entry [OF ok this new]
  have reg: "cm_ok (Register r m1)" using n by (intro cm_ok_Register)
  have key: "e_ID (m_obj m1 r) = e_ID e" by (simp add: n(3))
  have vis: "Manager_Get (e_ID e) (Register r m1) = Some r"
    using cm.session_visible [of m1 r] by (simp add: key)
  let ?m2 = "mark_closed r (Register r m1)"
  have m2: "Entry_Close r (Register r m1) = Inr ?m2"
    by (rule Entry_Close_eq [OF cm_okD(1) [OF reg] cm_okD(4) [OF reg vis [unfolded Manager_Get_def]]])
  have "Manager_Get (e_ID (m_obj m1 r)) m1 = None"
    using fresh n(4) by (simp add: key Manager_Get_def)
  from cm.session_restores [OF this]
  have "Manager_Get i (Unregister (e_ID e) ?m2) = Manager_Get i m" for i
    using n(4) by (simp add: key Manager_Get_def)
  with vis m2 show ?thesis by (auto simp: Closed_def n(3) e)
qed

theorem session_bracket_witness:
  "Manager_Get ''c1'' example_manager = Some 0 \<and> \<not> Closed 0 example_manager"
  using session_bracket [OF cm_ok_NewManager _ example_entry_simps(2,3) example_new]
  by (simp add: example_manager_def example_entry_simps) (simp add: Manager_Get_def NewManager_def)

end
