(* ===== verification/Pipe.thy ===== *)
theory Pipe
  imports NetConn ConnTrack
begin

text \<open>
  The tunnel (\<open>pipe\<close> in \<open>internal/proxy/http.go\<close>): two copying goroutines and the one
  that waits for them or for the entry to be closed. Each goroutine moves in steps as fine
  as its calls, so that a connection may be closed between the read and the write of a
  chunk. A step relation over the whole state covers all the interleavings with each other,
  with the API closing the entry and with the read deadline passing.
\<close>

section \<open>State\<close>

datatype copier = Reading | Writing "byte list" | Stopped

datatype waiter = Selecting | AwaitOther | Returned

record pipe =
  pi_client :: conn
  pi_upstream :: conn
  pi_cm :: manager
  pi_entry :: eref
  pi_up :: copier
  pi_down :: copier
  pi_signals :: nat
  pi_main :: waiter
  pi_late :: bool

definition pipe_buf :: nat where
  "pipe_buf = 32 * 1024"

text \<open>
  One \<open>Read\<close> into the buffer: at most 32 KiB of one segment, the end of the stream, or
  an error when the connection is closed or its deadline has passed.
\<close>

fun readSome :: "bool \<Rightarrow> byte list list \<Rightarrow> (io_error + byte list) \<times> byte list list" where
  "readSome late [] = (if late then Inl DeadlineExceeded else Inl EOF, [])"
| "readSome late (s # ss) =
     (if late then (Inl DeadlineExceeded, s # ss)
      else if s = [] then readSome late ss
      else if length s \<le> pipe_buf then (Inr s, ss)
      else (Inr (take pipe_buf s), drop pipe_buf s # ss))"

definition readConn :: "bool \<Rightarrow> (io_error, byte list) io" where
  "readConn late c =
     (if c_closed c then (Inl UseOfClosed, c)
      else case readSome (late \<and> c_deadline c) (c_in c) of (r, rest) \<Rightarrow> (r, c\<lparr>c_in := rest\<rparr>))"

definition init_pipe :: "conn \<Rightarrow> conn \<Rightarrow> eref \<Rightarrow> manager \<Rightarrow> pipe" where
  "init_pipe client upstream r m = \<lparr>pi_client = client, pi_upstream = upstream, pi_cm = m,
     pi_entry = r, pi_up = Reading, pi_down = Reading, pi_signals = 0, pi_main = Selecting,
     pi_late = False\<rparr>"

section \<open>Steps of the three goroutines\<close>

text \<open>
  The upload loop: read and count, then write; a failed read or write leaves the loop and
  signals.
\<close>

definition up_read :: "pipe \<Rightarrow> pipe" where
  "up_read s =
     (case readConn (pi_late s) (pi_client s) of
        (Inr bs, c) \<Rightarrow> s\<lparr>pi_client := c, pi_cm := AddUpload (pi_entry s) (int (length bs)) (pi_cm s),
                        pi_up := Writing bs\<rparr>
      | (Inl e, c) \<Rightarrow> s\<lparr>pi_client := c, pi_up := Stopped, pi_signals := pi_signals s + 1\<rparr>)"

definition up_write :: "byte list \<Rightarrow> pipe \<Rightarrow> pipe" where
  "up_write bs s =
     (case writeConn bs (pi_upstream s) of
        (Inr _, c) \<Rightarrow> s\<lparr>pi_upstream := c, pi_up := Reading\<rparr>
      | (Inl e, c) \<Rightarrow> s\<lparr>pi_upstream := c, pi_up := Stopped, pi_signals := pi_signals s + 1\<rparr>)"

definition down_read :: "pipe \<Rightarrow> pipe" where
  "down_read s =
     (case readConn (pi_late s) (pi_upstream s) of
        (Inr bs, c) \<Rightarrow> s\<lparr>pi_upstream := c, pi_cm := AddDownload (pi_entry s) (int (length bs)) (pi_cm s),
                        pi_down := Writing bs\<rparr>
      | (Inl e, c) \<Rightarrow> s\<lparr>pi_upstream := c, pi_down := Stopped, pi_signals := pi_signals s + 1\<rparr>)"

definition down_write :: "byte list \<Rightarrow> pipe \<Rightarrow> pipe" where
  "down_write bs s =
     (case writeConn bs (pi_client s) of
        (Inr _, c) \<Rightarrow> s\<lparr>pi_client := c, pi_down := Reading\<rparr>
      | (Inl e, c) \<Rightarrow> s\<lparr>pi_client := c, pi_down := Stopped, pi_signals := pi_signals s + 1\<rparr>)"

definition close_both :: "pipe \<Rightarrow> pipe" where
  "close_both s = s\<lparr>pi_client := closeConn (pi_client s), pi_upstream := closeConn (pi_upstream s)\<rparr>"

text \<open>The two branches of the \<open>select\<close>, and the second receive of the second.\<close>

definition take_done :: "pipe \<Rightarrow> pipe" where
  "take_done s = (close_both s)\<lparr>pi_main := Returned\<rparr>"

definition take_signal :: "pipe \<Rightarrow> pipe" where
  "take_signal s = (close_both s)\<lparr>pi_signals := pi_signals s - 1, pi_main := AwaitOther\<rparr>"

definition take_other :: "pipe \<Rightarrow> pipe" where
  "take_other s = s\<lparr>pi_signals := pi_signals s - 1, pi_main := Returned\<rparr>"

text \<open>A step of the pipe itself.\<close>

inductive pipe_step :: "pipe \<Rightarrow> pipe \<Rightarrow> bool" where
  up_reads: "pi_up s = Reading \<Longrightarrow> pipe_step s (up_read s)"
| up_writes: "pi_up s = Writing bs \<Longrightarrow> pipe_step s (up_write bs s)"
| down_reads: "pi_down s = Reading \<Longrightarrow> pipe_step s (down_read s)"
| down_writes: "pi_down s = Writing bs \<Longrightarrow> pipe_step s (down_write bs s)"
| main_done: "pi_main s = Selecting \<Longrightarrow> Done (pi_entry s) (pi_cm s) = ClosedChan \<Longrightarrow>
    pipe_step s (take_done s)"
| main_signal: "pi_main s = Selecting \<Longrightarrow> 0 < pi_signals s \<Longrightarrow> pipe_step s (take_signal s)"
| main_other: "pi_main s = AwaitOther \<Longrightarrow> 0 < pi_signals s \<Longrightarrow> pipe_step s (take_other s)"

inductive_cases pipe_stepE: "pipe_step s t"

text \<open>
  What happens around it: other goroutines change the registry, but only the pipe counts the
  bytes of its entry; and the read deadline of the client passes.
\<close>

inductive outer_step :: "pipe \<Rightarrow> pipe \<Rightarrow> bool" where
  registry: "cm_step (pi_cm s) m \<Longrightarrow>
    e_Upload (m_obj m (pi_entry s)) = e_Upload (m_obj (pi_cm s) (pi_entry s)) \<Longrightarrow>
    e_Download (m_obj m (pi_entry s)) = e_Download (m_obj (pi_cm s) (pi_entry s)) \<Longrightarrow>
    outer_step s (s\<lparr>pi_cm := m\<rparr>)"
| deadline: "outer_step s (s\<lparr>pi_late := True\<rparr>)"

definition world_step :: "pipe \<Rightarrow> pipe \<Rightarrow> bool" where
  "world_step s t \<longleftrightarrow> pipe_step s t \<or> outer_step s t"

section \<open>Reading\<close>

lemma readSome_Inr:
  "readSome late ss = (Inr bs, rest) \<Longrightarrow> concat ss = bs @ concat rest \<and> bs \<noteq> [] \<and> \<not> late"
  by (induction late ss rule: readSome.induct) (auto split: if_splits simp: pipe_buf_def)

lemma readSome_Inl:
  "readSome late ss = (Inl e, rest) \<Longrightarrow> concat rest = concat ss \<and> (late \<or> e = EOF \<and> concat ss = [])"
  by (induction late ss rule: readSome.induct) (auto split: if_splits)

lemma readSome_late: "readSome True ss = (Inl DeadlineExceeded, ss)"
  by (cases ss) simp_all

lemma readConn_Inr:
  assumes "readConn late c = (Inr bs, c')"
  shows "pending c = bs @ pending c'" and "bs \<noteq> []" and "c_out c' = c_out c"
    and "c_closed c' = c_closed c" and "c_deadline c' = c_deadline c" and "\<not> c_closed c"
  using assms readSome_Inr [of "late \<and> c_deadline c" "c_in c" bs]
  by (auto simp: readConn_def pending_def split: if_splits prod.splits)

lemma readConn_Inl:
  assumes "readConn late c = (Inl e, c')"
  shows "pending c' = pending c" and "c_out c' = c_out c" and "c_closed c' = c_closed c"
    and "c_deadline c' = c_deadline c"
    and "c_closed c \<or> (late \<and> c_deadline c) \<or> pending c = []"
  using assms readSome_Inl [of "late \<and> c_deadline c" "c_in c" e]
  by (auto simp: readConn_def pending_def split: if_splits prod.splits)

lemma readConn_closed: "c_closed c \<Longrightarrow> readConn late c = (Inl UseOfClosed, c)"
  by (simp add: readConn_def)

lemma writeConn_closed: "c_closed c \<Longrightarrow> writeConn bs c = (Inl UseOfClosed, c)"
  by (simp add: writeConn_def)

section \<open>One direction\<close>

text \<open>
  What a copying loop may have done: it took a prefix of what the source had to say, and the
  destination got exactly that, except for the chunk held between read and write. The
  counter is the number of bytes taken. A loop that has stopped had a reason: a chunk it
  could not write, or a source that was closed, exhausted or past its deadline.
\<close>

definition flow :: "conn \<Rightarrow> conn \<Rightarrow> conn \<Rightarrow> conn \<Rightarrow> copier \<Rightarrow> bool \<Rightarrow> i64 \<Rightarrow> bool" where
  "flow src0 src dst0 dst cp late n \<longleftrightarrow>
     (\<exists>sent held. pending src0 = sent @ held @ pending src \<and> c_out dst = c_out dst0 @ sent \<and>
        n = of_nat (length (sent @ held)) \<and>
        (case cp of
           Reading \<Rightarrow> held = []
         | Writing bs \<Rightarrow> held = bs
         | Stopped \<Rightarrow> held \<noteq> [] \<and> (c_closed dst \<or> c_wlim dst \<noteq> None) \<or>
             c_closed src \<or> pending src = [] \<or> late \<and> c_deadline src))"

lemma flow_init: "flow src src dst dst Reading late 0"
  by (simp add: flow_def)

lemma flow_read:
  assumes "flow src0 src dst0 dst Reading late n" and "readConn l src = (Inr bs, src')"
  shows "flow src0 src' dst0 dst (Writing bs) late (n + of_int (int (length bs)))"
  using assms(1) readConn_Inr(1) [OF assms(2)] by (auto simp: flow_def)

lemma flow_read_fails:
  assumes "flow src0 src dst0 dst Reading late n" and "readConn late src = (Inl e, src')"
  shows "flow src0 src' dst0 dst Stopped late n"
  using assms(1) readConn_Inl [OF assms(2)] by (auto simp: flow_def)

lemma flow_write:
  assumes "flow src0 src dst0 dst (Writing bs) late n" and "writeConn bs dst = (Inr u, dst')"
  shows "flow src0 src dst0 dst' Reading late n"
  using assms(1) writeConn_Inr(1) [OF assms(2)] by (auto simp: flow_def)

lemma flow_write_fails:
  assumes "flow src0 src dst0 dst (Writing bs) late n" and "writeConn bs dst = (Inl e, dst')"
    and "bs \<noteq> []"
  shows "flow src0 src dst0 dst' Stopped late n"
proof -
  have "dst' = dst" and "c_closed dst \<or> c_wlim dst \<noteq> None"
    using assms(2) by (auto simp: writeConn_def split: if_splits option.splits nat.splits)
  with assms(1,3) show ?thesis by (auto simp: flow_def)
qed

text \<open>What the other direction, the closing and the clock do does not disturb it.\<close>

lemma flow_cong:
  assumes "flow src0 src dst0 dst cp late n" and "pending src' = pending src"
    and "c_closed src \<Longrightarrow> c_closed src'" and "c_deadline src' = c_deadline src"
    and "c_out dst' = c_out dst" and "c_closed dst \<Longrightarrow> c_closed dst'"
    and "c_wlim dst' = c_wlim dst" and "late \<Longrightarrow> late'"
  shows "flow src0 src' dst0 dst' cp late' n"
  using assms by (cases cp) (auto simp: flow_def)

section \<open>The invariant\<close>

definition stopped_count :: "pipe \<Rightarrow> nat" where
  "stopped_count s = (if pi_up s = Stopped then 1 else 0) + (if pi_down s = Stopped then 1 else 0)"

definition signals_ok :: "pipe \<Rightarrow> bool" where
  "signals_ok s \<longleftrightarrow>
     (case pi_main s of
        Selecting \<Rightarrow> pi_signals s = stopped_count s
      | AwaitOther \<Rightarrow> pi_signals s + 1 = stopped_count s
      | Returned \<Rightarrow> pi_signals s = stopped_count s \<or> stopped_count s = 2) \<and>
     (pi_main s = Selecting \<or> c_closed (pi_client s) \<and> c_closed (pi_upstream s))"

definition chunks_ok :: "pipe \<Rightarrow> bool" where
  "chunks_ok s \<longleftrightarrow> pi_up s \<noteq> Writing [] \<and> pi_down s \<noteq> Writing []"

definition flows_ok :: "conn \<Rightarrow> conn \<Rightarrow> pipe \<Rightarrow> bool" where
  "flows_ok c0 u0 s \<longleftrightarrow>
     flow c0 (pi_client s) u0 (pi_upstream s) (pi_up s) (pi_late s)
       (e_Upload (m_obj (pi_cm s) (pi_entry s))) \<and>
     flow u0 (pi_upstream s) c0 (pi_client s) (pi_down s) (pi_late s)
       (e_Download (m_obj (pi_cm s) (pi_entry s)))"

definition pipe_inv :: "conn \<Rightarrow> conn \<Rightarrow> pipe \<Rightarrow> bool" where
  "pipe_inv c0 u0 s \<longleftrightarrow> signals_ok s \<and> chunks_ok s \<and> flows_ok c0 u0 s"

definition pipe_start :: "conn \<Rightarrow> conn \<Rightarrow> pipe \<Rightarrow> bool" where
  "pipe_start c0 u0 s \<longleftrightarrow> (\<exists>r m. s = init_pipe c0 u0 r m \<and>
     e_Upload (m_obj m r) = 0 \<and> e_Download (m_obj m r) = 0)"

lemma pipe_inv_start: "pipe_start c0 u0 s \<Longrightarrow> pipe_inv c0 u0 s"
  by (auto simp: pipe_start_def pipe_inv_def init_pipe_def signals_ok_def chunks_ok_def flows_ok_def
      stopped_count_def flow_init)

lemma counters [simp]:
  "e_Upload (m_obj (AddUpload r n m) s) = e_Upload (m_obj m s) + (if s = r then of_int n else 0)"
  "e_Download (m_obj (AddUpload r n m) s) = e_Download (m_obj m s)"
  "e_Download (m_obj (AddDownload r n m) s) = e_Download (m_obj m s) + (if s = r then of_int n else 0)"
  "e_Upload (m_obj (AddDownload r n m) s) = e_Upload (m_obj m s)"
  by (simp_all add: AddUpload_def AddDownload_def)

lemma stopped_count_le: "stopped_count s \<le> 2"
  by (simp add: stopped_count_def)

lemma signals_copier:
  assumes "signals_ok s" and "pi_main t = pi_main s"
    and "pi_signals t + stopped_count s = pi_signals s + stopped_count t"
    and "stopped_count s \<le> stopped_count t"
    and "c_closed (pi_client t) = c_closed (pi_client s)"
    and "c_closed (pi_upstream t) = c_closed (pi_upstream s)"
  shows "signals_ok t"
  using assms stopped_count_le [of t] by (cases "pi_main s") (auto simp: signals_ok_def)

lemma writeConn_frame:
  assumes "writeConn bs c = (r, c')"
  shows "pending c' = pending c" "c_closed c' = c_closed c" "c_deadline c' = c_deadline c"
  using assms by (auto simp: writeConn_def pending_def split: if_splits option.splits nat.splits)

lemma readConn_frame:
  assumes "readConn l c = (r, c')"
  shows "c_out c' = c_out c" "c_closed c' = c_closed c" "c_deadline c' = c_deadline c"
    "c_wlim c' = c_wlim c"
  using assms by (auto simp: readConn_def split: if_splits prod.splits)

lemma inv_up_read:
  assumes inv: "pipe_inv c0 u0 s" and r: "pi_up s = Reading"
  shows "pipe_inv c0 u0 (up_read s)"
proof -
  obtain x c where x: "readConn (pi_late s) (pi_client s) = (x, c)"
    by (cases "readConn (pi_late s) (pi_client s)")
  note frame = readConn_frame [OF x]
  have up: "flow c0 (pi_client s) u0 (pi_upstream s) Reading (pi_late s)
      (e_Upload (m_obj (pi_cm s) (pi_entry s)))"
    and down: "flow u0 (pi_upstream s) c0 (pi_client s) (pi_down s) (pi_late s)
      (e_Download (m_obj (pi_cm s) (pi_entry s)))"
    using inv r by (simp_all add: pipe_inv_def flows_ok_def)
  have down': "flow u0 (pi_upstream s) c0 c (pi_down s) (pi_late s)
      (e_Download (m_obj (pi_cm s) (pi_entry s)))"
    by (rule flow_cong [OF down]) (simp_all add: frame)
  have "signals_ok (up_read s)"
    using inv x r frame
    by (intro signals_copier [of s "up_read s"])
      (auto simp: pipe_inv_def up_read_def stopped_count_def split: sum.split)
  moreover have "chunks_ok (up_read s)"
    using inv x readConn_Inr(2) [of "pi_late s" "pi_client s"]
    by (auto simp: pipe_inv_def up_read_def chunks_ok_def split: sum.split)
  moreover have "flows_ok c0 u0 (up_read s)"
    using x down' flow_read [OF up, of "pi_late s" _ c] flow_read_fails [OF up, of _ c]
    by (cases x) (simp_all add: up_read_def flows_ok_def)
  ultimately show ?thesis by (simp add: pipe_inv_def)
qed

lemma inv_up_write:
  assumes inv: "pipe_inv c0 u0 s" and r: "pi_up s = Writing bs"
  shows "pipe_inv c0 u0 (up_write bs s)"
proof -
  obtain x c where x: "writeConn bs (pi_upstream s) = (x, c)"
    by (cases "writeConn bs (pi_upstream s)")
  note frame = writeConn_frame [OF x]
  have up: "flow c0 (pi_client s) u0 (pi_upstream s) (Writing bs) (pi_late s)
      (e_Upload (m_obj (pi_cm s) (pi_entry s)))" and ne: "bs \<noteq> []"
    and down: "flow u0 (pi_upstream s) c0 (pi_client s) (pi_down s) (pi_late s)
      (e_Download (m_obj (pi_cm s) (pi_entry s)))"
    using inv r by (auto simp: pipe_inv_def flows_ok_def chunks_ok_def)
  have down': "flow u0 c c0 (pi_client s) (pi_down s) (pi_late s)
      (e_Download (m_obj (pi_cm s) (pi_entry s)))"
    by (rule flow_cong [OF down]) (simp_all add: frame)
  have "signals_ok (up_write bs s)"
    using inv x r frame
    by (intro signals_copier [of s "up_write bs s"])
      (auto simp: pipe_inv_def up_write_def stopped_count_def split: sum.split)
  moreover have "chunks_ok (up_write bs s)"
    using inv x by (auto simp: pipe_inv_def up_write_def chunks_ok_def split: sum.split)
  moreover have "flows_ok c0 u0 (up_write bs s)"
    using x down' flow_write [OF up, of _ c] flow_write_fails [OF up _ ne, of _ c]
    by (cases x) (simp_all add: up_write_def flows_ok_def)
  ultimately show ?thesis by (simp add: pipe_inv_def)
qed

lemma inv_down_read:
  assumes inv: "pipe_inv c0 u0 s" and r: "pi_down s = Reading"
  shows "pipe_inv c0 u0 (down_read s)"
proof -
  obtain x c where x: "readConn (pi_late s) (pi_upstream s) = (x, c)"
    by (cases "readConn (pi_late s) (pi_upstream s)")
  note frame = readConn_frame [OF x]
  have down: "flow u0 (pi_upstream s) c0 (pi_client s) Reading (pi_late s)
      (e_Download (m_obj (pi_cm s) (pi_entry s)))"
    and up: "flow c0 (pi_client s) u0 (pi_upstream s) (pi_up s) (pi_late s)
      (e_Upload (m_obj (pi_cm s) (pi_entry s)))"
    using inv r by (simp_all add: pipe_inv_def flows_ok_def)
  have up': "flow c0 (pi_client s) u0 c (pi_up s) (pi_late s)
      (e_Upload (m_obj (pi_cm s) (pi_entry s)))"
    by (rule flow_cong [OF up]) (simp_all add: frame)
  have "signals_ok (down_read s)"
    using inv x r frame
    by (intro signals_copier [of s "down_read s"])
      (auto simp: pipe_inv_def down_read_def stopped_count_def split: sum.split)
  moreover have "chunks_ok (down_read s)"
    using inv x readConn_Inr(2) [of "pi_late s" "pi_upstream s"]
    by (auto simp: pipe_inv_def down_read_def chunks_ok_def split: sum.split)
  moreover have "flows_ok c0 u0 (down_read s)"
    using x up' flow_read [OF down, of "pi_late s" _ c] flow_read_fails [OF down, of _ c]
    by (cases x) (simp_all add: down_read_def flows_ok_def)
  ultimately show ?thesis by (simp add: pipe_inv_def)
qed

lemma inv_down_write:
  assumes inv: "pipe_inv c0 u0 s" and r: "pi_down s = Writing bs"
  shows "pipe_inv c0 u0 (down_write bs s)"
proof -
  obtain x c where x: "writeConn bs (pi_client s) = (x, c)"
    by (cases "writeConn bs (pi_client s)")
  note frame = writeConn_frame [OF x]
  have down: "flow u0 (pi_upstream s) c0 (pi_client s) (Writing bs) (pi_late s)
      (e_Download (m_obj (pi_cm s) (pi_entry s)))" and ne: "bs \<noteq> []"
    and up: "flow c0 (pi_client s) u0 (pi_upstream s) (pi_up s) (pi_late s)
      (e_Upload (m_obj (pi_cm s) (pi_entry s)))"
    using inv r by (auto simp: pipe_inv_def flows_ok_def chunks_ok_def)
  have up': "flow c0 c u0 (pi_upstream s) (pi_up s) (pi_late s)
      (e_Upload (m_obj (pi_cm s) (pi_entry s)))"
    by (rule flow_cong [OF up]) (simp_all add: frame)
  have "signals_ok (down_write bs s)"
    using inv x r frame
    by (intro signals_copier [of s "down_write bs s"])
      (auto simp: pipe_inv_def down_write_def stopped_count_def split: sum.split)
  moreover have "chunks_ok (down_write bs s)"
    using inv x by (auto simp: pipe_inv_def down_write_def chunks_ok_def split: sum.split)
  moreover have "flows_ok c0 u0 (down_write bs s)"
    using x up' flow_write [OF down, of _ c] flow_write_fails [OF down _ ne, of _ c]
    by (cases x) (simp_all add: down_write_def flows_ok_def)
  ultimately show ?thesis by (simp add: pipe_inv_def)
qed

lemma inv_close:
  assumes inv: "pipe_inv c0 u0 s"
    and t: "t = (close_both s)\<lparr>pi_signals := n, pi_main := w\<rparr>" and w: "w \<noteq> Selecting"
    and n: "case w of Selecting \<Rightarrow> False | AwaitOther \<Rightarrow> n + 1 = stopped_count s
      | Returned \<Rightarrow> n = stopped_count s"
  shows "pipe_inv c0 u0 t"
proof -
  have f: "flow c0 (pi_client s) u0 (pi_upstream s) (pi_up s) (pi_late s)
      (e_Upload (m_obj (pi_cm s) (pi_entry s)))"
    "flow u0 (pi_upstream s) c0 (pi_client s) (pi_down s) (pi_late s)
      (e_Download (m_obj (pi_cm s) (pi_entry s)))"
    using inv by (simp_all add: pipe_inv_def flows_ok_def)
  have d: "c_deadline (closeConn c) = c_deadline c" "c_wlim (closeConn c) = c_wlim c" for c
    by (simp_all add: closeConn_def)
  have "flows_ok c0 u0 t"
    unfolding flows_ok_def t close_both_def
    by (simp, intro conjI flow_cong [OF f(1)] flow_cong [OF f(2)]) (simp_all add: d)
  moreover have "signals_ok t"
    using n w by (cases w) (auto simp: t signals_ok_def close_both_def stopped_count_def)
  moreover have "chunks_ok t"
    using inv by (simp add: t pipe_inv_def chunks_ok_def close_both_def)
  ultimately show ?thesis by (simp add: pipe_inv_def)
qed

lemma inv_pipe_step: "pipe_step s t \<Longrightarrow> pipe_inv c0 u0 s \<Longrightarrow> pipe_inv c0 u0 t"
proof (induction rule: pipe_step.induct)
  case (main_done s)
  then have sig: "pi_signals s = stopped_count s" by (simp add: pipe_inv_def signals_ok_def)
  have t: "take_done s = (close_both s)\<lparr>pi_signals := pi_signals s, pi_main := Returned\<rparr>"
    by (simp add: take_done_def close_both_def)
  show ?case by (rule inv_close [OF main_done.prems t]) (simp_all add: sig)
next
  case (main_signal s)
  then have sig: "pi_signals s = stopped_count s" by (simp add: pipe_inv_def signals_ok_def)
  have "pi_signals s - 1 + 1 = stopped_count s" using main_signal.hyps(2) sig by simp
  then show ?case by (intro inv_close [OF main_signal.prems take_signal_def]) simp_all
next
  case (main_other s)
  then have "stopped_count s = 2" "c_closed (pi_client s)" "c_closed (pi_upstream s)"
    using stopped_count_le [of s] by (auto simp: pipe_inv_def signals_ok_def)
  with main_other show ?case
    by (simp add: pipe_inv_def take_other_def signals_ok_def chunks_ok_def flows_ok_def stopped_count_def)
qed (simp_all add: inv_up_read inv_up_write inv_down_read inv_down_write)

lemma inv_outer_step: "outer_step s t \<Longrightarrow> pipe_inv c0 u0 s \<Longrightarrow> pipe_inv c0 u0 t"
proof (induction rule: outer_step.induct)
  case (registry s m)
  then show ?case
    by (cases "pi_main s")
      (simp_all add: pipe_inv_def signals_ok_def chunks_ok_def flows_ok_def stopped_count_def)
next
  case (deadline s)
  then have f: "flow c0 (pi_client s) u0 (pi_upstream s) (pi_up s) (pi_late s)
      (e_Upload (m_obj (pi_cm s) (pi_entry s)))"
    "flow u0 (pi_upstream s) c0 (pi_client s) (pi_down s) (pi_late s)
      (e_Download (m_obj (pi_cm s) (pi_entry s)))"
    by (simp_all add: pipe_inv_def flows_ok_def)
  have "flows_ok c0 u0 (s\<lparr>pi_late := True\<rparr>)"
    unfolding flows_ok_def by (simp, intro conjI flow_cong [OF f(1)] flow_cong [OF f(2)]) simp_all
  with deadline show ?case
    by (cases "pi_main s") (simp_all add: pipe_inv_def signals_ok_def chunks_ok_def stopped_count_def)
qed

interpretation pipe_sys: invariant_system "pipe_start c0 u0" world_step "pipe_inv c0 u0"
  for c0 u0 :: conn
  by unfold_locales (auto simp: world_step_def pipe_inv_start inv_pipe_step inv_outer_step)

text \<open>The connections keep their deadline, and until the waiter closes them, their state.\<close>

definition conn_kept :: "bool \<Rightarrow> conn \<Rightarrow> conn \<Rightarrow> bool" where
  "conn_kept selecting c0 c \<longleftrightarrow> c_deadline c = c_deadline c0 \<and>
     (c_wlim c0 = None \<longrightarrow> c_wlim c = None) \<and> (selecting \<longrightarrow> c_closed c = c_closed c0)"

definition conns_kept :: "conn \<Rightarrow> conn \<Rightarrow> pipe \<Rightarrow> bool" where
  "conns_kept c0 u0 s \<longleftrightarrow> conn_kept (pi_main s = Selecting) c0 (pi_client s) \<and>
     conn_kept (pi_main s = Selecting) u0 (pi_upstream s)"

lemma conn_kept_read: "readConn l c = (r, c') \<Longrightarrow> conn_kept b c0 c \<Longrightarrow> conn_kept b c0 c'"
  by (auto simp: conn_kept_def readConn_frame)

lemma conn_kept_write: "writeConn bs c = (r, c') \<Longrightarrow> conn_kept b c0 c \<Longrightarrow> conn_kept b c0 c'"
  by (auto simp: conn_kept_def writeConn_def split: if_splits option.splits nat.splits)

lemma conns_kept_step: "pipe_step s t \<Longrightarrow> conns_kept c0 u0 s \<Longrightarrow> conns_kept c0 u0 t"
proof (induction rule: pipe_step.induct)
  case (up_reads s)
  then show ?case
    by (auto simp: conns_kept_def up_read_def intro: conn_kept_read split: prod.split sum.split)
next
  case (up_writes s bs)
  then show ?case
    by (auto simp: conns_kept_def up_write_def intro: conn_kept_write split: prod.split sum.split)
next
  case (down_reads s)
  then show ?case
    by (auto simp: conns_kept_def down_read_def intro: conn_kept_read split: prod.split sum.split)
next
  case (down_writes s bs)
  then show ?case
    by (auto simp: conns_kept_def down_write_def intro: conn_kept_write split: prod.split sum.split)
qed (auto simp: conns_kept_def conn_kept_def take_done_def take_signal_def take_other_def
      close_both_def closeConn_def)

interpretation kept_sys: invariant_system "pipe_start c0 u0" world_step "conns_kept c0 u0"
  for c0 u0 :: conn
proof unfold_locales
  show "conns_kept c0 u0 s" if "pipe_start c0 u0 s" for s
    using that by (auto simp: pipe_start_def init_pipe_def conns_kept_def conn_kept_def)
  show "conns_kept c0 u0 t" if "conns_kept c0 u0 s" "world_step s t" for s t
    using that conns_kept_step
    by (auto simp: world_step_def conns_kept_def elim!: outer_step.cases)
qed

section \<open>Properties\<close>


text \<open>A tunnel to try the statements on, and the same with its entry closed.\<close>

definition ex_client :: conn where "ex_client = fresh_conn [[1, 2, 3], [4]]"
definition ex_upstream :: conn where "ex_upstream = fresh_conn [[9]]"

definition ex_pipe :: "manager \<Rightarrow> pipe" where
  "ex_pipe m = init_pipe ex_client ex_upstream 0 m"

lemma ex_pipe_reach:
  assumes "m = example_manager \<or> m = mark_closed 0 example_manager"
  shows "reach (pipe_start ex_client ex_upstream) world_step (ex_pipe m)"
proof (rule reach_start)
  have "e_Upload (m_obj m 0) = 0 \<and> e_Download (m_obj m 0) = 0"
    using assms by (auto simp: example_manager_def new_entry_def NewManager_def example_entry_def zero_entry_def)
  then show "pipe_start ex_client ex_upstream (ex_pipe m)"
    unfolding pipe_start_def ex_pipe_def by blast
qed


definition work_left :: "pipe \<Rightarrow> nat" where
  "work_left s =
     (case pi_up s of Reading \<Rightarrow> 1 | Writing _ \<Rightarrow> 2 | Stopped \<Rightarrow> 0) +
     (case pi_down s of Reading \<Rightarrow> 1 | Writing _ \<Rightarrow> 2 | Stopped \<Rightarrow> 0) +
     (case pi_main s of Selecting \<Rightarrow> 2 | AwaitOther \<Rightarrow> 1 | Returned \<Rightarrow> 0)"

lemma work_decreases:
  "pipe_step s t \<Longrightarrow> pi_main s \<noteq> Selecting \<Longrightarrow> c_closed (pi_client s) \<Longrightarrow> c_closed (pi_upstream s) \<Longrightarrow>
   work_left t < work_left s"
  by (induction rule: pipe_step.induct)
    (auto simp: work_left_def up_read_def up_write_def down_read_def down_write_def take_other_def
      readConn_closed writeConn_closed)

text \<open>
  C12. Once the waiter has seen a signal or the close of the entry, the tunnel comes down and
  comes down completely: both connections are closed; every further step of the pipe brings
  the end nearer; and a step is possible until both copying goroutines have stopped and the
  waiter has returned. So no goroutine is left behind, in whatever order they run.
\<close>

theorem pipe_comes_down:
  assumes "reach (pipe_start c0 u0) world_step s" and "pi_main s \<noteq> Selecting"
  shows "c_closed (pi_client s) \<and> c_closed (pi_upstream s) \<and>
    (\<forall>t. pipe_step s t \<longrightarrow> work_left t < work_left s) \<and>
    (work_left s = 0 \<longleftrightarrow> pi_main s = Returned \<and> pi_up s = Stopped \<and> pi_down s = Stopped) \<and>
    (0 < work_left s \<longrightarrow> (\<exists>t. pipe_step s t))"
proof -
  from assms(1) have "signals_ok s" using pipe_sys.reach_inv by (simp add: pipe_inv_def)
  with assms(2) have closed: "c_closed (pi_client s)" "c_closed (pi_upstream s)"
    and sig: "pi_main s = AwaitOther \<Longrightarrow> pi_signals s + 1 = stopped_count s"
    by (auto simp: signals_ok_def)
  have zero: "work_left s = 0 \<longleftrightarrow> pi_main s = Returned \<and> pi_up s = Stopped \<and> pi_down s = Stopped"
    by (auto simp: work_left_def split: copier.splits waiter.splits)
  have "\<exists>t. pipe_step s t" if "0 < work_left s"
  proof (cases "pi_up s = Stopped \<and> pi_down s = Stopped")
    case True
    with that zero assms(2) have "pi_main s = AwaitOther" by (cases "pi_main s") auto
    with True sig show ?thesis using main_other [of s] by (auto simp: stopped_count_def)
  next
    case False
    then show ?thesis by (cases "pi_up s"; cases "pi_down s") (auto intro: pipe_step.intros)
  qed
  with closed zero work_decreases assms(2) show ?thesis by blast
qed

theorem pipe_comes_down_witness:
  "c_closed (pi_client (take_done (ex_pipe (mark_closed 0 example_manager)))) \<and>
   (\<exists>t. pipe_step (take_done (ex_pipe (mark_closed 0 example_manager))) t)"
proof -
  let ?s = "ex_pipe (mark_closed 0 example_manager)"
  have "pipe_step ?s (take_done ?s)"
    by (rule main_done) (simp_all add: ex_pipe_def init_pipe_def Done_def)
  then have "world_step ?s (take_done ?s)" by (simp add: world_step_def)
  with ex_pipe_reach have r: "reach (pipe_start ex_client ex_upstream) world_step (take_done ?s)"
    by (auto intro: reach_step)
  have "pi_main (take_done ?s) \<noteq> Selecting" "0 < work_left (take_done ?s)"
    by (simp_all add: take_done_def close_both_def ex_pipe_def init_pipe_def work_left_def)
  with pipe_comes_down [OF r] show ?thesis by blast
qed

text \<open>
  A tunnel without a deadline is not torn down while it is alive: as long as both peers
  have more to say and accept what they are sent, and nobody has closed the entry, no step of
  the pipe makes the waiter move or closes a connection.
\<close>

theorem pipe_keeps_live_tunnel:
  assumes r: "reach (pipe_start c0 u0) world_step s" and "usable c0" and "usable u0"
    and "\<not> c_deadline c0" and "\<not> c_deadline u0"
    and "pi_main s = Selecting" and "Done (pi_entry s) (pi_cm s) \<noteq> ClosedChan"
    and "pending (pi_client s) \<noteq> []" and "pending (pi_upstream s) \<noteq> []" and "pipe_step s t"
  shows "pi_main t = Selecting \<and> \<not> c_closed (pi_client t) \<and> \<not> c_closed (pi_upstream t)"
proof -
  from r have inv: "pipe_inv c0 u0 s" by (rule pipe_sys.reach_inv)
  from r have kept: "conns_kept c0 u0 s" by (rule kept_sys.reach_inv)
  then have k: "\<not> c_closed (pi_client s)" "\<not> c_closed (pi_upstream s)"
    "c_wlim (pi_client s) = None" "c_wlim (pi_upstream s) = None"
    "\<not> c_deadline (pi_client s)" "\<not> c_deadline (pi_upstream s)"
    using assms by (auto simp: conns_kept_def conn_kept_def usable_def)
  with inv assms have "pi_up s \<noteq> Stopped" "pi_down s \<noteq> Stopped"
    by (auto simp: pipe_inv_def flows_ok_def flow_def)
  with inv assms have "pi_signals s = 0"
    by (simp add: pipe_inv_def signals_ok_def stopped_count_def)
  then have same: "pi_main t = Selecting" using assms(6,7,10)
    by (auto elim!: pipe_stepE simp: up_read_def up_write_def down_read_def down_write_def
        split: prod.split sum.split)
  moreover have "conns_kept c0 u0 t" using conns_kept_step [OF assms(10) kept] .
  ultimately show ?thesis using assms(2,3) by (auto simp: conns_kept_def conn_kept_def usable_def)
qed

theorem pipe_keeps_live_tunnel_witness:
  "pi_main (down_read (ex_pipe example_manager)) = Selecting \<and>
   \<not> c_closed (pi_upstream (down_read (ex_pipe example_manager)))"
proof -
  let ?s = "ex_pipe example_manager"
  have "reach (pipe_start ex_client ex_upstream) world_step ?s" by (simp add: ex_pipe_reach)
  moreover have "usable ex_client" "usable ex_upstream" "\<not> c_deadline ex_client"
    "\<not> c_deadline ex_upstream" "pi_main ?s = Selecting" "pending (pi_client ?s) \<noteq> []"
    "pending (pi_upstream ?s) \<noteq> []"
    by (simp_all add: ex_client_def ex_upstream_def usable_def fresh_conn_def ex_pipe_def
        init_pipe_def pending_def)
  moreover have "Done (pi_entry ?s) (pi_cm ?s) \<noteq> ClosedChan"
    by (simp add: ex_pipe_def init_pipe_def Done_def example_manager_def new_entry_def NewManager_def
        example_entry_simps)
  moreover have "pipe_step ?s (down_read ?s)"
    by (rule down_reads) (simp add: ex_pipe_def init_pipe_def)
  ultimately show ?thesis using pipe_keeps_live_tunnel by blast
qed

text \<open>With a deadline that has passed, one read of the client is enough to end the tunnel.\<close>

lemma deadline_cuts:
  assumes r: "reach (pipe_start c0 u0) world_step s" and d: "c_deadline c0" and late: "pi_late s"
    and up: "pi_up s = Reading" and main: "pi_main s = Selecting"
  shows "\<exists>s1 s2. pipe_step s s1 \<and> pipe_step s1 s2 \<and> c_closed (pi_client s2) \<and>
    c_closed (pi_upstream s2) \<and> pending (pi_client s2) = pending (pi_client s)"
proof -
  from r have "conns_kept c0 u0 s" by (rule kept_sys.reach_inv)
  with d have "c_deadline (pi_client s)" by (simp add: conns_kept_def conn_kept_def)
  then obtain e c where x: "readConn (pi_late s) (pi_client s) = (Inl e, c)"
    using late by (cases "c_closed (pi_client s)") (simp_all add: readConn_def readSome_late)
  have s1: "pipe_step s (up_read s)" using up by (rule up_reads)
  have "pipe_step (up_read s) (take_signal (up_read s))"
    using x main by (intro main_signal) (simp_all add: up_read_def)
  moreover have "pending (pi_client (take_signal (up_read s))) = pending (pi_client s)"
    using x readConn_Inl(1) [OF x] by (simp add: take_signal_def close_both_def up_read_def)
  moreover have "c_closed (pi_client (take_signal (up_read s)))" "c_closed (pi_upstream (take_signal (up_read s)))"
    by (simp_all add: take_signal_def close_both_def)
  ultimately show ?thesis using s1 by blast
qed

end
