(* ===== verification/Session.thy ===== *)
theory Session
  imports Failover Pipe
begin

text \<open>
  What the three connection handlers of \<open>internal/proxy\<close> have in common once they know
  where to connect (\<open>handleConnect\<close> and \<open>handleForward\<close> in \<open>http.go\<close>, the end of
  \<open>handle\<close> in \<open>socks5.go\<close>): register the connection, connect through the pool, answer
  the client, run the pipe, and undo it all in the deferred calls. They differ in the entry,
  in the answer to a failure and in what they write on success, which are arguments here.
\<close>

section \<open>The code\<close>

record server =
  sv_Pool :: pool
  sv_Cm :: manager
  sv_net :: net

text \<open>
  How a handler leaves the session: the client refused before it; no upstream; an upstream
  but no way to announce it; the pipe running; a run-time panic.
\<close>

datatype session_result =
    Refused conn
  | NoUpstream failover_error conn
  | Dropped conn conn
  | Piping conn conn eref
  | Panics go_panic

text \<open>\<open>_, _ = client.Write(b)\<close>.\<close>

definition write_ignore :: "byte list \<Rightarrow> conn \<Rightarrow> conn" where
  "write_ignore bs c = snd (writeConn bs c)"

text \<open>The deferred \<open>entry.Close()\<close> and \<open>s.Cm.Unregister(entry.ID)\<close>.\<close>

definition end_session :: "eref \<Rightarrow> manager \<Rightarrow> go_panic + manager" where
  "end_session r m =
     (case Entry_Close r m of
        Inl x \<Rightarrow> Inl x
      | Inr m' \<Rightarrow> Inr (Unregister (e_ID (m_obj m' r)) m'))"

definition leave :: "eref \<Rightarrow> session_result \<Rightarrow> server \<Rightarrow> session_result \<times> server" where
  "leave r res sv =
     (case end_session r (sv_Cm sv) of
        Inl x \<Rightarrow> (Panics x, sv)
      | Inr m \<Rightarrow> (res, sv\<lparr>sv_Cm := m\<rparr>))"

text \<open>
  \<open>announce client upstream\<close> is what a handler does between connecting and \<open>pipe\<close>:
  whether it succeeds, and the two connections after it.
\<close>

definition serve ::
  "(nat \<Rightarrow> pool \<Rightarrow> pool) \<Rightarrow> (nat \<Rightarrow> nat \<Rightarrow> nat) \<Rightarrow> entry \<Rightarrow> byte list \<Rightarrow>
   (conn \<Rightarrow> conn \<Rightarrow> bool \<times> conn \<times> conn) \<Rightarrow> string \<Rightarrow> string \<Rightarrow> u16 \<Rightarrow> conn \<Rightarrow> server \<Rightarrow>
   (session_result \<times> server) option" where
  "serve env rnd e refusal announce preferred host port client sv =
     (let (r, m0) = new_entry e (sv_Cm sv);
          m1 = Register r m0
      in case dialWithFailover env rnd preferred host port (sv_Pool sv) (sv_net sv) of
           None \<Rightarrow> None
         | Some ((Inl err, _), p, w) \<Rightarrow>
             Some (leave r (NoUpstream err (closeConn (write_ignore refusal client)))
               \<lparr>sv_Pool = p, sv_Cm = m1, sv_net = w\<rparr>)
         | Some ((Inr upstream, proxyName), p, w) \<Rightarrow>
             (let m2 = SetProxy r proxyName m1 in
              case announce client upstream of
                (False, c, u) \<Rightarrow>
                  Some (leave r (Dropped (closeConn c) (closeConn u))
                    \<lparr>sv_Pool = p, sv_Cm = m2, sv_net = w\<rparr>)
              | (True, c, u) \<Rightarrow>
                  Some (Piping c u r, \<lparr>sv_Pool = p, sv_Cm = m2, sv_net = w\<rparr>)))"

text \<open>What runs when \<open>pipe\<close> returns: close the upstream, the entry, the client.\<close>

definition pipe_returned :: "pipe \<Rightarrow> go_panic + pipe" where
  "pipe_returned s =
     (case end_session (pi_entry s) (pi_cm s) of
        Inl x \<Rightarrow> Inl x
      | Inr m \<Rightarrow> Inr ((close_both s)\<lparr>pi_cm := m\<rparr>))"

section \<open>The bracket\<close>

text \<open>An entry as the handlers build it.\<close>

definition fresh_entry :: "entry \<Rightarrow> bool" where
  "fresh_entry e \<longleftrightarrow> e_cancel e = NilChan \<and> \<not> e_closed e \<and> e_Upload e = 0 \<and> e_Download e = 0"

text \<open>An allocated entry with its identifier and a channel.\<close>

definition entry_kept :: "string \<Rightarrow> eref \<Rightarrow> manager \<Rightarrow> bool" where
  "entry_kept i r m \<longleftrightarrow> cm_ok m \<and> r < m_next m \<and> e_ID (m_obj m r) = i \<and> e_cancel (m_obj m r) \<noteq> NilChan"

lemma end_session_ok:
  assumes "cm_ok m" and "e_cancel (m_obj m r) \<noteq> NilChan"
  shows "end_session r m = Inr (Unregister (e_ID (m_obj m r)) (mark_closed r m))"
  by (simp add: end_session_def Entry_Close_eq [OF cm_okD(1) [OF assms(1)] assms(2)])

lemma opened:
  assumes ok: "cm_ok m" and e: "fresh_entry e" and new: "new_entry e m = (r, m0)"
  shows "cm_ok (Register r m0)" and "e_cancel (m_obj (Register r m0) r) = OpenChan"
    and "e_ID (m_obj (Register r m0) r) = e_ID e" and "m_entries (Register r m0) = (m_entries m)(e_ID e \<mapsto> r)"
    and "m_obj (Register r m0) r = e\<lparr>e_cancel := OpenChan\<rparr>" and "r < m_next (Register r m0)"
proof -
  have "chan_ok e" using e by (simp add: chan_ok_def fresh_entry_def)
  note n = cm_ok_new_entry [OF ok this new]
  show "cm_ok (Register r m0)" using n by (intro cm_ok_Register)
  show "e_cancel (m_obj (Register r m0) r) = OpenChan" "e_ID (m_obj (Register r m0) r) = e_ID e"
    "m_obj (Register r m0) r = e\<lparr>e_cancel := OpenChan\<rparr>"
    using e by (simp_all add: n(3) fresh_entry_def)
  show "m_entries (Register r m0) = (m_entries m)(e_ID e \<mapsto> r)" by (simp add: n(3,4))
  show "r < m_next (Register r m0)" using n(2) by simp
qed

text \<open>Leaving gives the registry back as it was, when the identifier was free.\<close>

lemma leave_restores:
  assumes m: "cm_ok (sv_Cm sv)" "e_cancel (m_obj (sv_Cm sv) r) \<noteq> NilChan"
    and i: "e_ID (m_obj (sv_Cm sv) r) = i" and ent: "m_entries (sv_Cm sv) = E(i \<mapsto> r)" and free: "E i = None"
  shows "\<exists>sv'. leave r res sv = (res, sv') \<and> m_entries (sv_Cm sv') = E \<and> cm_ok (sv_Cm sv') \<and>
    sv_Pool sv' = sv_Pool sv \<and> sv_net sv' = sv_net sv"
proof -
  have "E(i \<mapsto> r, i := None) = E" using free by (simp add: fun_upd_idem)
  then show ?thesis
    using end_session_ok [OF m] i ent m(1)
    by (simp add: leave_def cm_ok_Unregister cm_ok_mark_closed)
qed

lemma SetProxy_simps [simp]:
  "m_entries (SetProxy r n m) = m_entries m" "m_next (SetProxy r n m) = m_next m"
  "m_obj (SetProxy r n m) s = (if s = r then (m_obj m r)\<lparr>e_Proxy := n\<rparr> else m_obj m s)"
  by (simp_all add: SetProxy_def)

lemma write_ignore_out:
  "c_out (write_ignore bs c) = c_out c \<or> c_out (write_ignore bs c) = c_out c @ bs"
  "c_closed (write_ignore bs c) = c_closed c"
  by (auto simp: write_ignore_def writeConn_def split: option.split nat.split)

lemma failover_returns:
  assumes "pool_ok p"
  shows "\<exists>x. dialWithFailover (\<lambda>_ q. q) rnd preferred host port p w = Some x"
proof (cases "preferred = []")
  case True
  with fo.loop_attempts [OF assms, of rnd host port 0 "{}" NoHealthyProxies w "n_peer w"]
  show ?thesis by (auto simp: dialWithFailover_loop)
next
  case False
  then show ?thesis by (auto simp: dialWithFailover_def split: prod.split sum.split)
qed

text \<open>What a handler that has learnt its target leaves behind, case by case.\<close>

definition session_ok ::
  "entry \<Rightarrow> byte list \<Rightarrow> (conn \<Rightarrow> conn \<Rightarrow> bool \<times> conn \<times> conn) \<Rightarrow> (nat \<Rightarrow> nat \<Rightarrow> nat) \<Rightarrow> string \<Rightarrow>
   string \<Rightarrow> u16 \<Rightarrow> conn \<Rightarrow> server \<Rightarrow> session_result \<Rightarrow> server \<Rightarrow> bool" where
  "session_ok e refusal announce rnd preferred host port client sv res sv' \<longleftrightarrow>
    (case res of
       NoUpstream err c \<Rightarrow> c_closed c \<and> (c_out c = c_out client \<or> c_out c = c_out client @ refusal) \<and>
         m_entries (sv_Cm sv') = m_entries (sv_Cm sv)
     | Dropped c u \<Rightarrow> c_closed c \<and> c_closed u \<and> m_entries (sv_Cm sv') = m_entries (sv_Cm sv)
     | Piping c u r \<Rightarrow> Manager_Get (e_ID e) (sv_Cm sv') = Some r \<and> \<not> Closed r (sv_Cm sv') \<and>
         Done r (sv_Cm sv') = OpenChan \<and> entry_kept (e_ID e) r (sv_Cm sv') \<and>
         pipe_start c u (init_pipe c u r (sv_Cm sv')) \<and>
         (\<exists>u0 w. announce client u0 = (True, c, u) \<and>
            dialWithFailover (\<lambda>_ q. q) rnd preferred host port (sv_Pool sv) (sv_net sv) =
              Some ((Inr u0, e_Proxy (m_obj (sv_Cm sv') r)), sv_Pool sv', w))
     | _ \<Rightarrow> False) \<and> cm_ok (sv_Cm sv')"

lemma serve_session:
  assumes pool: "pool_ok (sv_Pool sv)" and cm: "cm_ok (sv_Cm sv)"
    and free: "Manager_Get (e_ID e) (sv_Cm sv) = None" and e: "fresh_entry e"
  shows "\<exists>res sv'. serve (\<lambda>_ q. q) rnd e refusal announce preferred host port client sv = Some (res, sv') \<and>
    session_ok e refusal announce rnd preferred host port client sv res sv'"
proof -
  obtain r m0 where new: "new_entry e (sv_Cm sv) = (r, m0)" by (cases "new_entry e (sv_Cm sv)")
  note op = opened [OF cm e new]
  have free': "m_entries (sv_Cm sv) (e_ID e) = None" using free by (simp add: Manager_Get_def)
  obtain res name p w where d: "dialWithFailover (\<lambda>_ q. q) rnd preferred host port (sv_Pool sv) (sv_net sv) =
      Some ((res, name), p, w)"
    using failover_returns [OF pool] by (metis prod.collapse)
  show ?thesis
  proof (cases res)
    case (Inl err)
    let ?res = "NoUpstream err (closeConn (write_ignore refusal client))"
    obtain sv' where "leave r ?res \<lparr>sv_Pool = p, sv_Cm = Register r m0, sv_net = w\<rparr> = (?res, sv')"
      "m_entries (sv_Cm sv') = m_entries (sv_Cm sv)" "cm_ok (sv_Cm sv')"
      using leave_restores [of "\<lparr>sv_Pool = p, sv_Cm = Register r m0, sv_net = w\<rparr>" r "e_ID e"
          "m_entries (sv_Cm sv)" ?res] op free' by auto
    then show ?thesis
      using d new Inl write_ignore_out [of refusal client] by (simp add: serve_def session_ok_def)
  next
    case (Inr u0)
    let ?m = "SetProxy r name (Register r m0)"
    have m: "cm_ok ?m" "e_cancel (m_obj ?m r) = OpenChan" "e_ID (m_obj ?m r) = e_ID e"
      "m_entries ?m = (m_entries (sv_Cm sv))(e_ID e \<mapsto> r)"
      using op cm_ok_SetProxy [OF op(1)] by simp_all
    obtain b c u where a: "announce client u0 = (b, c, u)" by (cases "announce client u0")
    show ?thesis
    proof (cases b)
      case False
      let ?res = "Dropped (closeConn c) (closeConn u)"
      obtain sv' where "leave r ?res \<lparr>sv_Pool = p, sv_Cm = ?m, sv_net = w\<rparr> = (?res, sv')"
        "m_entries (sv_Cm sv') = m_entries (sv_Cm sv)" "cm_ok (sv_Cm sv')"
        using leave_restores [of "\<lparr>sv_Pool = p, sv_Cm = ?m, sv_net = w\<rparr>" r "e_ID e"
            "m_entries (sv_Cm sv)" ?res] m free' by auto
      then show ?thesis using d new Inr a False by (simp add: serve_def session_ok_def)
    next
      case True
      have obj: "m_obj ?m r = e\<lparr>e_cancel := OpenChan, e_Proxy := name\<rparr>" using op(5) by simp
      have st: "pipe_start c u (init_pipe c u r ?m)"
        unfolding pipe_start_def using e obj by (intro exI [of _ r] exI [of _ ?m]) (simp add: fresh_entry_def)
      have "serve (\<lambda>_ q. q) rnd e refusal announce preferred host port client sv =
          Some (Piping c u r, \<lparr>sv_Pool = p, sv_Cm = ?m, sv_net = w\<rparr>)"
        using d new Inr a True by (simp add: serve_def)
      moreover have "entry_kept (e_ID e) r ?m" using m op(6) by (simp add: entry_kept_def)
      moreover have "\<not> e_closed (m_obj ?m r)" "e_Proxy (m_obj ?m r) = name"
        using e obj by (simp_all add: fresh_entry_def)
      ultimately show ?thesis
        using st m a True d Inr by (auto simp: Manager_Get_def Closed_def Done_def session_ok_def)
    qed
  qed
qed

text \<open>
  C7. A handler that has learnt its target always comes to one of three ends, and never
  panics. Without an upstream, or when the answer cannot be written, the connections are
  closed and the registry finds what it found before; a failing client got the refusal or
  nothing. Otherwise the pipe starts with the connection registered under its identifier,
  open, counted at zero, and labelled with the upstream that serves it.
\<close>

theorem session_ends_cleanly_or_pipes:
  assumes pool: "pool_ok (sv_Pool sv)" and cm: "cm_ok (sv_Cm sv)"
    and free: "Manager_Get (e_ID e) (sv_Cm sv) = None" and e: "fresh_entry e"
  shows "\<exists>res sv'. serve (\<lambda>_ q. q) rnd e refusal announce preferred host port client sv = Some (res, sv') \<and>
    (case res of
       NoUpstream err c \<Rightarrow> c_closed c \<and> (c_out c = c_out client \<or> c_out c = c_out client @ refusal) \<and>
         m_entries (sv_Cm sv') = m_entries (sv_Cm sv)
     | Dropped c u \<Rightarrow> c_closed c \<and> c_closed u \<and> m_entries (sv_Cm sv') = m_entries (sv_Cm sv)
     | Piping c u r \<Rightarrow> Manager_Get (e_ID e) (sv_Cm sv') = Some r \<and> \<not> Closed r (sv_Cm sv') \<and>
         Done r (sv_Cm sv') = OpenChan \<and> entry_kept (e_ID e) r (sv_Cm sv') \<and>
         pipe_start c u (init_pipe c u r (sv_Cm sv')) \<and>
         (\<exists>u0 w. announce client u0 = (True, c, u) \<and>
            dialWithFailover (\<lambda>_ q. q) rnd preferred host port (sv_Pool sv) (sv_net sv) =
              Some ((Inr u0, e_Proxy (m_obj (sv_Cm sv') r)), sv_Pool sv', w))
     | _ \<Rightarrow> False) \<and> cm_ok (sv_Cm sv')"
  using serve_session [OF assms] unfolding session_ok_def by blast

definition session_server :: server where
  "session_server = \<lparr>sv_Pool = example_pool ''random'', sv_Cm = NewManager, sv_net = all_up\<rparr>"

theorem session_ends_cleanly_or_pipes_witness:
  "\<exists>res sv'. serve (\<lambda>_ q. q) (\<lambda>_ _. 0) example_entry [] (\<lambda>c u. (True, c, u)) [] ''h'' 80
     (fresh_conn []) session_server = Some (res, sv') \<and> cm_ok (sv_Cm sv')"
proof -
  have "pool_ok (sv_Pool session_server)" "cm_ok (sv_Cm session_server)"
    "Manager_Get (e_ID example_entry) (sv_Cm session_server) = None" "fresh_entry example_entry"
    by (simp_all add: session_server_def example_pool_ok
        cm_ok_NewManager Manager_Get_def fresh_entry_def example_entry_simps)
      (simp_all add: NewManager_def example_entry_def zero_entry_def)
  from session_ends_cleanly_or_pipes [OF this] show ?thesis by blast
qed

section \<open>After the pipe\<close>

text \<open>The entry keeps its identity and its channel through all that happens meanwhile.\<close>

lemma entry_kept_cm_step: "cm_step m m' \<Longrightarrow> entry_kept i r m \<Longrightarrow> entry_kept i r m'"
proof -
  assume st: "cm_step m m'" and k: "entry_kept i r m"
  then have "cm_ok m'" using cm_ok_step by (auto simp: entry_kept_def)
  moreover from st k have "r < m_next m' \<and> e_ID (m_obj m' r) = i \<and> e_cancel (m_obj m' r) \<noteq> NilChan"
  proof (induction rule: cm_step.induct)
    case (step_register e m s m1)
    then show ?case by (auto simp: entry_kept_def new_entry_def)
  next
    case (step_close m s m')
    then have "m' = mark_closed s m"
      using Entry_Close_eq [of m s] by (simp add: entry_kept_def cm_okD)
    with step_close show ?case by (auto simp: entry_kept_def)
  qed (auto simp: entry_kept_def AddUpload_def AddDownload_def)
  ultimately show ?thesis by (simp add: entry_kept_def)
qed

lemma entry_kept_step:
  "world_step s t \<Longrightarrow> entry_kept i (pi_entry s) (pi_cm s) \<Longrightarrow>
   entry_kept i (pi_entry t) (pi_cm t) \<and> pi_entry t = pi_entry s"
  unfolding world_step_def
proof (elim disjE)
  assume p: "pipe_step s t" and k: "entry_kept i (pi_entry s) (pi_cm s)"
  have "entry_kept i (pi_entry s) (AddUpload (pi_entry s) n (pi_cm s))"
    "entry_kept i (pi_entry s) (AddDownload (pi_entry s) n (pi_cm s))" for n
    using entry_kept_cm_step [OF step_upload k] entry_kept_cm_step [OF step_download k] by blast+
  with p k show ?thesis
    by (auto elim!: pipe_stepE simp: up_read_def up_write_def down_read_def down_write_def
        take_done_def take_signal_def take_other_def close_both_def split: prod.split sum.split)
next
  assume "outer_step s t" and "entry_kept i (pi_entry s) (pi_cm s)"
  then show ?thesis by (auto elim!: outer_step.cases intro: entry_kept_cm_step)
qed

definition session_pipe :: "string \<Rightarrow> pipe \<Rightarrow> bool" where
  "session_pipe i s \<longleftrightarrow> entry_kept i (pi_entry s) (pi_cm s)"

interpretation session_sys: invariant_system "session_pipe i" world_step "session_pipe i"
  for i :: string
  by unfold_locales (auto simp: session_pipe_def dest: entry_kept_step)

text \<open>
  However the pipe ran and whoever closed the entry, the deferred calls after it do not
  panic; afterwards both connections are closed, the entry is closed for everyone who still
  holds it, its identifier is free, and every other lookup is as it was.
\<close>

theorem session_end_frees_everything:
  assumes "reach (session_pipe i) world_step s"
  shows "\<exists>s'. pipe_returned s = Inr s' \<and> c_closed (pi_client s') \<and> c_closed (pi_upstream s') \<and>
    Closed (pi_entry s) (pi_cm s') \<and> Manager_Get i (pi_cm s') = None \<and>
    (\<forall>j. j \<noteq> i \<longrightarrow> Manager_Get j (pi_cm s') = Manager_Get j (pi_cm s))"
proof -
  from assms have "session_pipe i s" by (rule session_sys.reach_inv)
  then have k: "cm_ok (pi_cm s)" "e_cancel (m_obj (pi_cm s) (pi_entry s)) \<noteq> NilChan"
    "e_ID (m_obj (pi_cm s) (pi_entry s)) = i" by (simp_all add: session_pipe_def entry_kept_def)
  show ?thesis
    by (simp add: pipe_returned_def end_session_ok [OF k(1,2)] close_both_def Closed_def Manager_Get_def k(3))
qed

theorem session_end_frees_everything_witness:
  "\<exists>s'. pipe_returned (ex_pipe example_manager) = Inr s' \<and> Manager_Get ''c1'' (pi_cm s') = None"
proof -
  have "session_pipe ''c1'' (ex_pipe example_manager)"
    using example_manager_ok cm_okD(2-4) [OF example_manager_ok, of "''c1''" 0]
    by (simp add: session_pipe_def entry_kept_def ex_pipe_def init_pipe_def example_manager_simps)
  then have "reach (session_pipe ''c1'') world_step (ex_pipe example_manager)" by (rule reach_start)
  from session_end_frees_everything [OF this] show ?thesis by blast
qed

end
