(* ===== verification/HttpServer.thy ===== *)
theory HttpServer
  imports Session
begin

text \<open>
  The local HTTP proxy (\<open>internal/proxy/http.go\<close>): the choice between CONNECT and plain
  forwarding, and the session that follows. The standard library's request reader and
  writer are parameters: \<open>readRequest\<close> is \<open>http.ReadRequest\<close> over the buffered reader of
  the connection, \<open>writeRequest\<close> is \<open>req.Write(upstream)\<close>, which reads the body from
  the client.
\<close>

section \<open>The code\<close>

text \<open>
  What the handlers read of a request: the method, the \<open>Host\<close>, the user of the URL, the host
  name and the port text of the URL, and, for the record, its header fields.
\<close>

record http_request =
  rq_Method :: string
  rq_Host :: string
  rq_URL_User :: "string option"
  rq_URL_Hostname :: string
  rq_URL_Port :: string
  rq_Header :: "(string \<times> string) list"

definition preferred_of :: "http_request \<Rightarrow> string" where
  "preferred_of req = (case rq_URL_User req of None \<Rightarrow> [] | Some user \<Rightarrow> user)"

definition connect_target :: "http_request \<Rightarrow> string \<times> u16" where
  "connect_target req =
     (let (host, portStr) = splitHostPort (rq_Host req)
      in (host, of_int (parsePort portStr 443)))"

definition forward_target :: "http_request \<Rightarrow> string \<times> u16" where
  "forward_target req = (rq_URL_Hostname req, of_int (parsePort (rq_URL_Port req) 80))"

definition http_entry :: "string \<Rightarrow> int \<Rightarrow> string \<Rightarrow> string \<Rightarrow> string \<Rightarrow> entry" where
  "http_entry ident now source host target = zero_entry\<lparr>e_ID := ident, e_StartTime := now,
     e_InboundNet := NetTCP, e_Inbound := ProtoHTTP, e_Source := source, e_Host := host,
     e_Target := target\<rparr>"

definition bad_gateway :: "byte list" where
  "bad_gateway = bytes_of (''HTTP/1.1 502 Bad Gateway'' @ crlf @ crlf)"

definition connection_established :: "byte list" where
  "connection_established = bytes_of (''HTTP/1.1 200 Connection Established'' @ crlf @ crlf)"

definition announce_established :: "conn \<Rightarrow> conn \<Rightarrow> bool \<times> conn \<times> conn" where
  "announce_established client upstream =
     (case writeConn connection_established client of
        (Inl e, c) \<Rightarrow> (False, c, upstream)
      | (Inr _, c) \<Rightarrow> (True, c, upstream))"

definition handleConnect ::
  "(nat \<Rightarrow> pool \<Rightarrow> pool) \<Rightarrow> (nat \<Rightarrow> nat \<Rightarrow> nat) \<Rightarrow> string \<Rightarrow> int \<Rightarrow> string \<Rightarrow> http_request \<Rightarrow> string \<Rightarrow>
   conn \<Rightarrow> server \<Rightarrow> (session_result \<times> server) option" where
  "handleConnect env rnd ident now source req preferred client sv =
     (let (host, port) = connect_target req in
      case joinedHost host port of
        Inl x \<Rightarrow> Some (Panics x, sv)
      | Inr target \<Rightarrow>
          serve env rnd (http_entry ident now source host target) bad_gateway
            announce_established preferred host port client sv)"

text \<open>\<open>writeRequest\<close> gives whether it succeeded, the client and the upstream after it.\<close>

definition handleForward ::
  "(http_request \<Rightarrow> conn \<Rightarrow> conn \<Rightarrow> bool \<times> conn \<times> conn) \<Rightarrow>
   (nat \<Rightarrow> pool \<Rightarrow> pool) \<Rightarrow> (nat \<Rightarrow> nat \<Rightarrow> nat) \<Rightarrow> string \<Rightarrow> int \<Rightarrow> string \<Rightarrow> http_request \<Rightarrow> string \<Rightarrow>
   conn \<Rightarrow> server \<Rightarrow> (session_result \<times> server) option" where
  "handleForward writeRequest env rnd ident now source req preferred client sv =
     (let (host, port) = forward_target req in
      case joinedHost host port of
        Inl x \<Rightarrow> Some (Panics x, sv)
      | Inr target \<Rightarrow>
          serve env rnd (http_entry ident now source host target) bad_gateway
            (writeRequest req) preferred host port client sv)"

definition http_handle ::
  "(io_error, http_request) io \<Rightarrow> (http_request \<Rightarrow> conn \<Rightarrow> conn \<Rightarrow> bool \<times> conn \<times> conn) \<Rightarrow>
   (nat \<Rightarrow> pool \<Rightarrow> pool) \<Rightarrow> (nat \<Rightarrow> nat \<Rightarrow> nat) \<Rightarrow> string \<Rightarrow> int \<Rightarrow> string \<Rightarrow> conn \<Rightarrow> server \<Rightarrow>
   (session_result \<times> server) option" where
  "http_handle readRequest writeRequest env rnd ident now source client sv =
     (case readRequest (client\<lparr>c_deadline := True\<rparr>) of
        (Inl e, c) \<Rightarrow> Some (Refused (closeConn c), sv)
      | (Inr req, c) \<Rightarrow>
          (let c' = c\<lparr>c_deadline := False\<rparr>; preferred = preferred_of req in
           if rq_Method req = ''CONNECT''
           then handleConnect env rnd ident now source req preferred c' sv
           else handleForward writeRequest env rnd ident now source req preferred c' sv))"

section \<open>Targets\<close>

lemma connect_target_HostPort:
  assumes "plain_host h" and "plain_port p"
  shows "connect_target (req\<lparr>rq_Host := JoinHostPort h p\<rparr>) = (h, of_int (parsePort p 443))"
  by (simp add: connect_target_def splitHostPort_def SplitHostPort_JoinHostPort [OF assms])

lemma connect_target_dialled:
  assumes "plain_host h" and "0 < n" and "n \<le> 65535" and "plain_port (itoa n)"
  shows "connect_target (req\<lparr>rq_Host := JoinHostPort h (itoa n)\<rparr>) = (h, of_nat n)"
  by (simp add: connect_target_HostPort [OF assms(1,4)] parsePort_itoa [OF assms(2,3)])

lemma http_entry_fresh: "fresh_entry (http_entry ident now source host target)" "e_ID (http_entry ident now source host target) = ident"
  by (simp_all add: http_entry_def fresh_entry_def zero_entry_def)

section \<open>Properties\<close>

lemma announce_established_out:
  "announce_established client u0 = (True, c, u) \<Longrightarrow>
   c_out c = c_out client @ connection_established \<and> pending c = pending client \<and> u = u0 \<and>
   c_deadline c = c_deadline client"
  by (auto simp: announce_established_def split: prod.splits sum.splits dest: writeConn_Inr)

text \<open>
  C10. A CONNECT request is answered truthfully. The client is told that the connection is
  established only when the pool has connected to the target, with nothing of what either
  side said lost in between and without a deadline; it is told ``bad gateway'', and its
  connection closed, when the pool could not. The registry shows the session exactly while it
  runs, and no panic can occur.
\<close>

theorem http_connect_answers_truthfully:
  assumes read: "readRequest (client\<lparr>c_deadline := True\<rparr>) = (Inr req, c0)" "rq_Method req = ''CONNECT''"
    and pool: "pool_ok (sv_Pool sv)" and cm: "cm_ok (sv_Cm sv)" and free: "Manager_Get ident (sv_Cm sv) = None"
  shows "\<exists>res sv'. http_handle readRequest writeRequest (\<lambda>_ q. q) rnd ident now source client sv = Some (res, sv') \<and>
    (let d = dialWithFailover (\<lambda>_ q. q) rnd (preferred_of req) (fst (connect_target req))
               (snd (connect_target req)) (sv_Pool sv) (sv_net sv)
     in case res of
       Piping c u r \<Rightarrow> c_out c = c_out c0 @ connection_established \<and> pending c = pending c0 \<and>
         \<not> c_deadline c \<and> Manager_Get ident (sv_Cm sv') = Some r \<and>
         (\<exists>name w. d = Some ((Inr u, name), sv_Pool sv', w) \<and> e_Proxy (m_obj (sv_Cm sv') r) = name)
     | NoUpstream err c \<Rightarrow> c_closed c \<and> (c_out c = c_out c0 \<or> c_out c = c_out c0 @ bad_gateway) \<and>
         m_entries (sv_Cm sv') = m_entries (sv_Cm sv)
     | Dropped c u \<Rightarrow> c_closed c \<and> c_closed u \<and> m_entries (sv_Cm sv') = m_entries (sv_Cm sv)
     | _ \<Rightarrow> False)"
proof -
  obtain host port where t: "connect_target req = (host, port)" by (cases "connect_target req")
  let ?c = "c0\<lparr>c_deadline := False\<rparr>" and ?e = "http_entry ident now source host (dial_target host port)"
  have free': "Manager_Get (e_ID ?e) (sv_Cm sv) = None" using free by (simp add: http_entry_fresh)
  from serve_session [OF pool cm free' http_entry_fresh(1), of rnd bad_gateway
      announce_established "preferred_of req" host port ?c]
  obtain res sv' where run: "serve (\<lambda>_ q. q) rnd ?e bad_gateway announce_established (preferred_of req) host port ?c sv =
      Some (res, sv')"
    and ok: "session_ok ?e bad_gateway announce_established rnd (preferred_of req) host port ?c sv res sv'"
    by blast
  have h: "http_handle readRequest writeRequest (\<lambda>_ q. q) rnd ident now source client sv = Some (res, sv')"
    using read run t by (simp add: http_handle_def handleConnect_def joinedHost_eq Let_def)
  show ?thesis
  proof (cases res)
    case (Piping c u r)
    with ok announce_established_out [of ?c _ c u] h t show ?thesis
      by (auto simp: session_ok_def http_entry_fresh)
  qed (use ok h t in \<open>auto simp: session_ok_def\<close>)
qed

definition example_request :: http_request where
  "example_request = \<lparr>rq_Method = ''CONNECT'', rq_Host = ''example.com:443'', rq_URL_User = None,
     rq_URL_Hostname = ''example.com'', rq_URL_Port = ''443'', rq_Header = []\<rparr>"

theorem http_connect_answers_truthfully_witness:
  "\<exists>res sv'. http_handle (\<lambda>c. (Inr example_request, c)) (\<lambda>req c u. (True, c, u)) (\<lambda>_ q. q) (\<lambda>_ _. 0)
     ''c1'' 0 ''127.0.0.1:5000'' (fresh_conn []) session_server = Some (res, sv')"
proof -
  let ?read = "\<lambda>c. (Inr example_request, c)" and ?c = "fresh_conn []\<lparr>c_deadline := True\<rparr>"
  have "?read (fresh_conn []\<lparr>c_deadline := True\<rparr>) = (Inr example_request, ?c)"
    "rq_Method example_request = ''CONNECT''" "pool_ok (sv_Pool session_server)"
    "cm_ok (sv_Cm session_server)" "Manager_Get ''c1'' (sv_Cm session_server) = None"
    by (simp_all add: example_request_def session_server_def example_pool_ok cm_ok_NewManager)
      (simp add: Manager_Get_def NewManager_def)
  from http_connect_answers_truthfully [where readRequest = ?read and client = "fresh_conn []", OF this] show ?thesis by blast
qed

end
