(* ===== verification/Socks5Server.thy ===== *)
theory Socks5Server
  imports Session
begin

text \<open>
  The local SOCKS5 server (\<open>internal/proxy/socks5.go\<close>): the negotiation with the client,
  step by step over its reads and writes, and the session that follows it. The properties
  tie it to the dialer of the same package, which speaks the other side of the protocol.
\<close>

section \<open>The code\<close>

datatype socks_error =
    SrvRead io_error
  | SrvWrite io_error
  | BadVersion byte
  | NoMethods
  | BadAuthVersion byte
  | BadCommand byte byte
  | BadAddrType byte

definition srd :: "nat \<Rightarrow> (socks_error, byte list) io" where
  "srd n = liftIO SrvRead (readFull n)"

definition swr :: "byte list \<Rightarrow> (socks_error, unit) io" where
  "swr bs = liftIO SrvWrite (writeConn bs)"

text \<open>A last write whose error is ignored, before the handler gives up.\<close>

definition refuse :: "byte list \<Rightarrow> socks_error \<Rightarrow> (socks_error, 'a) io" where
  "refuse bs e c = (Inl e, write_ignore bs c)"

definition choose_method :: "byte list \<Rightarrow> byte" where
  "choose_method methods =
     foldl (\<lambda>chosen m. if m = 0 then 0 else if m = 2 then (if chosen \<noteq> 0 then 2 else chosen) else chosen)
       255 methods"

definition srv_greeting :: "(socks_error, byte) io" where
  "srv_greeting =
     andThen (srd 2) (\<lambda>head.
     if head ! 0 \<noteq> 5 then fail (BadVersion (head ! 0))
     else
       andThen (srd (unat (head ! 1))) (\<lambda>methods.
       let chosen = choose_method methods in
       if chosen = 255 then refuse [5, 255] NoMethods
       else andThen (swr [5, chosen]) (\<lambda>_. ret chosen)))"

definition srv_auth :: "(socks_error, string) io" where
  "srv_auth =
     andThen (srd 1) (\<lambda>ver.
     if ver ! 0 \<noteq> 1 then fail (BadAuthVersion (ver ! 0))
     else
       andThen (srd 1) (\<lambda>ul.
       andThen (srd (unat (ul ! 0))) (\<lambda>userBuf.
       andThen (srd 1) (\<lambda>pl.
       andThen (srd (unat (pl ! 0))) (\<lambda>passBuf.
       andThen (swr [1, 0]) (\<lambda>_. ret (string_of userBuf)))))))"

definition srv_host :: "byte \<Rightarrow> (socks_error, string) io" where
  "srv_host atyp =
     (if atyp = 1 then andThen (srd 4) (\<lambda>ip. ret (IP_String ip))
      else if atyp = 3 then
        andThen (srd 1) (\<lambda>l. andThen (srd (unat (l ! 0))) (\<lambda>buf. ret (string_of buf)))
      else if atyp = 4 then andThen (srd 16) (\<lambda>ip. ret (IP_String ip))
      else refuse [5, 8, 0, 1, 0, 0, 0, 0, 0, 0] (BadAddrType atyp))"

definition srv_request :: "(socks_error, string \<times> u16) io" where
  "srv_request =
     andThen (srd 4) (\<lambda>reqHead.
     if reqHead ! 0 \<noteq> 5 \<or> reqHead ! 1 \<noteq> 1
     then refuse [5, 7, 0, 1, 0, 0, 0, 0, 0, 0] (BadCommand (reqHead ! 0) (reqHead ! 1))
     else
       andThen (srv_host (reqHead ! 3)) (\<lambda>host.
       andThen (srd 2) (\<lambda>portB.
       ret (host, push_bit 8 (ucast (portB ! 0)) OR ucast (portB ! 1)))))"

definition srv_negotiate :: "(socks_error, string \<times> string \<times> u16) io" where
  "srv_negotiate =
     andThen srv_greeting (\<lambda>chosen.
     andThen (if chosen = 2 then srv_auth else ret []) (\<lambda>preferred.
     andThen srv_request (\<lambda>(host, port). ret (preferred, host, port))))"

definition socks5_entry :: "string \<Rightarrow> int \<Rightarrow> string \<Rightarrow> string \<Rightarrow> u16 \<Rightarrow> entry" where
  "socks5_entry ident now source host port = zero_entry\<lparr>e_ID := ident, e_StartTime := now,
     e_InboundNet := NetTCP, e_Inbound := ProtoSOCKS5, e_Source := source, e_Host := host,
     e_Target := JoinHostPort host (sprint_int (uint port))\<rparr>"

definition socks5_ok :: "byte list" where
  "socks5_ok = [5, 0, 0, 1, 0, 0, 0, 0, 0, 0]"

definition socks5_failed :: "byte list" where
  "socks5_failed = [5, 5, 0, 1, 0, 0, 0, 0, 0, 0]"

text \<open>Writing a success reply to the client.\<close>

definition announce_client :: "byte list \<Rightarrow> conn \<Rightarrow> conn \<Rightarrow> bool \<times> conn \<times> conn" where
  "announce_client bs client upstream =
     (case writeConn bs client of
        (Inl e, c) \<Rightarrow> (False, c, upstream)
      | (Inr _, c) \<Rightarrow> (True, c, upstream))"

text \<open>
  \<open>handle\<close>. The read deadline is set first; the reads of the negotiation that it would cut
  short are those that find the stream ended.
\<close>

definition socks5_handle ::
  "(nat \<Rightarrow> pool \<Rightarrow> pool) \<Rightarrow> (nat \<Rightarrow> nat \<Rightarrow> nat) \<Rightarrow> string \<Rightarrow> int \<Rightarrow> string \<Rightarrow> conn \<Rightarrow> server \<Rightarrow>
   (session_result \<times> server) option" where
  "socks5_handle env rnd ident now source client sv =
     (case srv_negotiate (client\<lparr>c_deadline := True\<rparr>) of
        (Inl e, c) \<Rightarrow> Some (Refused (closeConn c), sv)
      | (Inr (preferred, host, port), c) \<Rightarrow>
          serve env rnd (socks5_entry ident now source host port) socks5_failed
            (announce_client socks5_ok) preferred host port c sv)"

section \<open>Method choice\<close>

lemma choose_method_eq:
  "choose_method ms = (if 0 \<in> set ms then 0 else if 2 \<in> set ms then 2 else 255)"
proof -
  have "foldl (\<lambda>chosen m. if m = 0 then 0 else if m = 2 then (if chosen \<noteq> 0 then 2 else chosen) else chosen) a ms =
      (if a = 0 \<or> 0 \<in> set ms then 0 else if 2 \<in> set ms then 2 else a)" for a :: byte
    by (induction ms arbitrary: a) auto
  then show ?thesis by (simp add: choose_method_def)
qed

section \<open>The two sides of the protocol\<close>

lemma exchange_swr: "exchange (swr bs) [] bs ()"
  unfolding swr_def by (intro exchange_liftIO exchange_writeConn)

lemma exchange_srd: "length bs = n \<Longrightarrow> exchange (srd n) bs [] bs"
  unfolding srd_def by (intro exchange_liftIO exchange_readFull)

text \<open>A read followed by the rest.\<close>

lemma exchange_srd_then:
  assumes "length bs = n" and "exchange (f bs) i out y"
  shows "exchange (andThen (srd n) f) (bs @ i) out y"
  by (rule exchange_andThen [where x = bs and f = f, OF exchange_srd [OF assms(1)] assms(2)]) simp_all

lemma exchange_greeting:
  assumes "m = 0 \<or> m = 2"
  shows "exchange srv_greeting [5, 1, m] [5, m] m"
proof -
  have ch: "choose_method [m] = m" "m \<noteq> 255" using assms by (auto simp: choose_method_eq)
  have "exchange (andThen (swr [5, m]) (\<lambda>_. ret m)) [] [5, m] m"
    by (rule exchange_andThen [OF exchange_swr]) (simp_all add: exchange_ret)
  then have "exchange (andThen (srd 1) (\<lambda>methods. let chosen = choose_method methods in
       if chosen = 255 then refuse [5, 255] NoMethods
       else andThen (swr [5, chosen]) (\<lambda>_. ret chosen))) ([m] @ []) [5, m] m"
    by - (rule exchange_srd_then, simp_all add: ch Let_def)
  then have "exchange srv_greeting ([5, 1] @ [m]) [5, m] m"
    unfolding srv_greeting_def by - (rule exchange_srd_then, simp_all)
  then show ?thesis by simp
qed

lemma unat_byte_of_len: "length s \<le> 255 \<Longrightarrow> unat (byte_of_len s) = length s"
  by (simp add: byte_of_len_def unat_of_nat)

lemma exchange_auth:
  assumes "length user \<le> 255" and "length pass \<le> 255"
  shows "exchange srv_auth (auth_packet 2 user pass) [1, 0] user"
proof -
  have len: "length (bytes_of pass) = unat ([byte_of_len pass] ! 0)"
    "length (bytes_of user) = unat ([byte_of_len user] ! 0)"
    using assms by (simp_all add: unat_byte_of_len)
  have "exchange (andThen (swr [1, 0]) (\<lambda>_. ret (string_of (bytes_of user)))) [] [1, 0] user"
    by (rule exchange_andThen [OF exchange_swr]) (simp_all add: exchange_ret)
  then have "exchange (andThen (srd (unat ([byte_of_len pass] ! 0))) (\<lambda>passBuf.
      andThen (swr [1, 0]) (\<lambda>_. ret (string_of (bytes_of user))))) (bytes_of pass @ []) [1, 0] user"
    by - (rule exchange_srd_then, rule len)
  then have "exchange (andThen (srd 1) (\<lambda>pl. andThen (srd (unat (pl ! 0))) (\<lambda>passBuf.
      andThen (swr [1, 0]) (\<lambda>_. ret (string_of (bytes_of user))))))
      ([byte_of_len pass] @ bytes_of pass @ []) [1, 0] user"
    by - (rule exchange_srd_then, simp_all)
  then have "exchange (andThen (srd (unat ([byte_of_len user] ! 0))) (\<lambda>userBuf.
      andThen (srd 1) (\<lambda>pl. andThen (srd (unat (pl ! 0))) (\<lambda>passBuf.
      andThen (swr [1, 0]) (\<lambda>_. ret (string_of userBuf))))))
      (bytes_of user @ [byte_of_len pass] @ bytes_of pass @ []) [1, 0] user"
    by - (rule exchange_srd_then, rule len)
  then have "exchange (andThen (srd 1) (\<lambda>ul. andThen (srd (unat (ul ! 0))) (\<lambda>userBuf.
      andThen (srd 1) (\<lambda>pl. andThen (srd (unat (pl ! 0))) (\<lambda>passBuf.
      andThen (swr [1, 0]) (\<lambda>_. ret (string_of userBuf)))))))
      ([byte_of_len user] @ bytes_of user @ [byte_of_len pass] @ bytes_of pass @ []) [1, 0] user"
    by - (rule exchange_srd_then, simp_all)
  then have "exchange srv_auth
      ([1] @ [byte_of_len user] @ bytes_of user @ [byte_of_len pass] @ bytes_of pass @ []) [1, 0] user"
    unfolding srv_auth_def by - (rule exchange_srd_then, simp_all)
  then show ?thesis by (simp add: auth_packet_def)
qed

text \<open>The host that the server reads out of what the client wrote for it.\<close>

definition canonical_host :: "string \<Rightarrow> string" where
  "canonical_host host = (case ParseIP host of None \<Rightarrow> host | Some ip \<Rightarrow> IP_String ip)"

lemma To4_short: "length q = 4 \<Longrightarrow> IP_String q = v4_string q"
  by (simp add: IP_String_def To4_def)

text \<open>Address type first, then what \<open>srv_host\<close> takes of the rest.\<close>

lemma exchange_host:
  assumes "socks5_addr host = Inr addr"
  shows "addr \<noteq> []" and "exchange (srv_host (hd addr)) (tl addr) [] (canonical_host host)"
proof -
  have h: "addr \<noteq> [] \<and> exchange (srv_host (hd addr)) (tl addr) [] (canonical_host host)"
  proof (cases "ParseIP host")
    case None
    with assms have len: "length host \<le> 255" and addr: "addr = [3, byte_of_len host] @ bytes_of host"
      by (auto simp: socks5_addr_def split: if_splits)
    have l: "length (bytes_of host) = unat ([byte_of_len host] ! 0)"
      using len by (simp add: unat_byte_of_len)
    have "exchange (andThen (srd (unat ([byte_of_len host] ! 0))) (\<lambda>buf. ret (string_of buf)))
        (bytes_of host @ []) [] host"
      by (rule exchange_srd_then [OF l]) (simp add: exchange_ret)
    then have "exchange (srv_host 3) ([byte_of_len host] @ bytes_of host @ []) [] host"
      unfolding srv_host_def by (simp del: append_Cons append_Nil) (rule exchange_srd_then, simp_all)
    with addr None show ?thesis by (simp add: canonical_host_def)
  next
    case (Some ip)
    show ?thesis
    proof (cases "To4 ip")
      case None
      with Some assms have addr: "addr = 4 # ip" by (auto simp: socks5_addr_def)
      have "exchange (andThen (srd 16) (\<lambda>ip. ret (IP_String ip))) (ip @ []) [] (IP_String ip)"
        by (rule exchange_srd_then [OF ParseIP_length [OF Some]]) (simp add: exchange_ret)
      with addr Some show ?thesis by (simp add: srv_host_def canonical_host_def)
    next
      case q: (Some q)
      with Some assms have addr: "addr = 1 # q" by (auto simp: socks5_addr_def)
      have "exchange (andThen (srd 4) (\<lambda>ip. ret (IP_String ip))) (q @ []) [] (IP_String q)"
        by (rule exchange_srd_then [OF To4_length [OF q]]) (simp add: exchange_ret)
      moreover have "IP_String ip = IP_String q"
        using q by (simp add: To4_short [OF To4_length [OF q]]) (simp add: IP_String_def)
      ultimately show ?thesis using addr Some by (simp add: srv_host_def canonical_host_def)
    qed
  qed
  then show "addr \<noteq> []" "exchange (srv_host (hd addr)) (tl addr) [] (canonical_host host)"
    by simp_all
qed

lemma port_of_bytes: "(push_bit 8 (ucast (port_bytes port ! 0)) OR ucast (port_bytes port ! 1) :: u16) = port"
  by (rule bit_word_eqI) (auto simp: port_bytes_def bit_simps)

lemma exchange_request:
  assumes "socks5_addr host = Inr addr"
  shows "exchange srv_request ([5, 1, 0] @ addr @ port_bytes port) [] (canonical_host host, port)"
proof -
  let ?port = "\<lambda>portB. push_bit 8 (ucast (portB ! 0)) OR ucast (portB ! 1) :: u16"
  have "exchange (andThen (srd 2) (\<lambda>portB. ret (canonical_host host, ?port portB)))
      (port_bytes port @ []) [] (canonical_host host, port)"
    by (rule exchange_srd_then) (simp add: port_bytes_def, simp add: port_of_bytes [simplified] exchange_ret)
  from exchange_andThen [where f = "\<lambda>host. andThen (srd 2) (\<lambda>portB. ret (host, ?port portB))",
      OF exchange_host(2) [OF assms] this refl refl]
  have "exchange (andThen (srv_host (hd addr)) (\<lambda>host. andThen (srd 2) (\<lambda>portB. ret (host, ?port portB))))
      (tl addr @ port_bytes port) [] (canonical_host host, port)" by simp
  then have "exchange srv_request ([5, 1, 0, hd addr] @ tl addr @ port_bytes port) []
      (canonical_host host, port)"
    unfolding srv_request_def by - (rule exchange_srd_then, simp_all)
  with exchange_host(1) [OF assms] show ?thesis by (cases addr) simp_all
qed

text \<open>
  C20. The local server and the dialer of the same package speak the same protocol. Against the
  bytes the dialer writes for a host, a port and credentials, cut into segments in any way,
  the server takes all of them and nothing more and comes out with that port, that user as the
  preferred upstream, and that host: a domain name as it was, an IP address in the standard
  library's canonical form. And what it answers, followed by its success reply, is a script
  that the dialer completes.
\<close>

theorem socks5_server_agrees_with_dialer:
  assumes addr: "socks5_addr host = Inr addr" and len: "length user \<le> 255" "length pass \<le> 255"
    and m: "m = (if user \<noteq> [] \<or> pass \<noteq> [] then 2 else 0)"
  shows "exchange srv_negotiate (client_script m user pass addr port) ([5, m] @ auth_reply m 1)
      (user, canonical_host host, port) \<and>
    [5, m] @ auth_reply m 1 @ socks5_ok = server_script m 1 0 1 [0, 0, 0, 0, 0, 0] \<and>
    bound_addr 1 [0, 0, 0, 0, 0, 0]"
proof -
  let ?req = "[5, 1, 0] @ addr @ port_bytes port"
  have g: "socks5_greeting user pass = [5, 1, m]" using m by (simp add: socks5_greeting_def)
  have req: "exchange (andThen srv_request (\<lambda>(host, port). ret (user, host, port))) ?req []
      (user, canonical_host host, port)"
    by (rule exchange_andThen [where ib = "[]" and ob = "[]", OF exchange_request [OF addr]])
      (simp_all add: exchange_ret)
  have auth: "exchange (if m = 2 then srv_auth else ret []) (auth_packet m user pass) (auth_reply m 1) user"
  proof (cases "m = 2")
    case True
    with exchange_auth [OF len] show ?thesis by (simp add: auth_reply_def)
  next
    case False
    with m have "user = []" by (auto split: if_splits)
    with False show ?thesis by (simp add: auth_packet_def auth_reply_def exchange_ret)
  qed
  have rest: "exchange (andThen (if m = 2 then srv_auth else ret []) (\<lambda>preferred.
      andThen srv_request (\<lambda>(host, port). ret (preferred, host, port))))
      (auth_packet m user pass @ ?req) (auth_reply m 1 @ []) (user, canonical_host host, port)"
    by (rule exchange_andThen [OF auth _ refl refl]) (rule req)
  have "m = 0 \<or> m = 2" using m by simp
  from exchange_andThen [where f = "\<lambda>chosen. andThen (if chosen = 2 then srv_auth else ret [])
      (\<lambda>preferred. andThen srv_request (\<lambda>(host, port). ret (preferred, host, port)))",
      OF exchange_greeting [OF this] rest refl refl]
  have "exchange srv_negotiate ([5, 1, m] @ auth_packet m user pass @ ?req) ([5, m] @ auth_reply m 1 @ [])
      (user, canonical_host host, port)"
    by (simp only: srv_negotiate_def)
  then show ?thesis
    using example_bound by (simp add: client_script_def g server_script_def socks5_ok_def)
qed

theorem socks5_server_agrees_with_dialer_witness:
  "exchange srv_negotiate (client_script 2 ''node1'' [] example_addr 443) [5, 2, 1, 0]
     (''node1'', ''example.com'', 443)"
proof -
  have "ParseIP ''example.com'' = None" by code_simp
  with socks5_server_agrees_with_dialer [OF example_addr, of "''node1''" "[]" 2 443] show ?thesis
    by (simp add: auth_reply_def canonical_host_def)
qed

section \<open>The session\<close>

lemma socks5_entry_fresh: "fresh_entry (socks5_entry ident now source host port)"
  "e_ID (socks5_entry ident now source host port) = ident"
  by (simp_all add: socks5_entry_def fresh_entry_def zero_entry_def)

lemma announce_client_out:
  "announce_client bs client u0 = (True, c, u) \<Longrightarrow>
   c_out c = c_out client @ bs \<and> pending c = pending client \<and> u = u0"
  by (auto simp: announce_client_def split: prod.splits sum.splits dest: writeConn_Inr)



section \<open>What the client asked for\<close>

lemma srd_Inr: "srd n c = (Inr bs, c') \<Longrightarrow> length bs = n \<and> pending c = bs @ pending c'"
  by (auto simp: srd_def liftIO_def split: prod.splits sum.splits dest: readFull_Inr)

text \<open>
  A client that offers ``no authentication'' among its methods is never asked for its user
  name, so no upstream is preferred for it, also when it offers user and password as well.
\<close>

theorem socks5_no_auth_wins:
  assumes n: "srv_negotiate c = (Inr (preferred, host, port), c')"
    and methods: "pending c = [5, k] @ ms @ rest" "length ms = unat k" and zero: "0 \<in> set ms"
  shows "preferred = []"
proof -
  from n obtain chosen c1 c2 where g: "srv_greeting c = (Inr chosen, c1)"
    and a: "(if chosen = 2 then srv_auth else ret []) c1 = (Inr preferred, c2)"
    by (auto simp: srv_negotiate_def andThen_Inr_iff)
  from g obtain head c3 ms' c4 where h: "srd 2 c = (Inr head, c3)" "srd (unat (head ! 1)) c3 = (Inr ms', c4)"
    and ch: "chosen = choose_method ms'"
    by (auto simp: srv_greeting_def andThen_Inr_iff Let_def refuse_def split: if_splits)
  from srd_Inr [OF h(1)] methods(1) have head: "head = [5, k]" "pending c3 = ms @ rest"
    by (auto simp: two_bytes)
  with srd_Inr [OF h(2)] methods(2) have "ms' = ms" by auto
  with ch zero have "chosen = 0" by (simp add: choose_method_eq)
  with a show ?thesis by simp
qed

theorem socks5_no_auth_wins_witness:
  "fst (srv_negotiate (fresh_conn [[5, 2, 2, 0], [5, 1, 0, 1, 10, 0, 0, 1, 0, 80]])) =
     Inr ([], ''10.0.0.1'', 80)"
proof -
  let ?c = "fresh_conn [[5, 2, 2, 0], [5, 1, 0, 1, 10, 0, 0, 1, 0, 80]]"
  obtain c' where n: "srv_negotiate ?c = (Inr ([], ''10.0.0.1'', 80), c')"
  proof -
    have "fst (srv_negotiate ?c) = Inr ([], ''10.0.0.1'', 80)" by code_simp
    then show thesis using that by (metis prod.collapse)
  qed
  have "pending ?c = [5, 2] @ [2, 0] @ [5, 1, 0, 1, 10, 0, 0, 1, 0, 80]"
    by (simp add: pending_def fresh_conn_def)
  from socks5_no_auth_wins [OF n this] n show ?thesis by simp
qed

section \<open>The deadline\<close>

lemma io_tame_srv [io_rules]: "io_tame (srd n)" "io_tame (swr bs)" "io_tame (refuse bs e)"
  by (simp_all add: srd_def swr_def io_rules)
    (auto simp: io_tame_def refuse_def write_ignore_def writeConn_def pending_def
      split: option.split nat.split)

lemma io_tame_srv_negotiate: "io_tame srv_negotiate"
  unfolding srv_negotiate_def srv_greeting_def srv_auth_def srv_request_def srv_host_def
  by (auto intro!: io_tame_andThen simp: io_rules Let_def split: prod.split)

lemma serve_Piping:
  assumes "serve env rnd e refusal announce preferred host port client sv = Some (Piping c u r, sv')"
  shows "\<exists>u0. announce client u0 = (True, c, u)"
  using assms
  by (auto simp: serve_def Let_def leave_def split: prod.splits option.splits sum.splits bool.splits)

lemma announce_deadline: "announce_client bs client u0 = (b, c, u) \<Longrightarrow> c_deadline c = c_deadline client"
  by (auto simp: announce_client_def writeConn_def split: prod.splits sum.splits if_splits
      option.splits nat.splits)

lemma socks5_Piping_deadline:
  assumes "socks5_handle env rnd ident now source client sv = Some (Piping c u r, sv')"
  shows "c_deadline c"
proof -
  obtain q c1 where q: "srv_negotiate (client\<lparr>c_deadline := True\<rparr>) = (q, c1)"
    by (cases "srv_negotiate (client\<lparr>c_deadline := True\<rparr>)")
  have "c_deadline c1" using io_tameD(2) [OF io_tame_srv_negotiate q] by simp
  moreover from assms q obtain u0 where "announce_client socks5_ok c1 u0 = (True, c, u)"
    by (auto simp: socks5_handle_def split: sum.splits dest: serve_Piping)
  ultimately show ?thesis by (simp add: announce_deadline)
qed

text \<open>
  C38. The handler sets a read deadline of 30 seconds for the negotiation and never clears it.
  So a SOCKS5 tunnel that is still in use when it passes is torn down: as soon as the upload
  loop reads again, both connections are closed, with whatever the client had sent lost.
\<close>

theorem socks5_tunnel_dies_at_deadline:
  assumes "socks5_handle env rnd ident now source client sv = Some (Piping c u r, sv')"
    and "reach (pipe_start c u) world_step s" and "pi_late s"
    and "pi_up s = Reading" and "pi_main s = Selecting"
  shows "\<exists>s1 s2. pipe_step s s1 \<and> pipe_step s1 s2 \<and> c_closed (pi_client s2) \<and>
    c_closed (pi_upstream s2) \<and> pending (pi_client s2) = pending (pi_client s)"
  by (rule deadline_cuts [OF assms(2) socks5_Piping_deadline [OF assms(1)] assms(3-5)])

text \<open>A run with the example pool: the direct upstream serves the client.\<close>

lemma example_dial:
  "\<exists>w. dialWithFailover (\<lambda>_ q. q) (\<lambda>_ _. 0) [] ''10.0.0.1'' 80 (example_pool ''random'') all_up =
     Some ((Inr (fresh_conn []), ''direct''), example_pool ''random'', w)"
proof -
  have "Select (\<lambda>_. 0) [] ''10.0.0.1'' (example_pool ''random'') = (Inr 0, example_pool ''random'')"
    by (simp add: Select_def example_pool_simps effective_name_def index_of_def fastRandN_def Let_def)
  then have "pick (\<lambda>_. 0) [] ''10.0.0.1'' (example_pool ''random'') =
      (Inr (upstream_of_entry direct_entry\<lparr>up_healthy := True\<rparr>), example_pool ''random'')"
    by (simp add: pick_def example_direct)
  then show ?thesis
    by (simp add: dialWithFailover_def failover_loop.simps Pool_List_def example_pool_simps
        upstream_of_entry_def direct_entry_def Dial_def joinedHost_eq tcpDial_def all_up_def Let_def)
qed

definition socks5_example_client :: conn where
  "socks5_example_client = fresh_conn [[5, 1, 0], [5, 1, 0, 1, 10, 0, 0, 1, 0, 80], [7, 7]]"

lemma socks5_example_run:
  "\<exists>c u r sv'. socks5_handle (\<lambda>_ q. q) (\<lambda>_ _. 0) ''c1'' 0 ''127.0.0.1:5000'' socks5_example_client
     session_server = Some (Piping c u r, sv') \<and>
     e_Upload (m_obj (sv_Cm sv') r) = 0 \<and> e_Download (m_obj (sv_Cm sv') r) = 0"
proof -
  obtain w where d: "dialWithFailover (\<lambda>_ q. q) (\<lambda>_ _. 0) [] ''10.0.0.1'' 80 (example_pool ''random'') all_up =
     Some ((Inr (fresh_conn []), ''direct''), example_pool ''random'', w)"
    using example_dial by blast
  have n: "srv_negotiate (socks5_example_client\<lparr>c_deadline := True\<rparr>) =
      (Inr ([], ''10.0.0.1'', 80), \<lparr>c_in = [[7, 7]], c_out = [5, 0], c_wlim = None, c_closed = False,
         c_deadline = True\<rparr>)"
    by code_simp
  show ?thesis
    by (simp add: socks5_handle_def n serve_def session_server_def new_entry_def NewManager_def d
        announce_client_def writeConn_def socks5_entry_def zero_entry_def)
qed

theorem socks5_tunnel_dies_at_deadline_witness:
  "\<exists>s s1 s2. pi_late s \<and> pipe_step s s1 \<and> pipe_step s1 s2 \<and> c_closed (pi_client s2) \<and>
     c_closed (pi_upstream s2)"
proof -
  from socks5_example_run obtain c u r sv' where
    run: "socks5_handle (\<lambda>_ q. q) (\<lambda>_ _. 0) ''c1'' 0 ''127.0.0.1:5000'' socks5_example_client
      session_server = Some (Piping c u r, sv')"
    and z: "e_Upload (m_obj (sv_Cm sv') r) = 0" "e_Download (m_obj (sv_Cm sv') r) = 0" by blast
  let ?s = "(init_pipe c u r (sv_Cm sv'))\<lparr>pi_late := True\<rparr>"
  have "reach (pipe_start c u) world_step (init_pipe c u r (sv_Cm sv'))"
    using z by (intro reach_start) (auto simp: pipe_start_def)
  then have "reach (pipe_start c u) world_step ?s"
    by (rule reach_step) (simp add: world_step_def deadline)
  moreover have "pi_late ?s" "pi_up ?s = Reading" "pi_main ?s = Selecting"
    by (simp_all add: init_pipe_def)
  ultimately show ?thesis using socks5_tunnel_dies_at_deadline [OF run] by blast
qed

end
