(* ===== verification/Sources.thy ===== *)
theory Sources
  imports GoText
begin

text \<open>
  The parsers of the free-proxy sources (\<open>internal/freeproxy/sources.go\<close>): the text parser
  over regular expressions, the JSON parser with its path language, and the dispatch. The
  default expression is run by a backtracking matcher, a source's own expression comes from
  \<open>regexp.Compile\<close> and is a parameter, as is \<open>json.Unmarshal\<close>. Fetching is in the theory
  of the crawler.
\<close>

section \<open>Data\<close>

record free_entry =
  fe_Addr :: string
  fe_Type :: string
  fe_Source :: string

record source =
  src_Name :: string
  src_URL :: string
  src_Type :: string
  src_Enabled :: bool
  src_JSONPath :: string
  src_Regex :: string
  src_Headers :: "(string \<times> string) list"

definition found :: "string \<Rightarrow> string \<Rightarrow> free_entry" where
  "found name addr = \<lparr>fe_Addr = addr, fe_Type = ''http'', fe_Source = name\<rparr>"

text \<open>The loop that collects addresses, each once, in all three parsers.\<close>

definition collect_addrs :: "string \<Rightarrow> string list \<Rightarrow> free_entry list" where
  "collect_addrs name addrs = map (found name) (keep_new (\<lambda>a. a) {} addrs)"

section \<open>The built-in sources\<close>

text \<open>Expressions are written with a tilde for the backslash.\<close>

definition rx :: "string \<Rightarrow> string" where
  "rx s = map (\<lambda>c. if c = CHR ''~'' then CHR 0x5C else c) s"

definition html_source :: "string \<Rightarrow> string \<Rightarrow> string \<Rightarrow> source" where
  "html_source name url regex =
     \<lparr>src_Name = name, src_URL = url, src_Type = ''html'', src_Enabled = True, src_JSONPath = [],
      src_Regex = rx regex, src_Headers = []\<rparr>"

definition json_source :: "string \<Rightarrow> string \<Rightarrow> string \<Rightarrow> source" where
  "json_source name url path =
     \<lparr>src_Name = name, src_URL = url, src_Type = ''json'', src_Enabled = True, src_JSONPath = path,
      src_Regex = [], src_Headers = []\<rparr>"

definition table_regex :: string where
  "table_regex =
     ''<td[^>]*>(~d{1,3}~.~d{1,3}~.~d{1,3}~.~d{1,3})</td>~s*<td[^>]*>(~d{2,5})</td>''"

definition BuiltinSources :: "source list" where
  "BuiltinSources =
     [html_source ''kuaidaili'' ''https://www.kuaidaili.com/free/inha/1/'' table_regex,
      html_source ''ihuan'' ''https://ip.ihuan.me/'' table_regex,
      html_source ''ip89'' ''https://www.89ip.cn/index_1.html''
        ''<td[^>]*>[~s~S]*?(~d{1,3}~.~d{1,3}~.~d{1,3}~.~d{1,3})[~s~S]*?</td>[~s~S]*?<td[^>]*>[~s~S]*?(~d+)[~s~S]*?</td>'',
      html_source ''ip3366'' ''http://www.ip3366.net/free/?stype=1''
        ''<td>(~d{1,3}~.~d{1,3}~.~d{1,3}~.~d{1,3})</td>[~s~S]*?<td>(~d+)</td>'',
      html_source ''kxdaili'' ''http://www.kxdaili.com/dailiip.html'' table_regex,
      json_source ''daili66'' ''http://api.66daili.com/?format=json''
        ''data[*].ip,data[*].port'',
      json_source ''docip'' ''https://www.docip.net/data/free.json''
        ''data[*].ip'',
      html_source ''freevpnnode'' ''https://cn.freevpnnode.com/free-proxy/''
        ''(~d{1,3}~.~d{1,3}~.~d{1,3}~.~d{1,3})[:~s]+(~d{2,5})'',
      json_source ''geonode'' ''https://proxylist.geonode.com/api/proxy-list?limit=100&page=1&sort_by=lastChecked&sort_type=desc''
        ''data[*].ip,data[*].port'',
      html_source ''goodips'' ''https://www.goodips.com/''
        ''<li[^>]*>(~d{1,3}~.~d{1,3}~.~d{1,3}~.~d{1,3})</li>~s*<li[^>]*>(~d{2,5})</li>'',
      json_source ''proxifly'' ''https://cdn.jsdelivr.net/gh/proxifly/free-proxy-list@main/proxies/all/data.json''
        ''[*].proxy'',
      json_source ''roundproxies'' ''https://roundproxies.com/api/get-free-proxies/?limit=50&page=1&sort_by=lastChecked&sort_type=desc''
        ''data[*].ip,data[*].port'',
      json_source ''scdn'' ''https://proxy.scdn.io/get_proxies.php?protocol=&country=&per_page=100&page=1''
        ''data[*].ip,data[*].port'',
      html_source ''zdaye'' ''https://www.zdaye.com/free/'' table_regex]"

section \<open>Regular expressions\<close>

text \<open>
  The default expression is a sequence of character classes, each with a repetition, so a
  term is a class, its bounds, and the capture group it stands in (0 is none). The matcher
  tries the longest repetition first and backtracks, which is the leftmost-first semantics of
  the package; it returns what each term has consumed.
\<close>

datatype rx_term = Term "char \<Rightarrow> bool" nat "nat option" nat

fun first_some :: "('a \<Rightarrow> 'b option) \<Rightarrow> 'a list \<Rightarrow> 'b option" where
  "first_some f [] = None"
| "first_some f (x # xs) = (case f x of Some y \<Rightarrow> Some y | None \<Rightarrow> first_some f xs)"

definition run_length :: "(char \<Rightarrow> bool) \<Rightarrow> nat option \<Rightarrow> string \<Rightarrow> nat" where
  "run_length p hi s =
     (let n = length (takeWhile p s) in case hi of None \<Rightarrow> n | Some h \<Rightarrow> min h n)"

fun rx_match :: "rx_term list \<Rightarrow> string \<Rightarrow> string list option" where
  "rx_match [] s = Some []"
| "rx_match (Term p lo hi g # ts) s =
     first_some (\<lambda>n. map_option (\<lambda>ps. take n s # ps) (rx_match ts (drop n s)))
       (rev [lo..<Suc (run_length p hi s)])"

definition capture :: "nat \<Rightarrow> rx_term list \<Rightarrow> string list \<Rightarrow> string" where
  "capture k ts ps = concat (map snd (filter (\<lambda>(t, p). case t of Term _ _ _ g \<Rightarrow> g = k) (zip ts ps)))"

text \<open>
  \<open>FindAllSubmatch\<close> for an expression with two groups that matches no empty text: the
  matches from left to right, none overlapping another.
\<close>

function find_all :: "rx_term list \<Rightarrow> string \<Rightarrow> string list list" where
  "find_all ts [] = []"
| "find_all ts (c # s) =
     (case rx_match ts (c # s) of
        None \<Rightarrow> find_all ts s
      | Some ps \<Rightarrow>
          [concat ps, capture 1 ts ps, capture 2 ts ps] #
          find_all ts (drop (length (concat ps) - 1) s))"
  by pat_completeness auto
termination by (relation "measure (\<lambda>(ts, s). length s)") auto

definition is_white :: "char \<Rightarrow> bool" where
  "is_white c \<longleftrightarrow> c \<in> {CHR 0x09, CHR 0x0A, CHR 0x0C, CHR 0x0D, CHR '' ''}"

definition is_sep :: "char \<Rightarrow> bool" where
  "is_sep c \<longleftrightarrow> c = CHR '':'' \<or> is_white c"

definition is_dot :: "char \<Rightarrow> bool" where
  "is_dot c \<longleftrightarrow> c = CHR ''.''"

definition defaultIPPortRegex :: "rx_term list" where
  "defaultIPPortRegex =
     [Term is_digit 1 (Some 3) 1, Term is_dot 1 (Some 1) 1,
      Term is_digit 1 (Some 3) 1, Term is_dot 1 (Some 1) 1,
      Term is_digit 1 (Some 3) 1, Term is_dot 1 (Some 1) 1,
      Term is_digit 1 (Some 3) 1,
      Term is_sep 1 None 0,
      Term is_digit 2 (Some 5) 2]"

section \<open>The text parser\<close>

text \<open>
  A compiled expression is its \<open>FindAllSubmatch\<close>. A match that has fewer than two groups
  makes \<open>m[1]\<close> or \<open>m[2]\<close> panic.
\<close>

definition match_addr :: "string list \<Rightarrow> go_panic + string" where
  "match_addr m =
     (case go_index m 1 of
        Inl p \<Rightarrow> Inl p
      | Inr a \<Rightarrow> (case go_index m 2 of Inl p \<Rightarrow> Inl p | Inr b \<Rightarrow> Inr (a @ '':'' @ b)))"

fun match_addrs :: "string list list \<Rightarrow> go_panic + string list" where
  "match_addrs [] = Inr []"
| "match_addrs (m # ms) =
     (case match_addr m of
        Inl p \<Rightarrow> Inl p
      | Inr a \<Rightarrow> (case match_addrs ms of Inl p \<Rightarrow> Inl p | Inr as \<Rightarrow> Inr (a # as)))"

datatype parse_error = CompileRegex string | JsonUnmarshal string

type_synonym finder = "string \<Rightarrow> string list list"
type_synonym parsed = "go_panic + (parse_error + free_entry list)"

definition parseText :: "(string \<Rightarrow> string + finder) \<Rightarrow> string \<Rightarrow> source \<Rightarrow> parsed" where
  "parseText compile body src =
     (let re = (if src_Regex src \<noteq> [] then compile (src_Regex src)
                else Inr (find_all defaultIPPortRegex))
      in case re of
           Inl e \<Rightarrow> Inr (Inl (CompileRegex e))
         | Inr findAll \<Rightarrow>
             (case match_addrs (findAll body) of
                Inl p \<Rightarrow> Inl p
              | Inr addrs \<Rightarrow> Inr (Inr (collect_addrs (src_Name src) addrs))))"

definition parseHTML :: "(string \<Rightarrow> string + finder) \<Rightarrow> string \<Rightarrow> source \<Rightarrow> parsed" where
  "parseHTML compile body src = parseText compile body src"

section \<open>Paths into JSON\<close>

text \<open>\<open>splitPath\<close>; the first argument is \<open>path[start:i]\<close>.\<close>

fun split_path_loop :: "string \<Rightarrow> string \<Rightarrow> string list" where
  "split_path_loop cur [] = (if cur \<noteq> [] then [cur] else [])"
| "split_path_loop cur (c # s) =
     (if c = CHR ''.'' then (if cur \<noteq> [] then [cur] else []) @ split_path_loop [] s
      else if c = CHR ''['' \<and> 2 \<le> length s \<and> take 2 s = ''*]''
        then (if cur \<noteq> [] then [cur] else []) @ ''[*]'' # split_path_loop [] (drop 2 s)
      else split_path_loop (cur @ [c]) s)"

definition splitPath :: "string \<Rightarrow> string list" where
  "splitPath path = split_path_loop [] path"

text \<open>\<open>strings.Join\<close> with a dot.\<close>

fun join_dots :: "string list \<Rightarrow> string" where
  "join_dots [] = []"
| "join_dots [s] = s"
| "join_dots (s # t # ts) = s @ ''.'' @ join_dots (t # ts)"

text \<open>\<open>%.0f\<close>: the nearest integer, a tie to the even one, with the sign of the number.\<close>

definition sprint_float0 :: "bool \<Rightarrow> nat \<Rightarrow> nat \<Rightarrow> string" where
  "sprint_float0 neg m e =
     (let q = m div 2 ^ e; r = 2 * (m mod 2 ^ e);
          n = (if r > 2 ^ e \<or> r = 2 ^ e \<and> odd q then q + 1 else q)
      in (if neg then ''-'' else []) @ itoa n)"

fun scalar_text :: "any \<Rightarrow> string list" where
  "scalar_text (AnyString s) = [s]"
| "scalar_text (AnyFloat neg m e) = [sprint_float0 neg m e]"
| "scalar_text _ = []"

fun leaf_text :: "any \<Rightarrow> string list" where
  "leaf_text (AnyList xs) = concat (map scalar_text xs)"
| "leaf_text v = scalar_text v"

text \<open>
  \<open>extractField\<close>, and its loop over the segments. A value gets smaller with every segment
  that is followed and every element that is entered.
\<close>

lemma size_map_of: "map_of kvs k = Some v \<Longrightarrow> size v < size (AnyMap kvs)"
proof (induction kvs)
  case (Cons kv kvs)
  then show ?case by (cases kv) (auto split: if_splits)
qed simp

lemma size_list_mem: "x \<in> set xs \<Longrightarrow> size x < size (AnyList xs)"
  by (induction xs) auto

function extractField :: "any \<Rightarrow> string \<Rightarrow> string list"
  and extract_loop :: "any \<Rightarrow> string list \<Rightarrow> string list" where
  "extractField data path =
     (let segments = splitPath path in if segments = [] then [] else extract_loop data segments)"
| "extract_loop current [] = leaf_text current"
| "extract_loop current (seg # segs) =
     (if seg = ''[*]'' then
        (case current of
           AnyList arr \<Rightarrow> concat (map (\<lambda>item. extractField item (join_dots segs)) arr)
         | _ \<Rightarrow> [])
      else
        (case current of
           AnyMap kvs \<Rightarrow>
             (case map_of kvs seg of
                None \<Rightarrow> []
              | Some v \<Rightarrow> if v = AnyNil then [] else extract_loop v segs)
         | _ \<Rightarrow> []))"
  by pat_completeness auto
termination
proof (relation "measure (\<lambda>x. case x of Inl (d, _) \<Rightarrow> 2 * size d + 1 | Inr (d, _) \<Rightarrow> 2 * size d)",
    goal_cases)
  case (3 current seg segs arr item)
  then show ?case using size_list_mem [of item arr] by simp
next
  case (4 current seg segs kvs v)
  then show ?case using size_map_of [of kvs seg v] by simp
qed simp_all

declare extractField.simps [simp del]

section \<open>The JSON parser\<close>

text \<open>\<open>strings.Split\<close> at commas, \<open>strings.TrimSpace\<close> over the Unicode white space.\<close>

fun split_commas :: "string \<Rightarrow> string list" where
  "split_commas [] = [[]]"
| "split_commas (c # s) =
     (if c = CHR '','' then [] # split_commas s
      else (case split_commas s of [] \<Rightarrow> [[c]] | p # ps \<Rightarrow> (c # p) # ps))"

definition white_runes :: "string list" where
  "white_runes =
     [[CHR 0x09], [CHR 0x0A], [CHR 0x0B], [CHR 0x0C], [CHR 0x0D], [CHR 0x20],
      [CHR 0xC2, CHR 0x85], [CHR 0xC2, CHR 0xA0], [CHR 0xE1, CHR 0x9A, CHR 0x80]] @
     map (\<lambda>n. [CHR 0xE2, CHR 0x80, char_of n]) [0x80..<(0x8B::nat)] @
     [[CHR 0xE2, CHR 0x80, CHR 0xA8], [CHR 0xE2, CHR 0x80, CHR 0xA9], [CHR 0xE2, CHR 0x80, CHR 0xAF],
      [CHR 0xE2, CHR 0x81, CHR 0x9F], [CHR 0xE3, CHR 0x80, CHR 0x80]]"

function trim_left :: "string list \<Rightarrow> string \<Rightarrow> string" where
  "trim_left ws s =
     (case find (\<lambda>w. w \<noteq> [] \<and> has_prefix w s) ws of
        None \<Rightarrow> s
      | Some w \<Rightarrow> trim_left ws (drop (length w) s))"
  by pat_completeness auto
termination
  by (relation "measure (\<lambda>(ws, s). length s)") (auto simp: find_Some_iff has_prefix_iff)

declare trim_left.simps [simp del]

definition TrimSpace :: "string \<Rightarrow> string" where
  "TrimSpace s = rev (trim_left (map rev white_runes) (rev (trim_left white_runes s)))"

definition extractByPath :: "any \<Rightarrow> string \<Rightarrow> string \<Rightarrow> free_entry list" where
  "extractByPath data path sourceName =
     (case split_commas path of
        [p0, p1] \<Rightarrow>
          (let ips = extractField data (TrimSpace p0); ports = extractField data (TrimSpace p1)
           in collect_addrs sourceName (map (\<lambda>(ip, port). ip @ '':'' @ port) (zip ips ports)))
      | _ \<Rightarrow>
          collect_addrs sourceName
            (filter (\<lambda>v. CHR '':'' \<in> set v) (extractField data (TrimSpace path))))"

definition parseJSON ::
  "(string \<Rightarrow> string + finder) \<Rightarrow> (string \<Rightarrow> string + any) \<Rightarrow> string \<Rightarrow> source \<Rightarrow> parsed" where
  "parseJSON compile unmarshal body src =
     (if src_JSONPath src = [] then parseText compile body src
      else
        (case unmarshal body of
           Inl e \<Rightarrow> Inr (Inl (JsonUnmarshal e))
         | Inr data \<Rightarrow> Inr (Inr (extractByPath data (src_JSONPath src) (src_Name src)))))"

definition ParseSourceResponse ::
  "(string \<Rightarrow> string + finder) \<Rightarrow> (string \<Rightarrow> string + any) \<Rightarrow> source \<Rightarrow> string \<Rightarrow> parsed" where
  "ParseSourceResponse compile unmarshal src body =
     (if src_Type src = ''text'' then parseText compile body src
      else if src_Type src = ''json'' then parseJSON compile unmarshal body src
      else if src_Type src = ''html'' then parseHTML compile body src
      else parseText compile body src)"

section \<open>What the matcher returns\<close>

lemma first_some_Some: "first_some f xs = Some y \<Longrightarrow> \<exists>x \<in> set xs. f x = Some y"
  by (induction xs) (auto split: option.splits)

fun fits :: "rx_term \<Rightarrow> string \<Rightarrow> bool" where
  "fits (Term p lo hi g) x \<longleftrightarrow> (\<forall>c \<in> set x. p c) \<and> lo \<le> length x \<and>
     (case hi of None \<Rightarrow> True | Some h \<Rightarrow> length x \<le> h)"

lemma run_length_bounds:
  assumes "n \<le> run_length p hi s"
  shows "\<forall>c \<in> set (take n s). p c" and "n \<le> length s"
    and "case hi of None \<Rightarrow> True | Some h \<Rightarrow> n \<le> h"
proof -
  have n: "n \<le> length (takeWhile p s)"
    and "case hi of None \<Rightarrow> True | Some h \<Rightarrow> n \<le> h"
    using assms by (auto simp: run_length_def Let_def split: option.splits)
  then show "case hi of None \<Rightarrow> True | Some h \<Rightarrow> n \<le> h" by simp
  have "take n s = take n (takeWhile p s)"
    using n by (metis takeWhile_eq_take take_take min.absorb1)
  then show "\<forall>c \<in> set (take n s). p c" by (metis in_set_takeD set_takeWhileD)
  show "n \<le> length s" using n length_takeWhile_le order_trans by blast
qed

lemma rx_match_fits: "rx_match ts s = Some ps \<Longrightarrow> list_all2 fits ts ps \<and> (\<exists>r. s = concat ps @ r)"
proof (induction ts s arbitrary: ps rule: rx_match.induct)
  case (2 p lo hi g ts s)
  then obtain n qs where n: "lo \<le> n" "n \<le> run_length p hi s"
    and qs: "rx_match ts (drop n s) = Some qs" and ps: "ps = take n s # qs"
    by (auto dest!: first_some_Some)
  have "list_all2 fits ts qs \<and> (\<exists>r. drop n s = concat qs @ r)"
    using n qs by (intro "2.IH") auto
  moreover have "fits (Term p lo hi g) (take n s)"
    using run_length_bounds [OF n(2)] n(1) by (auto split: option.splits)
  ultimately show ?case using ps by (metis append.assoc append_take_drop_id concat.simps(2) list.rel_intros(2))
qed simp

lemma rx_match_greedy:
  assumes "\<forall>c \<in> set x. p c" and "s = [] \<or> \<not> p (hd s)" and "lo \<le> length x"
    and "case hi of None \<Rightarrow> True | Some h \<Rightarrow> length x \<le> h" and "rx_match ts s = Some ps"
  shows "rx_match (Term p lo hi g # ts) (x @ s) = Some (x # ps)"
proof -
  have "takeWhile p s = []" using assms(2) by (cases s) auto
  then have "takeWhile p (x @ s) = x" using assms(1) by (simp add: takeWhile_append2)
  then have "run_length p hi (x @ s) = length x"
    using assms(4) by (auto simp: run_length_def Let_def split: option.splits)
  with assms(3,5) show ?thesis by simp
qed

section \<open>Addresses\<close>

definition digits :: "nat \<Rightarrow> nat \<Rightarrow> string \<Rightarrow> bool" where
  "digits lo hi x \<longleftrightarrow> (\<forall>c \<in> set x. is_digit c) \<and> lo \<le> length x \<and> length x \<le> hi"

definition quad :: "string \<Rightarrow> string \<Rightarrow> string \<Rightarrow> string \<Rightarrow> string" where
  "quad a b c d = a @ ''.'' @ b @ ''.'' @ c @ ''.'' @ d"

definition addr_shape :: "string \<Rightarrow> bool" where
  "addr_shape s \<longleftrightarrow> (\<exists>a b c d p. s = quad a b c d @ '':'' @ p \<and>
     digits 1 3 a \<and> digits 1 3 b \<and> digits 1 3 c \<and> digits 1 3 d \<and> digits 2 5 p)"

lemma one_dot: "fits (Term is_dot 1 (Some 1) g) x \<longleftrightarrow> x = ''.''"
  by (cases x) (auto simp: is_dot_def)

lemma one_sep: "fits (Term is_sep 1 None g) x \<longleftrightarrow> (\<forall>c \<in> set x. is_sep c) \<and> x \<noteq> []"
  by (cases x) auto

lemma digits_fits: "fits (Term is_digit lo (Some hi) g) x \<longleftrightarrow> digits lo hi x"
  by (simp add: digits_def)

lemma default_match:
  assumes "rx_match defaultIPPortRegex s = Some ps"
  shows "\<exists>a b c d sep p. ps = [a, ''.'', b, ''.'', c, ''.'', d, sep, p] \<and> sep \<noteq> [] \<and>
    digits 1 3 a \<and> digits 1 3 b \<and> digits 1 3 c \<and> digits 1 3 d \<and> digits 2 5 p"
proof -
  have fit: "list_all2 fits defaultIPPortRegex ps" using rx_match_fits [OF assms] by blast
  have "length ps = 9" using list_all2_lengthD [OF fit] by (simp add: defaultIPPortRegex_def)
  then obtain a d1 b d2 c d3 d sep p where "ps = [a, d1, b, d2, c, d3, d, sep, p]"
    by (auto simp: length_Suc_conv eval_nat_numeral)
  with fit one_dot one_sep show ?thesis
    by (simp add: defaultIPPortRegex_def digits_fits del: fits.simps)
qed

lemma captures_default:
  "capture 1 defaultIPPortRegex [a, ''.'', b, ''.'', c, ''.'', d, sep, p] = quad a b c d"
  "capture 2 defaultIPPortRegex [a, ''.'', b, ''.'', c, ''.'', d, sep, p] = p"
  by (simp_all add: capture_def defaultIPPortRegex_def quad_def)

lemma find_all_default:
  "\<exists>as. match_addrs (find_all defaultIPPortRegex s) = Inr as \<and> (\<forall>a \<in> set as. addr_shape a)"
proof (induction defaultIPPortRegex s rule: find_all.induct)
  case (2 c s)
  show ?case
  proof (cases "rx_match defaultIPPortRegex (c # s)")
    case (Some ps)
    from 2(2) [OF Some] obtain as
      where as: "match_addrs (find_all defaultIPPortRegex (drop (length (concat ps) - 1) s)) = Inr as"
        "\<forall>a \<in> set as. addr_shape a" by blast
    from default_match [OF Some] obtain a b d e sep p
      where ps: "ps = [a, ''.'', b, ''.'', d, ''.'', e, sep, p]"
        and dg: "digits 1 3 a" "digits 1 3 b" "digits 1 3 d" "digits 1 3 e" "digits 2 5 p" by blast
    have "match_addr [concat ps, capture 1 defaultIPPortRegex ps, capture 2 defaultIPPortRegex ps] =
        Inr (quad a b d e @ '':'' @ p)"
      unfolding ps captures_default by (simp add: match_addr_def go_index_def)
    moreover have "addr_shape (quad a b d e @ '':'' @ p)" using dg unfolding addr_shape_def by blast
    ultimately show ?thesis using as Some by simp
  qed (use 2(1) in simp)
qed simp

lemma rx_digits:
  assumes "digits lo hi x" and "s = [] \<or> \<not> is_digit (hd s)" and "rx_match ts s = Some ps"
  shows "rx_match (Term is_digit lo (Some hi) g # ts) (x @ s) = Some (x # ps)"
  using assms by (intro rx_match_greedy) (auto simp: digits_def)

lemma rx_dot: "rx_match ts s = Some ps \<Longrightarrow>
    rx_match (Term is_dot 1 (Some 1) g # ts) (CHR ''.'' # s) = Some (''.'' # ps)"
  by (simp add: is_dot_def run_length_def)

lemma rx_colon:
  assumes "s \<noteq> []" and "\<not> is_sep (hd s)" and "rx_match ts s = Some ps"
  shows "rx_match (Term is_sep 1 None g # ts) (CHR '':'' # s) = Some ('':'' # ps)"
  using rx_match_greedy [of "'':''" is_sep s 1 None ts ps g] assms by (simp add: is_sep_def)

lemma digit_not_sep: "is_digit c \<Longrightarrow> \<not> is_sep c"
  by (auto simp: is_sep_def is_white_def is_digit_def)

lemma find_all_line:
  assumes d: "digits 1 3 a" "digits 1 3 b" "digits 1 3 c" "digits 1 3 d" "digits 2 5 p"
    and s: "s = [] \<or> \<not> is_digit (hd s)"
  shows "find_all defaultIPPortRegex (quad a b c d @ '':'' @ p @ s) =
    [quad a b c d @ '':'' @ p, quad a b c d, p] # find_all defaultIPPortRegex s"
proof -
  let ?ps = "[a, ''.'', b, ''.'', c, ''.'', d, '':'', p]"
  have p: "p \<noteq> []" "is_digit (hd p)" using d(5) by (cases p; auto simp: digits_def)+
  have sep: "\<not> is_sep (hd (p @ s))" using p digit_not_sep by simp
  have "rx_match defaultIPPortRegex (a @ CHR ''.'' # b @ CHR ''.'' # c @ CHR ''.'' # d @ CHR '':'' # p @ s) = Some ?ps"
    unfolding defaultIPPortRegex_def
    by (intro rx_digits d rx_dot rx_colon sep) (use p s in simp_all)
  then have m: "rx_match defaultIPPortRegex (quad a b c d @ '':'' @ p @ s) = Some ?ps"
    by (simp add: quad_def)
  obtain x xs where x: "quad a b c d @ '':'' @ p @ s = x # xs" by (cases "quad a b c d @ '':'' @ p @ s") auto
  have "x # xs = concat ?ps @ s" by (simp add: x [symmetric] quad_def)
  then have "drop (length (concat ?ps)) (x # xs) = s" by (metis append_eq_conv_conj)
  moreover have "0 < length (concat ?ps)" by simp
  ultimately have "drop (length (concat ?ps) - 1) xs = s" by (simp only: drop_Cons' if_False split: if_splits)
  with m show ?thesis unfolding x 
    by (simp add: captures_default [unfolded One_nat_def]) (simp add: quad_def)
qed

section \<open>Segments\<close>

text \<open>What a segment of a path can be, and what joining and splitting do to a list of them.\<close>

definition plain_seg :: "string \<Rightarrow> bool" where
  "plain_seg s \<longleftrightarrow> s \<noteq> [] \<and> CHR ''.'' \<notin> set s \<and> (\<forall>k. take 3 (drop k s) \<noteq> ''[*]'')"

definition seg_ok :: "string \<Rightarrow> bool" where
  "seg_ok s \<longleftrightarrow> s = ''[*]'' \<or> plain_seg s"

text \<open>Nothing starts in \<open>cur\<close> that is a star in \<open>cur\<close> followed by the rest.\<close>

definition no_star :: "string \<Rightarrow> string \<Rightarrow> bool" where
  "no_star cur s \<longleftrightarrow> CHR ''.'' \<notin> set cur \<and> (\<forall>k < length cur. take 3 (drop k (cur @ s)) \<noteq> ''[*]'')"

lemma no_star_plain:
  assumes "no_star cur s" and "cur \<noteq> []"
  shows "plain_seg cur"
proof -
  have "take 3 (drop k cur) \<noteq> ''[*]''" for k
  proof
    assume t: "take 3 (drop k cur) = ''[*]''"
    then have l: "length (drop k cur) \<ge> 3" by (metis length_take length_Cons list.size(3) min.cobounded1 min.commute numeral_3_eq_3)
    then have "k < length cur" by simp
    moreover have "take 3 (drop k (cur @ s)) = ''[*]''" using t l by simp
    ultimately show False using assms(1) by (simp add: no_star_def)
  qed
  with assms show ?thesis by (simp add: plain_seg_def no_star_def)
qed

lemma no_star_Nil [simp]: "no_star [] s"
  by (simp add: no_star_def)

lemma no_star_step:
  assumes "no_star cur (c # s)" and "c \<noteq> CHR ''.''"
    and "\<not> (c = CHR ''['' \<and> 2 \<le> length s \<and> take 2 s = ''*]'')"
  shows "no_star (cur @ [c]) s"
proof -
  have "take 3 (c # s) \<noteq> ''[*]''" using assms(3) by (auto simp: numeral_3_eq_3 numeral_2_eq_2 take_Suc_Cons)
  with assms show ?thesis by (auto simp: no_star_def less_Suc_eq)
qed

lemma split_path_segs: "no_star cur s \<Longrightarrow> \<forall>t \<in> set (split_path_loop cur s). seg_ok t"
proof (induction cur s rule: split_path_loop.induct)
  case (1 cur)
  then show ?case using no_star_plain by (auto simp: seg_ok_def)
next
  case (2 cur c s)
  consider "c = CHR ''.''" | "c = CHR ''[''" "2 \<le> length s" "take 2 s = ''*]''" "c \<noteq> CHR ''.''"
    | "c \<noteq> CHR ''.''" "\<not> (c = CHR ''['' \<and> 2 \<le> length s \<and> take 2 s = ''*]'')" by blast
  then show ?case
  proof cases
    case 3
    with 2 no_star_step [of cur c s] show ?thesis by auto
  qed (use 2 no_star_plain in \<open>auto simp: seg_ok_def\<close>)
qed

lemma splitPath_segs: "\<forall>t \<in> set (splitPath path). seg_ok t"
  unfolding splitPath_def by (rule split_path_segs) simp

lemma split_plain:
  assumes "CHR ''.'' \<notin> set s" and "\<forall>k. take 3 (drop k s) \<noteq> ''[*]''" and "r = [] \<or> hd r = CHR ''.''"
  shows "split_path_loop cur (s @ r) = split_path_loop (cur @ s) r"
  using assms(1,2)
proof (induction s arbitrary: cur)
  case (Cons c s)
  have tl: "\<forall>k. take 3 (drop k s) \<noteq> ''[*]''" using Cons.prems(2) by (metis drop_Suc_Cons)
  have "\<not> (c = CHR ''['' \<and> 2 \<le> length (s @ r) \<and> take 2 (s @ r) = ''*]'')"
  proof
    assume a: "c = CHR ''['' \<and> 2 \<le> length (s @ r) \<and> take 2 (s @ r) = ''*]''"
    consider "s = []" | x where "s = [x]" | x y t where "s = x # y # t" by (metis list.exhaust)
    then show False
      using a assms(3) Cons.prems(2) [rule_format, of 0]
      by cases (cases r; auto simp: numeral_2_eq_2 numeral_3_eq_3)+
  qed
  moreover have "c \<noteq> CHR ''.''" using Cons.prems(1) by auto
  ultimately have "split_path_loop cur (c # (s @ r)) = split_path_loop (cur @ [c]) (s @ r)"
    by (simp only: split_path_loop.simps if_False)
  with Cons tl show ?case by simp
qed simp

lemma splitPath_join: "\<forall>t \<in> set segs. seg_ok t \<Longrightarrow> splitPath (join_dots segs) = segs"
proof (induction segs rule: join_dots.induct)
  case (2 s)
  then show ?case
    using split_plain [of s "[]" "[]"] by (auto simp: seg_ok_def plain_seg_def splitPath_def)
next
  case (3 s t ts)
  let ?r = "CHR ''.'' # join_dots (t # ts)"
  have "split_path_loop [] (s @ ?r) = s # splitPath (join_dots (t # ts))"
  proof (cases "s = ''[*]''")
    case False
    with 3(2) have "plain_seg s" by (simp add: seg_ok_def)
    then show ?thesis using split_plain [of s ?r "[]"] by (simp add: plain_seg_def splitPath_def)
  qed (simp add: splitPath_def)
  with 3 show ?case by (simp add: splitPath_def)
qed (simp add: splitPath_def)

section \<open>Navigation as a reference\<close>

text \<open>
  What a path means: walk into the fields, spread over the elements at a star, read the
  leaf. A star that ends the path selects nothing.
\<close>

fun navigate :: "string list \<Rightarrow> any \<Rightarrow> string list" where
  "navigate [] v = leaf_text v"
| "navigate (seg # segs) v =
     (if seg = ''[*]'' then
        (case v of
           AnyList arr \<Rightarrow> if segs = [] then [] else concat (map (navigate segs) arr)
         | _ \<Rightarrow> [])
      else
        (case v of
           AnyMap kvs \<Rightarrow>
             (case map_of kvs seg of None \<Rightarrow> [] | Some w \<Rightarrow> if w = AnyNil then [] else navigate segs w)
         | _ \<Rightarrow> []))"

lemma concat_map_if_empty:
  "concat (map (\<lambda>x. if b then [] else f x) xs) = (if b then [] else concat (map f xs))"
  by (induction xs) simp_all

lemma extract_navigate:
  "extractField v path = (if splitPath path = [] then [] else navigate (splitPath path) v)"
  "\<forall>t \<in> set segs. seg_ok t \<Longrightarrow> extract_loop v segs = navigate segs v"
proof (induction v path and v segs rule: extractField_extract_loop.induct)
  case (1 data path)
  then show ?case using splitPath_segs [of path] by (simp add: extractField.simps Let_def)
next
  case (3 current seg segs)
  show ?case
  proof (cases "seg = ''[*]''")
    case True
    have j: "splitPath (join_dots segs) = segs" using 3(3) by (simp add: splitPath_join)
    have "concat (map (\<lambda>item. extractField item (join_dots segs)) arr) =
        (if segs = [] then [] else concat (map (navigate segs) arr))" if "current = AnyList arr" for arr
    proof -
      have "extractField item (join_dots segs) = (if segs = [] then [] else navigate segs item)"
        if "item \<in> set arr" for item
        using 3(1) [OF True \<open>current = AnyList arr\<close> that] j by simp
      then have "map (\<lambda>item. extractField item (join_dots segs)) arr =
          map (\<lambda>item. if segs = [] then [] else navigate segs item) arr" by simp
      then show ?thesis by (simp only: concat_map_if_empty)
    qed
    with True show ?thesis by (cases current) simp_all
  next
    case False
    with 3(2) 3(3) show ?thesis by (auto split: any.splits option.splits)
  qed
qed simp

section \<open>Properties of the parsers\<close>

lemma collect_addrs_props:
  "distinct (map fe_Addr (collect_addrs name as))"
  "fe_Addr ` set (collect_addrs name as) = set as"
  "e \<in> set (collect_addrs name as) \<Longrightarrow> fe_Type e = ''http'' \<and> fe_Source e = name"
proof -
  have m: "map fe_Addr (collect_addrs name as) = keep_new (\<lambda>a. a) {} as"
    by (simp add: collect_addrs_def found_def comp_def)
  show "distinct (map fe_Addr (collect_addrs name as))"
    unfolding m using keep_new_distinct [of "\<lambda>a. a" "{}" as] by simp
  show "fe_Addr ` set (collect_addrs name as) = set as"
    using arg_cong [OF m, of set] keep_new_keys [of "\<lambda>a. a" "{}" as] by simp
  show "e \<in> set (collect_addrs name as) \<Longrightarrow> fe_Type e = ''http'' \<and> fe_Source e = name"
    by (auto simp: collect_addrs_def found_def)
qed

lemma parseText_default:
  assumes "src_Regex src = []" and "match_addrs (find_all defaultIPPortRegex body) = Inr as"
  shows "parseText compile body src = Inr (Inr (collect_addrs (src_Name src) as))"
  using assms by (simp add: parseText_def Let_def)

text \<open>A source without an expression of its own.\<close>

definition plain_source :: "string \<Rightarrow> string \<Rightarrow> source" where
  "plain_source name path =
     \<lparr>src_Name = name, src_URL = ''http://list/'', src_Type = (if path = [] then ''text'' else ''json''),
      src_Enabled = True, src_JSONPath = path, src_Regex = [], src_Headers = []\<rparr>"

text \<open>
  Whatever the page, the default expression raises no panic, and every entry that
  is read from it is four groups of one to three digits, a colon and two to five digits; no address comes
  twice.
\<close>

theorem parseText_well_formed:
  assumes "src_Regex src = []"
  shows "\<exists>es. parseText compile body src = Inr (Inr es) \<and> distinct (map fe_Addr es) \<and>
    (\<forall>e \<in> set es. addr_shape (fe_Addr e) \<and> fe_Type e = ''http'' \<and> fe_Source e = src_Name src)"
proof -
  obtain as where as: "match_addrs (find_all defaultIPPortRegex body) = Inr as" "\<forall>a \<in> set as. addr_shape a"
    using find_all_default by blast
  have "addr_shape (fe_Addr e)" if "e \<in> set (collect_addrs (src_Name src) as)" for e
    using that as(2) collect_addrs_props(2) [of "src_Name src" as] by blast
  with parseText_default [OF assms as(1)] collect_addrs_props(1,3) show ?thesis by blast
qed

lemma parseText_well_formed_witness:
  "\<exists>es. parseText (\<lambda>r. Inl r) ''x 1111.2.3.4 : 80<br>'' (plain_source ''t'' []) = Inr (Inr es) \<and>
     distinct (map fe_Addr es) \<and>
     (\<forall>e \<in> set es. addr_shape (fe_Addr e) \<and> fe_Type e = ''http'' \<and> fe_Source e = src_Name (plain_source ''t'' []))"
  by (rule parseText_well_formed) (simp add: plain_source_def)

definition text_list :: "string list \<Rightarrow> string" where
  "text_list as = concat (map (\<lambda>a. a @ [CHR 0x0A]) as)"

lemma find_all_list:
  assumes "\<forall>a \<in> set as. addr_shape a"
  shows "match_addrs (find_all defaultIPPortRegex (text_list as)) = Inr as"
  using assms
proof (induction as)
  case (Cons x as)
  then obtain a b c d p where x: "x = quad a b c d @ '':'' @ p"
    and dg: "digits 1 3 a" "digits 1 3 b" "digits 1 3 c" "digits 1 3 d" "digits 2 5 p"
    by (auto simp: addr_shape_def)
  have nl: "\<not> is_digit (CHR 0x0A)" by (simp add: is_digit_def)
  have "rx_match defaultIPPortRegex (CHR 0x0A # text_list as) = None"
    using nl by (simp add: defaultIPPortRegex_def run_length_def)
  then have "find_all defaultIPPortRegex (CHR 0x0A # text_list as) = find_all defaultIPPortRegex (text_list as)"
    by simp
  moreover have "find_all defaultIPPortRegex (quad a b c d @ '':'' @ p @ CHR 0x0A # text_list as) =
      [quad a b c d @ '':'' @ p, quad a b c d, p] # find_all defaultIPPortRegex (CHR 0x0A # text_list as)"
    using dg nl by (intro find_all_line) simp_all
  moreover have "text_list (x # as) = quad a b c d @ '':'' @ p @ CHR 0x0A # text_list as"
    by (simp add: text_list_def x)
  ultimately have "find_all defaultIPPortRegex (text_list (x # as)) =
      [x, quad a b c d, p] # find_all defaultIPPortRegex (text_list as)" by (simp only: x)
  with Cons show ?case by (simp add: match_addr_def go_index_def x)
qed (simp add: text_list_def)

text \<open>
  A plain list, one address on a line, is read back complete and in order, whatever
  addresses are on it; a repeated one is dropped.
\<close>

theorem parseText_reads_lists:
  assumes "src_Regex src = []" and "\<forall>a \<in> set as. addr_shape a"
  shows "parseText compile (text_list as) src = Inr (Inr (collect_addrs (src_Name src) as))"
  using assms by (intro parseText_default find_all_list)

lemma addr_shape_examples:
  "addr_shape ''10.0.0.1:3128''" "addr_shape ''192.168.1.1:8080''"
  unfolding addr_shape_def
  by (rule exI [of _ "''10''"], rule exI [of _ "''0''"], rule exI [of _ "''0''"], rule exI [of _ "''1''"],
      rule exI [of _ "''3128''"], code_simp)
    (rule exI [of _ "''192''"], rule exI [of _ "''168''"], rule exI [of _ "''1''"], rule exI [of _ "''1''"],
      rule exI [of _ "''8080''"], code_simp)

lemma parseText_reads_lists_witness:
  "parseText (\<lambda>r. Inl r) (text_list [''192.168.1.1:8080'', ''10.0.0.1:3128'', ''192.168.1.1:8080''])
     (plain_source ''t'' []) =
   Inr (Inr [found ''t'' ''192.168.1.1:8080'', found ''t'' ''10.0.0.1:3128''])"
proof -
  have "parseText (\<lambda>r. Inl r) (text_list [''192.168.1.1:8080'', ''10.0.0.1:3128'', ''192.168.1.1:8080''])
      (plain_source ''t'' []) =
    Inr (Inr (collect_addrs (src_Name (plain_source ''t'' []))
      [''192.168.1.1:8080'', ''10.0.0.1:3128'', ''192.168.1.1:8080'']))"
    by (rule parseText_reads_lists) (simp_all add: plain_source_def addr_shape_examples)
  then show ?thesis by (simp add: collect_addrs_def plain_source_def)
qed

text \<open>
  C34. The extractor, which joins what is left of a path at every star and splits it
  again for every element, follows the path as its segments say: no field name gets lost or
  changed on the way. A path that ends in a star selects nothing.
\<close>

theorem extractField_navigates:
  "extractField v path = (if splitPath path = [] then [] else navigate (splitPath path) v)"
  by (rule extract_navigate)

text \<open>An element of the list that has an address and a port, each a string or a number.\<close>

definition proxy_item :: "string \<times> string \<Rightarrow> any \<Rightarrow> bool" where
  "proxy_item ip_port item \<longleftrightarrow> (\<exists>kvs v w. item = AnyMap kvs \<and>
     map_of kvs ''ip'' = Some v \<and> leaf_text v = [fst ip_port] \<and>
     map_of kvs ''port'' = Some w \<and> leaf_text w = [snd ip_port])"

lemma split_paths:
  "split_commas ''data[*].ip,data[*].port'' = [''data[*].ip'', ''data[*].port'']"
  "TrimSpace ''data[*].ip'' = ''data[*].ip''" "TrimSpace ''data[*].port'' = ''data[*].port''"
  "splitPath ''data[*].ip'' = [''data'', ''[*]'', ''ip'']"
  "splitPath ''data[*].port'' = [''data'', ''[*]'', ''port'']"
  by code_simp+

lemma navigate_items:
  assumes "list_all2 proxy_item ips items"
  shows "concat (map (navigate [''ip'']) items) = map fst ips"
    and "concat (map (navigate [''port'']) items) = map snd ips"
  using assms by (induction rule: list_all2_induct) (auto simp: proxy_item_def)

lemma extractByPath_two:
  "extractByPath (AnyMap kvs) ''data[*].ip,data[*].port'' name =
     collect_addrs name (map (\<lambda>(ip, port). ip @ '':'' @ port)
       (zip (navigate [''data'', ''[*]'', ''ip''] (AnyMap kvs))
            (navigate [''data'', ''[*]'', ''port''] (AnyMap kvs))))"
  by (simp only: extractByPath_def split_paths list.case Let_def extract_navigate(1) list.distinct if_False)

text \<open>
  With the path that four of the built-in sources have, a list whose elements all
  carry an address and a port yields the address of every element with its own port, in order.
\<close>

theorem extractByPath_pairs:
  assumes "map_of kvs ''data'' = Some (AnyList items)" and "list_all2 proxy_item ips items"
  shows "extractByPath (AnyMap kvs) ''data[*].ip,data[*].port'' name =
    collect_addrs name (map (\<lambda>(ip, port). ip @ '':'' @ port) ips)"
  unfolding extractByPath_two using navigate_items [OF assms(2)] assms(1) by (simp add: zip_map_fst_snd)

definition json_item :: "string \<Rightarrow> nat \<Rightarrow> any" where
  "json_item ip port = AnyMap [(''ip'', AnyString ip), (''port'', AnyFloat False port 0)]"

lemma itoa_ports: "itoa 8080 = ''8080''" "itoa 3128 = ''3128''"
  by (simp_all add: itoa.simps digit_char_def char_of_def bit_iff_odd)

lemma extractByPath_pairs_witness:
  "extractByPath (AnyMap [(''data'', AnyList [json_item ''1.2.3.4'' 8080, json_item ''5.6.7.8'' 3128])])
     ''data[*].ip,data[*].port'' ''geonode'' =
   [found ''geonode'' ''1.2.3.4:8080'', found ''geonode'' ''5.6.7.8:3128'']"
proof -
  have "extractByPath (AnyMap [(''data'', AnyList [json_item ''1.2.3.4'' 8080, json_item ''5.6.7.8'' 3128])])
      ''data[*].ip,data[*].port'' ''geonode'' =
    collect_addrs ''geonode'' (map (\<lambda>(ip, port). ip @ '':'' @ port)
      [(''1.2.3.4'', itoa 8080), (''5.6.7.8'', itoa 3128)])"
    by (rule extractByPath_pairs) (auto simp: proxy_item_def json_item_def sprint_float0_def)
  also have "\<dots> = [found ''geonode'' ''1.2.3.4:8080'', found ''geonode'' ''5.6.7.8:3128'']"
    by (simp add: itoa_ports collect_addrs_def)
  finally show ?thesis .
qed

text \<open>
  The addresses and the ports are collected apart and paired by position, so one
  element without a port shifts every port after it: the address of the first element is
  offered with the port of the second, an address that no element has.
\<close>

theorem extractByPath_shifts_ports:
  "extractByPath
     (AnyMap [(''data'', AnyList [AnyMap [(''ip'', AnyString ''1.2.3.4''), (''port'', AnyNil)],
        json_item ''5.6.7.8'' 3128])]) ''data[*].ip,data[*].port'' ''geonode'' =
   [found ''geonode'' ''1.2.3.4:3128'']"
  unfolding extractByPath_two
  by (simp add: json_item_def sprint_float0_def itoa_ports collect_addrs_def)

end
