(* ===== verification/Crawler.thy ===== *)
theory Crawler
  imports Sources "HOL-Library.Multiset"
begin

text \<open>
  The crawler (\<open>internal/freeproxy/crawler.go\<close>) and the fetch of a source
  (\<open>FetchSourceBody\<close> in \<open>sources.go\<close>). Every enabled source has a goroutine; what they share
  is changed in one critical section each, so a run is the order in which the goroutines get
  the lock. The HTTP client is a parameter.
\<close>

section \<open>Fetching\<close>

definition user_agent :: string where
  "user_agent = ''Mozilla/5.0 (Macintosh; Intel Mac OS X 10_15_7) AppleWebKit/537.36''"

text \<open>
  The client sends a GET request with a timeout in nanoseconds, a URL and the headers in the order
  they are set, and returns an error or the body, as far as it could be read, with the error
  that ended it, if one did. At most 2 MB are read.
\<close>

type_synonym client = "int \<Rightarrow> string \<Rightarrow> (string \<times> string) list \<Rightarrow> string + string \<times> string option"

definition second_ns :: int where
  "second_ns = 1000000000"

definition FetchSourceBody ::
  "(string \<Rightarrow> string option) \<Rightarrow> client \<Rightarrow> string \<Rightarrow> int \<Rightarrow> (string \<times> string) list \<Rightarrow> string + string" where
  "FetchSourceBody badRequest doReq url timeout headers =
     (let timeout = (if timeout \<le> 0 then 15 * second_ns else timeout) in
      case badRequest url of
        Some e \<Rightarrow> Inl e
      | None \<Rightarrow>
          (case doReq timeout url ((''User-Agent'', user_agent) # headers) of
             Inl e \<Rightarrow> Inl e
           | Inr (body, err) \<Rightarrow>
               (case err of
                  Some e \<Rightarrow> if length body < 2 ^ 21 then Inl e else Inr (take (2 ^ 21) body)
                | None \<Rightarrow> Inr (take (2 ^ 21) body))))"

section \<open>State\<close>

record crawl_result =
  cr_Total :: nat
  cr_Sources :: "string \<rightharpoonup> nat"
  cr_Entries :: "free_entry list"
  cr_Errors :: "string list"

record crawl =
  cw_result :: crawl_result
  cw_seen :: "string set"

definition crawl_start :: crawl where
  "crawl_start =
     \<lparr>cw_result = \<lparr>cr_Total = 0, cr_Sources = Map.empty, cr_Entries = [], cr_Errors = []\<rparr>, cw_seen = {}\<rparr>"

definition entry_key :: "free_entry \<Rightarrow> string" where
  "entry_key e = fe_Addr e @ ''|'' @ fe_Type e"

section \<open>The goroutine of a source\<close>

fun parse_error_text :: "parse_error \<Rightarrow> string" where
  "parse_error_text (CompileRegex e) = ''compile regex: '' @ e"
| "parse_error_text (JsonUnmarshal e) = ''json unmarshal: '' @ e"

text \<open>What a goroutine brings to the critical section: an error text or the entries it has parsed.\<close>

definition source_outcome ::
  "(string \<Rightarrow> int \<Rightarrow> (string \<times> string) list \<Rightarrow> string + string) \<Rightarrow>
   (string \<Rightarrow> string + finder) \<Rightarrow> (string \<Rightarrow> string + any) \<Rightarrow> int \<Rightarrow> source \<Rightarrow>
   go_panic + (string + free_entry list)" where
  "source_outcome fetch compile unmarshal timeout s =
     (case fetch (src_URL s) timeout (src_Headers s) of
        Inl e \<Rightarrow> Inr (Inl (src_Name s @ '': '' @ e))
      | Inr body \<Rightarrow>
          (case ParseSourceResponse compile unmarshal s body of
             Inl p \<Rightarrow> Inl p
           | Inr (Inl e) \<Rightarrow> Inr (Inl (src_Name s @ '' parse: '' @ parse_error_text e))
           | Inr (Inr entries) \<Rightarrow> Inr (Inr entries)))"

fun merge_loop :: "free_entry list \<Rightarrow> nat \<Rightarrow> crawl \<Rightarrow> nat \<times> crawl" where
  "merge_loop [] added w = (added, w)"
| "merge_loop (e # es) added w =
     (if entry_key e \<in> cw_seen w then merge_loop es added w
      else merge_loop es (added + 1)
        \<lparr>cw_result = (cw_result w)\<lparr>cr_Entries := cr_Entries (cw_result w) @ [e]\<rparr>,
         cw_seen = insert (entry_key e) (cw_seen w)\<rparr>)"

definition crawl_merge :: "string \<Rightarrow> string + free_entry list \<Rightarrow> crawl \<Rightarrow> crawl" where
  "crawl_merge name outcome w =
     (case outcome of
        Inl e \<Rightarrow> w\<lparr>cw_result := (cw_result w)\<lparr>cr_Errors := cr_Errors (cw_result w) @ [e]\<rparr>\<rparr>
      | Inr entries \<Rightarrow>
          (let (added, w') = merge_loop entries 0 w
           in w'\<lparr>cw_result := (cw_result w')
                \<lparr>cr_Sources := (cr_Sources (cw_result w'))(name \<mapsto> added),
                 cr_Total := cr_Total (cw_result w') + added\<rparr>\<rparr>))"

section \<open>A crawl\<close>

text \<open>
  \<open>order\<close> is the order of the critical sections, a permutation of the enabled sources. A
  panic in a goroutine ends the process.
\<close>

fun crawl_run :: "(source \<Rightarrow> go_panic + (string + free_entry list)) \<Rightarrow> source list \<Rightarrow> crawl \<Rightarrow> go_panic + crawl" where
  "crawl_run outcome [] w = Inr w"
| "crawl_run outcome (s # ss) w =
     (case outcome s of
        Inl p \<Rightarrow> Inl p
      | Inr r \<Rightarrow> crawl_run outcome ss (crawl_merge (src_Name s) r w))"

definition crawl_timeout :: "int \<Rightarrow> int" where
  "crawl_timeout timeout = (if timeout \<le> 0 then 15 * second_ns else timeout)"

definition enabled_sources :: "source list \<Rightarrow> source list" where
  "enabled_sources sources = filter src_Enabled sources"

definition Crawl ::
  "(string \<Rightarrow> int \<Rightarrow> (string \<times> string) list \<Rightarrow> string + string) \<Rightarrow>
   (string \<Rightarrow> string + finder) \<Rightarrow> (string \<Rightarrow> string + any) \<Rightarrow>
   source list \<Rightarrow> int \<Rightarrow> go_panic + crawl_result" where
  "Crawl fetch compile unmarshal order timeout =
     map_sum (\<lambda>p. p) cw_result
       (crawl_run (source_outcome fetch compile unmarshal (crawl_timeout timeout)) order crawl_start)"

section \<open>What a crawl has done so far\<close>

lemma merge_loop_eq:
  "merge_loop es added w =
     (let new = keep_new entry_key (cw_seen w) es in
      (added + length new,
       \<lparr>cw_result = (cw_result w)\<lparr>cr_Entries := cr_Entries (cw_result w) @ new\<rparr>,
        cw_seen = cw_seen w \<union> entry_key ` set es\<rparr>))"
proof (induction es arbitrary: added w)
  case Nil
  then show ?case by (cases "cw_result w") simp
next
  case (Cons e es)
  then show ?case by (auto simp: Let_def insert_absorb)
qed

text \<open>
  The abstract crawl is a set of keys, the errors as a multiset, and the counts; the
  invariant ties the state to the outcomes that have been merged.
\<close>

definition found_keys :: "(source \<Rightarrow> go_panic + (string + free_entry list)) \<Rightarrow> source list \<Rightarrow> string set" where
  "found_keys outcome ss =
     (\<Union>s \<in> set ss. case outcome s of Inr (Inr es) \<Rightarrow> entry_key ` set es | _ \<Rightarrow> {})"

definition errors_of :: "(source \<Rightarrow> go_panic + (string + free_entry list)) \<Rightarrow> source list \<Rightarrow> string list" where
  "errors_of outcome ss =
     concat (map (\<lambda>s. case outcome s of Inr (Inl e) \<Rightarrow> [e] | _ \<Rightarrow> []) ss)"

definition successes :: "(source \<Rightarrow> go_panic + (string + free_entry list)) \<Rightarrow> source list \<Rightarrow> source list" where
  "successes outcome ss = filter (\<lambda>s. case outcome s of Inr (Inr es) \<Rightarrow> True | _ \<Rightarrow> False) ss"

definition counted :: "(string \<rightharpoonup> nat) \<Rightarrow> nat" where
  "counted m = (\<Sum>n \<in> dom m. the (m n))"

lemma counted_upd:
  assumes "n \<notin> dom m" and "finite (dom m)"
  shows "counted (m(n \<mapsto> k)) = counted m + k"
proof -
  have "(\<Sum>i \<in> dom m. the ((m(n \<mapsto> k)) i)) = (\<Sum>i \<in> dom m. the (m i))"
    using assms by (intro sum.cong) auto
  with assms show ?thesis by (simp add: counted_def)
qed

definition crawl_inv ::
  "(source \<Rightarrow> go_panic + (string + free_entry list)) \<Rightarrow> source list \<Rightarrow> crawl \<Rightarrow> bool" where
  "crawl_inv outcome ss w \<longleftrightarrow>
     cw_seen w = found_keys outcome ss \<and>
     entry_key ` set (cr_Entries (cw_result w)) = cw_seen w \<and>
     distinct (map entry_key (cr_Entries (cw_result w))) \<and>
     cr_Total (cw_result w) = length (cr_Entries (cw_result w)) \<and>
     cr_Errors (cw_result w) = errors_of outcome ss \<and>
     dom (cr_Sources (cw_result w)) = src_Name ` set (successes outcome ss) \<and>
     (distinct (map src_Name ss) \<longrightarrow>
        counted (cr_Sources (cw_result w)) = cr_Total (cw_result w))"

lemma crawl_inv_start: "crawl_inv outcome [] crawl_start"
  by (simp add: crawl_inv_def crawl_start_def found_keys_def errors_of_def successes_def counted_def)

lemma outcome_snoc:
  assumes "outcome s = Inr (Inr es)"
  shows "found_keys outcome (ss @ [s]) = found_keys outcome ss \<union> entry_key ` set es"
    and "errors_of outcome (ss @ [s]) = errors_of outcome ss"
    and "successes outcome (ss @ [s]) = successes outcome ss @ [s]"
  using assms by (auto simp: found_keys_def errors_of_def successes_def)

lemma crawl_inv_merge:
  assumes inv: "crawl_inv outcome ss w" and r: "outcome s = Inr r"
  shows "crawl_inv outcome (ss @ [s]) (crawl_merge (src_Name s) r w)"
proof (cases r)
  case (Inl e)
  with inv r show ?thesis
    by (simp add: crawl_inv_def crawl_merge_def found_keys_def errors_of_def successes_def)
next
  case (Inr es)
  let ?new = "keep_new entry_key (cw_seen w) es"
  let ?src = "cr_Sources (cw_result w)"
  have w': "crawl_merge (src_Name s) r w =
      \<lparr>cw_result = (cw_result w)
         \<lparr>cr_Entries := cr_Entries (cw_result w) @ ?new,
          cr_Sources := ?src(src_Name s \<mapsto> length ?new),
          cr_Total := cr_Total (cw_result w) + length ?new\<rparr>,
       cw_seen = cw_seen w \<union> entry_key ` set es\<rparr>"
    using Inr by (simp add: crawl_merge_def merge_loop_eq Let_def)
  have new: "entry_key ` set ?new = entry_key ` set es - cw_seen w" by (rule keep_new_keys)
  have dist: "distinct (map entry_key (cr_Entries (cw_result w) @ ?new))"
    using inv new keep_new_distinct [of entry_key "cw_seen w" es] by (auto simp: crawl_inv_def)
  have sum: "counted (?src(src_Name s \<mapsto> length ?new)) = cr_Total (cw_result w) + length ?new"
    if d: "distinct (map src_Name (ss @ [s]))"
  proof -
    have "src_Name s \<notin> dom ?src" using inv d by (auto simp: crawl_inv_def successes_def)
    moreover have "finite (dom ?src)" using inv by (simp add: crawl_inv_def)
    ultimately show ?thesis using inv d by (simp add: crawl_inv_def counted_upd)
  qed
  have keys: "entry_key ` set (cr_Entries (cw_result w) @ ?new) = cw_seen w \<union> entry_key ` set es"
    using inv new by (simp add: crawl_inv_def image_Un)
  have "outcome s = Inr (Inr es)" using Inr r by simp
  note snoc = outcome_snoc [where outcome = outcome and s = s, OF this]
  show ?thesis
    unfolding crawl_inv_def w' snoc
    using inv keys dist sum by (auto simp: crawl_inv_def)
qed

lemma crawl_run_inv:
  assumes "crawl_inv outcome done w" and "\<forall>s \<in> set ss. \<exists>r. outcome s = Inr r"
  shows "\<exists>w'. crawl_run outcome ss w = Inr w' \<and> crawl_inv outcome (done @ ss) w'"
  using assms
proof (induction ss arbitrary: "done" w)
  case (Cons s ss)
  then obtain r where r: "outcome s = Inr r" by auto
  have "crawl_inv outcome (done @ [s]) (crawl_merge (src_Name s) r w)"
    by (rule crawl_inv_merge) (use Cons.prems r in simp_all)
  from Cons.IH [OF this] Cons.prems(2) r show ?case by simp
qed simp

section \<open>Properties of a crawl\<close>

lemma Crawl_inv:
  assumes "\<forall>s \<in> set order. \<exists>r. source_outcome fetch compile unmarshal (crawl_timeout timeout) s = Inr r"
  shows "\<exists>w. Crawl fetch compile unmarshal order timeout = Inr (cw_result w) \<and>
    crawl_inv (source_outcome fetch compile unmarshal (crawl_timeout timeout)) order w"
  using crawl_run_inv [OF crawl_inv_start assms] by (auto simp: Crawl_def)

lemma Crawl_total:
  assumes "Crawl fetch compile unmarshal order timeout = Inr res"
  shows "cr_Total res = length (cr_Entries res)"
proof -
  have "cr_Total (cw_result w') = length (cr_Entries (cw_result w'))"
    if "crawl_run outcome ss w = Inr w'" "cr_Total (cw_result w) = length (cr_Entries (cw_result w))"
    for outcome ss w w'
    using that
  proof (induction ss arbitrary: w)
    case (Cons s ss)
    then obtain r where r: "outcome s = Inr r" "crawl_run outcome ss (crawl_merge (src_Name s) r w) = Inr w'"
      by (auto split: sum.splits)
    have "cr_Total (cw_result (crawl_merge (src_Name s) r w)) =
        length (cr_Entries (cw_result (crawl_merge (src_Name s) r w)))"
      using Cons.prems(2) by (cases r) (simp_all add: crawl_merge_def merge_loop_eq Let_def)
    from Cons.IH [OF r(2) this] show ?case .
  qed simp
  moreover obtain w' where "crawl_run (source_outcome fetch compile unmarshal (crawl_timeout timeout)) order
      crawl_start = Inr w'" "res = cw_result w'"
    using assms by (auto simp: Crawl_def map_sum_def split: sum.splits)
  ultimately show ?thesis by (simp add: crawl_start_def)
qed

text \<open>A source whose expression matches with two groups, or that has none, cannot panic.\<close>

definition two_groups :: "(string \<Rightarrow> string + finder) \<Rightarrow> source \<Rightarrow> bool" where
  "two_groups compile s \<longleftrightarrow> src_Regex s = [] \<or>
     (case compile (src_Regex s) of Inl e \<Rightarrow> True | Inr f \<Rightarrow> \<forall>body. \<forall>m \<in> set (f body). 2 < length m)"

lemma match_addrs_ok: "\<forall>m \<in> set ms. 2 < length m \<Longrightarrow> \<exists>as. match_addrs ms = Inr as"
  by (induction ms) (auto simp: match_addr_def go_index_def)

lemma parseText_no_panic:
  assumes "two_groups compile s"
  shows "\<exists>r. parseText compile body s = Inr r"
proof (cases "src_Regex s = []")
  case True
  then show ?thesis using find_all_default [of body] by (auto simp: parseText_def)
next
  case False
  show ?thesis
  proof (cases "compile (src_Regex s)")
    case (Inr f)
    then have "\<forall>m \<in> set (f body). 2 < length m" using assms False by (simp add: two_groups_def)
    from match_addrs_ok [OF this] False Inr show ?thesis by (auto simp: parseText_def)
  qed (use False in \<open>simp add: parseText_def\<close>)
qed

lemma source_outcome_no_panic:
  assumes "two_groups compile s"
  shows "\<exists>r. source_outcome fetch compile unmarshal t s = Inr r"
proof -
  have "\<exists>r. ParseSourceResponse compile unmarshal s body = Inr r" for body
    using parseText_no_panic [OF assms, of body]
    by (auto simp: ParseSourceResponse_def parseJSON_def parseHTML_def split: sum.splits)
  note parse = this
  show ?thesis
  proof (cases "fetch (src_URL s) t (src_Headers s)")
    case (Inr body)
    obtain r where "ParseSourceResponse compile unmarshal s body = Inr r" using parse by blast
    with Inr show ?thesis by (cases r) (simp_all add: source_outcome_def)
  qed (simp add: source_outcome_def)
qed

text \<open>
  C33. Whatever order the sources answer in, a crawl finds the same addresses, each
  once, with the same total, and reports the same errors: every enabled source that fails
  has exactly its error in the list, every other one a count.
\<close>

theorem Crawl_order_independent:
  assumes "mset order = mset (enabled_sources sources)"
    and "\<forall>s \<in> set (enabled_sources sources). two_groups compile s"
  shows "\<exists>res ref.
    Crawl fetch compile unmarshal order timeout = Inr res \<and>
    Crawl fetch compile unmarshal (enabled_sources sources) timeout = Inr ref \<and>
    entry_key ` set (cr_Entries res) = entry_key ` set (cr_Entries ref) \<and>
    distinct (map entry_key (cr_Entries res)) \<and>
    cr_Total res = cr_Total ref \<and> cr_Total res = length (cr_Entries res) \<and>
    mset (cr_Errors res) = mset (cr_Errors ref) \<and> dom (cr_Sources res) = dom (cr_Sources ref)"
proof -
  let ?o = "source_outcome fetch compile unmarshal (crawl_timeout timeout)"
  have eq: "set order = set (enabled_sources sources)" using assms(1) by (rule mset_eq_setD)
  have "\<forall>s \<in> set order. \<exists>r. ?o s = Inr r" using assms(2) eq source_outcome_no_panic by blast
  from Crawl_inv [OF this] obtain w where w:
    "Crawl fetch compile unmarshal order timeout = Inr (cw_result w)" "crawl_inv ?o order w" by blast
  have "\<forall>s \<in> set (enabled_sources sources). \<exists>r. ?o s = Inr r" using assms(2) source_outcome_no_panic by blast
  from Crawl_inv [OF this] obtain v where v:
    "Crawl fetch compile unmarshal (enabled_sources sources) timeout = Inr (cw_result v)"
    "crawl_inv ?o (enabled_sources sources) v" by blast
  have keys: "entry_key ` set (cr_Entries (cw_result w)) = entry_key ` set (cr_Entries (cw_result v))"
    using w(2) v(2) eq by (simp add: crawl_inv_def found_keys_def)
  have card: "length (cr_Entries (cw_result u)) = card (entry_key ` set (cr_Entries (cw_result u)))"
    if "crawl_inv ?o ss u" for ss u
    using that distinct_card [of "map entry_key (cr_Entries (cw_result u))"] by (simp add: crawl_inv_def)
  have "mset (errors_of ?o order) = mset (errors_of ?o (enabled_sources sources))"
    unfolding errors_of_def by (simp only: mset_concat sum_mset_sum_list [symmetric] mset_map assms(1))
  moreover have "set (successes ?o order) = set (successes ?o (enabled_sources sources))"
    using eq by (simp add: successes_def)
  ultimately show ?thesis
    using w v keys card [OF w(2)] card [OF v(2)] by (simp add: crawl_inv_def)
qed

definition stub_fetch :: "string \<Rightarrow> int \<Rightarrow> (string \<times> string) list \<Rightarrow> string + string" where
  "stub_fetch url timeout headers =
     (if url = ''http://list/'' then Inr ''192.168.1.1:8080'' else Inl ''no such host'')"

definition down_source :: source where
  "down_source = (plain_source ''down'' [])\<lparr>src_URL := ''http://down/''\<rparr>"

definition two_sources :: "source list" where
  "two_sources = [plain_source ''a'' [], down_source]"

lemma two_sources_plain:
  "enabled_sources two_sources = two_sources" "\<forall>s \<in> set two_sources. two_groups compile s"
  by (simp_all add: enabled_sources_def two_sources_def plain_source_def down_source_def two_groups_def)

lemma Crawl_order_independent_witness:
  "\<exists>res ref.
    Crawl stub_fetch (\<lambda>r. Inl r) (\<lambda>b. Inl b) (rev two_sources) 0 = Inr res \<and>
    Crawl stub_fetch (\<lambda>r. Inl r) (\<lambda>b. Inl b) (enabled_sources two_sources) 0 = Inr ref \<and>
    entry_key ` set (cr_Entries res) = entry_key ` set (cr_Entries ref) \<and>
    distinct (map entry_key (cr_Entries res)) \<and>
    cr_Total res = cr_Total ref \<and> cr_Total res = length (cr_Entries res) \<and>
    mset (cr_Errors res) = mset (cr_Errors ref) \<and> dom (cr_Sources res) = dom (cr_Sources ref)"
  by (rule Crawl_order_independent) (simp_all add: two_sources_plain)

lemma builtin_sources:
  "distinct (map src_Name BuiltinSources)" "\<forall>s \<in> set BuiltinSources. src_Enabled s"
  "length BuiltinSources = 14"
  by (simp_all add: BuiltinSources_def html_source_def json_source_def)

text \<open>
  A crawl of the built-in sources, in whatever order they answer: the counts the
  API reports for the sources add up to the total, and the total is the number of addresses
  that are cached.
\<close>

theorem Crawl_accounts:
  assumes "mset order = mset (enabled_sources BuiltinSources)"
    and "\<forall>s \<in> set BuiltinSources. two_groups compile s"
  shows "\<exists>res. Crawl fetch compile unmarshal order timeout = Inr res \<and>
    counted (cr_Sources res) = cr_Total res \<and> cr_Total res = length (cr_Entries res) \<and>
    length (cr_Errors res) + card (dom (cr_Sources res)) = 14"
proof -
  let ?o = "source_outcome fetch compile unmarshal (crawl_timeout timeout)"
  have en: "enabled_sources BuiltinSources = BuiltinSources"
    using builtin_sources(2) by (simp add: enabled_sources_def)
  have eq: "set order = set BuiltinSources" using assms(1) en by (metis mset_eq_setD)
  have len: "length order = 14" using assms(1) en builtin_sources(3) by (metis size_mset)
  have "mset (map src_Name order) = mset (map src_Name BuiltinSources)" using assms(1) en by simp
  then have dist: "distinct (map src_Name order)" using builtin_sources(1) by (metis mset_eq_imp_distinct_iff)
  have ok: "\<forall>s \<in> set order. \<exists>r. ?o s = Inr r" using assms(2) eq source_outcome_no_panic by blast
  from Crawl_inv [OF ok] obtain w where w:
    "Crawl fetch compile unmarshal order timeout = Inr (cw_result w)" "crawl_inv ?o order w" by blast
  have "length (errors_of ?o ss) + length (successes ?o ss) = length ss" if "\<forall>s \<in> set ss. \<exists>r. ?o s = Inr r" for ss
    using that by (induction ss) (auto simp: errors_of_def successes_def split: sum.splits)
  from this [OF ok] have split: "length (errors_of ?o order) + length (successes ?o order) = 14" using len by simp
  have "distinct (map src_Name (successes ?o order))"
    using dist unfolding successes_def by (rule distinct_map_filter)
  then have "card (src_Name ` set (successes ?o order)) = length (successes ?o order)"
    by (metis distinct_card length_map set_map)
  with w dist split show ?thesis by (simp add: crawl_inv_def)
qed

lemma Crawl_accounts_witness:
  "\<exists>res. Crawl stub_fetch (\<lambda>r. Inl r) (\<lambda>b. Inl b) (rev BuiltinSources) 0 = Inr res \<and>
    counted (cr_Sources res) = cr_Total res \<and> cr_Total res = length (cr_Entries res) \<and>
    length (cr_Errors res) + card (dom (cr_Sources res)) = 14"
  by (rule Crawl_accounts) (simp_all add: enabled_sources_def builtin_sources two_groups_def)

end
