(* ===== verification/ProxyTest.thy ===== *)
theory ProxyTest
  imports DialerSpec Sources
begin

text \<open>
  The test of one free proxy (\<open>internal/freeproxy/validator.go\<close>): the TCP pre-check and the
  probe of the test URLs, the transports it builds, and the package's own copies of the SOCKS5
  handshake, the CONNECT client and the field splitter. The HTTP client of the standard library
  is a parameter.
\<close>

section \<open>The copies of the dialer's helpers\<close>

fun v_split_loop :: "string \<Rightarrow> string list \<Rightarrow> string \<Rightarrow> string list" where
  "v_split_loop cur out [] = (if cur \<noteq> [] then out @ [cur] else out)"
| "v_split_loop cur out (c # cs) =
     (if c = CHR '' '' \<or> c = CHR 0x09 \<or> c = CHR 0x0D \<or> c = CHR 0x0A then
        (if cur \<noteq> [] then v_split_loop [] (out @ [cur]) cs else v_split_loop cur out cs)
      else v_split_loop (cur @ string_of_byte c) out cs)"

definition v_splitFields :: "string \<Rightarrow> string list" where
  "v_splitFields s = v_split_loop [] [] s"

definition v_socks5UserPass :: "string \<Rightarrow> string \<Rightarrow> (dial_error, unit) io" where
  "v_socks5UserPass user pass =
     (if length user > 255 \<or> length pass > 255 then fail CredentialsTooLong
      else
        (let pkt = [1, of_nat (length user)] @ bytes_of user @ [of_nat (length pass)] @ bytes_of pass in
         andThen (wr pkt) (\<lambda>_.
         andThen (rd 2) (\<lambda>reply.
         if reply ! 1 \<noteq> 0 then fail AuthFailed else ret ()))))"

text \<open>The request: version, command, reserved byte, address and port.\<close>

definition v_socks5_request :: "string \<Rightarrow> u16 \<Rightarrow> dial_error + byte list" where
  "v_socks5_request host port =
     (let addr =
        (case ParseIP host of
           None \<Rightarrow> if length host > 255 then Inl DomainTooLong
                   else Inr ([3, of_nat (length host)] @ bytes_of host)
         | Some ip \<Rightarrow> (case To4 ip of Some v4 \<Rightarrow> Inr (1 # v4) | None \<Rightarrow> Inr (4 # ip)))
      in map_sum (\<lambda>e. e)
           (\<lambda>a. [5, 1, 0] @ a @ [ucast (drop_bit 8 port), ucast port]) addr)"

definition v_socks5_method :: "byte list \<Rightarrow> string \<Rightarrow> string \<Rightarrow> (dial_error, unit) io" where
  "v_socks5_method method user pass =
     (if method ! 0 \<noteq> 5 then fail (BadServerVersion (method ! 0))
      else if method ! 1 = 0 then ret ()
      else if method ! 1 = 2 then
        (if user = [] then fail NeedsUserPass else v_socks5UserPass user pass)
      else if method ! 1 = 255 then fail NoAcceptableMethod
      else fail (UnknownMethod (method ! 1)))"

definition v_socks5_reply :: "(dial_error, unit) io" where
  "v_socks5_reply =
     andThen (rd 4) (\<lambda>head.
     if head ! 0 \<noteq> 5 then fail (BadReplyVersion (head ! 0))
     else if head ! 1 \<noteq> 0 then fail (ConnectRejected (head ! 1))
     else
       andThen
         (if head ! 3 = 1 then ret 4
          else if head ! 3 = 4 then ret 16
          else if head ! 3 = 3 then andThen (rd 1) (\<lambda>l. ret (unat (l ! 0)))
          else fail (UnknownAtyp (head ! 3)))
         (\<lambda>addrLen.
          if addrLen > 0 then andThen (rd (addrLen + 2)) (\<lambda>_. ret ()) else ret ()))"

definition v_socks5Handshake :: "string \<Rightarrow> u16 \<Rightarrow> string \<Rightarrow> string \<Rightarrow> (dial_error, unit) io" where
  "v_socks5Handshake host port user pass =
     andThen (wr (if user \<noteq> [] \<or> pass \<noteq> [] then [5, 1, 2] else [5, 1, 0])) (\<lambda>_.
     andThen (rd 2) (\<lambda>method.
     andThen (v_socks5_method method user pass) (\<lambda>_.
     case v_socks5_request host port of
       Inl e \<Rightarrow> fail e
     | Inr req \<Rightarrow> andThen (wr req) (\<lambda>_. v_socks5_reply))))"

text \<open>The CONNECT client looks at the status before it drains the headers.\<close>

definition v_connect_exchange :: "string \<Rightarrow> (dial_error, unit) io" where
  "v_connect_exchange target =
     andThen (wr (bytes_of (''CONNECT '' @ target @ '' HTTP/1.1'' @ crlf @ ''Host: '' @ target @ crlf @ crlf)))
       (\<lambda>_ c.
        if c_closed c then (Inl (ReadResponse UseOfClosed), c)
        else case readLine [] [] (c_in c) of
          (Inl e, _, segs) \<Rightarrow> (Inl (ReadResponse e), c\<lparr>c_in := segs\<rparr>)
        | (Inr line, buf, segs) \<Rightarrow>
            (let statusLine = string_of line; parts = v_splitFields statusLine in
             if length parts < 2 then (Inl (MalformedStatus statusLine), c\<lparr>c_in := segs\<rparr>)
             else if Atoi (parts ! 1) \<noteq> 200 then (Inl (ConnectFailed statusLine), c\<lparr>c_in := segs\<rparr>)
             else (case drain_headers buf segs of
                 (Inl e, _, segs') \<Rightarrow> (Inl (ReadResponse e), c\<lparr>c_in := segs'\<rparr>)
               | (Inr _, _, segs') \<Rightarrow> (Inr (), c\<lparr>c_in := segs'\<rparr>))))"

definition httpConnectTunnel :: "string \<Rightarrow> string \<Rightarrow> net \<Rightarrow> (dial_error + conn) \<times> net" where
  "httpConnectTunnel proxyAddr target w =
     (case tcpDial proxyAddr w of
        (Inl e, w') \<Rightarrow> (Inl e, w')
      | (Inr raw, w') \<Rightarrow> finish (v_connect_exchange target) raw w')"

section \<open>The test of a URL\<close>

text \<open>
  The transport is a proxy URL, or a dial function of its own for SOCKS5. The client is a
  parameter: it gets the transport, the timeout, the URL and the headers, and returns an error or the status, the
  body as far as it could be read and the error that ended it.
\<close>

datatype test_error =
    TestDial dial_error
  | BadTarget addr_error
  | BadPort string
  | BadProxyURL string
  | UnknownProxyType string
  | BadRequest string
  | ClientError string
  | ReadBody string
  | BadStatus int string
  | TcpPrecheck dial_error
  | AllFailed test_error

text \<open>\<open>strconv.Atoi\<close> with its error.\<close>

definition Atoi_checked :: "string \<Rightarrow> int option" where
  "Atoi_checked s =
     (let neg = has_prefix ''-'' s;
          ds = (if has_prefix ''-'' s \<or> has_prefix ''+'' s then drop 1 s else s);
          v = (if neg then - int (dec_val ds) else int (dec_val ds))
      in if ds = [] \<or> \<not> (\<forall>c \<in> set ds. is_digit c) \<or> v < - (2 ^ 63) \<or> v \<ge> 2 ^ 63 then None else Some v)"

definition socks5_test_dial :: "string \<Rightarrow> string \<Rightarrow> net \<Rightarrow> (test_error + conn) \<times> net" where
  "socks5_test_dial addr target w =
     (case tcpDial addr w of
        (Inl e, w') \<Rightarrow> (Inl (TestDial e), w')
      | (Inr raw, w') \<Rightarrow>
          (case SplitHostPort target of
             Inl e \<Rightarrow> (Inl (BadTarget e), drop_conn raw w')
           | Inr (host, portStr) \<Rightarrow>
               (case Atoi_checked portStr of
                  None \<Rightarrow> (Inl (BadPort portStr), drop_conn raw w')
                | Some port \<Rightarrow>
                    (case v_socks5Handshake host (of_int port) [] [] raw of
                       (Inl e, raw') \<Rightarrow> (Inl (TestDial e), drop_conn raw' w')
                     | (Inr _, raw') \<Rightarrow> (Inr raw', w')))))"

datatype transport =
    ProxyTransport string
  | DialTransport "string \<Rightarrow> net \<Rightarrow> (test_error + conn) \<times> net"

type_synonym http_client =
  "transport \<Rightarrow> int \<Rightarrow> string \<Rightarrow> (string \<times> string) list \<Rightarrow> net \<Rightarrow> (string + int \<times> string \<times> string option) \<times> net"

definition test_transport :: "(string \<Rightarrow> string option) \<Rightarrow> free_entry \<Rightarrow> test_error + transport" where
  "test_transport badURL entry =
     (if fe_Type entry = ''http'' then
        (case badURL (''http://'' @ fe_Addr entry) of
           Some e \<Rightarrow> Inl (BadProxyURL e)
         | None \<Rightarrow> Inr (ProxyTransport (''http://'' @ fe_Addr entry)))
      else if fe_Type entry = ''socks5'' then Inr (DialTransport (socks5_test_dial (fe_Addr entry)))
      else Inl (UnknownProxyType (fe_Type entry)))"

definition testProxy ::
  "(string \<Rightarrow> string option) \<Rightarrow> (string \<Rightarrow> string option) \<Rightarrow> http_client \<Rightarrow>
   free_entry \<Rightarrow> string \<Rightarrow> int \<Rightarrow> net \<Rightarrow> test_error option \<times> net" where
  "testProxy badURL badRequest doReq entry testURL timeout w =
     (case test_transport badURL entry of
        Inl e \<Rightarrow> (Some e, w)
      | Inr tr \<Rightarrow>
          (case badRequest testURL of
             Some e \<Rightarrow> (Some (BadRequest e), w)
           | None \<Rightarrow>
               (case doReq tr timeout testURL [(''User-Agent'', ''ProxyPool-Validator/1.0'')] w of
                  (Inl e, w') \<Rightarrow> (Some (ClientError e), w')
                | (Inr (status, body, err), w') \<Rightarrow>
                    (if err \<noteq> None \<and> length body < 4096 then (Some (ReadBody (the err)), w')
                     else if status < 200 \<or> status \<ge> 400 then (Some (BadStatus status (take 4096 body)), w')
                     else (None, w')))))"

section \<open>The test of a proxy\<close>

fun test_urls ::
  "(string \<Rightarrow> net \<Rightarrow> test_error option \<times> net) \<Rightarrow> string list \<Rightarrow> test_error option \<Rightarrow> net \<Rightarrow>
   test_error option \<times> net" where
  "test_urls test [] lastErr w = (map_option AllFailed lastErr, w)"
| "test_urls test (u # us) lastErr w =
     (case test u w of
        (None, w') \<Rightarrow> (None, w')
      | (Some e, w') \<Rightarrow> test_urls test us (Some e) w')"

definition testProxyMulti ::
  "(string \<Rightarrow> string option) \<Rightarrow> (string \<Rightarrow> string option) \<Rightarrow> http_client \<Rightarrow>
   free_entry \<Rightarrow> string list \<Rightarrow> int \<Rightarrow> net \<Rightarrow> test_error option \<times> net" where
  "testProxyMulti badURL badRequest doReq entry testURLs timeout w =
     (case tcpDial (fe_Addr entry) w of
        (Inl e, w') \<Rightarrow> (Some (TcpPrecheck e), w')
      | (Inr c, w') \<Rightarrow>
          test_urls (\<lambda>u. testProxy badURL badRequest doReq entry u timeout) testURLs None (drop_conn c w'))"

section \<open>The copies agree with the originals\<close>

lemma v_splitFields_eq [simp]: "v_splitFields s = splitFields s"
proof -
  have "v_split_loop cur out s = split_loop cur out s" for cur out
    by (induction s arbitrary: cur out) (simp_all add: is_space_def)
  then show ?thesis by (simp add: v_splitFields_def splitFields_def)
qed

lemma v_socks5UserPass_eq: "v_socks5UserPass user pass = socks5UserPass user pass"
  by (simp add: v_socks5UserPass_def socks5UserPass_def byte_of_len_def)

lemma v_socks5_reply_eq: "v_socks5_reply = socks5_reply"
  unfolding v_socks5_reply_def socks5_reply_def socks5_reply_len_def ..

lemma v_socks5_method_eq:
  "v_socks5_method m user pass =
     (if m ! 0 \<noteq> 5 then fail (BadServerVersion (m ! 0)) else socks5_auth (m ! 1) user pass)"
  unfolding v_socks5_method_def socks5_auth_def v_socks5UserPass_eq by simp

lemma v_socks5_request_eq:
  "v_socks5_request host port =
     map_sum (\<lambda>e. e) (\<lambda>a. [5, 1, 0] @ a @ port_bytes port) (socks5_addr host)"
  unfolding v_socks5_request_def socks5_addr_def Let_def port_bytes_def byte_of_len_def ..

lemma andThen_if_fail: "andThen (if b then fail e else m) f = (if b then fail e else andThen m f)"
  by (auto simp: andThen_def fun_eq_iff)

lemma v_socks5Handshake_is_handshake:
  "v_socks5Handshake host port user pass = socks5Handshake host port user pass"
proof -
  have "(case map_sum (\<lambda>e. e) (\<lambda>a. [5, 1, 0] @ a @ port_bytes port) (socks5_addr host) of
      Inl e \<Rightarrow> fail e | Inr req \<Rightarrow> andThen (wr req) (\<lambda>_. socks5_reply)) =
    (case socks5_addr host of
      Inl e \<Rightarrow> fail e
    | Inr addr \<Rightarrow> andThen (wr ([5, 1, 0] @ addr @ port_bytes port)) (\<lambda>_. socks5_reply))"
    by (cases "socks5_addr host") simp_all
  then show ?thesis
    unfolding v_socks5Handshake_def socks5Handshake_def socks5_greeting_def v_socks5_reply_eq
      v_socks5_method_eq v_socks5_request_eq andThen_if_fail by (simp only:)
qed

text \<open>
  C35. The validator's handshake is the dialer's, on every connection and with every
  argument: the same bytes are written and read, and the outcome is the same. A proxy that
  passes the test speaks SOCKS5 the way the dialer will speak to it.
\<close>

theorem v_socks5Handshake_is_socks5Handshake:
  "v_socks5Handshake host port user pass = socks5Handshake host port user pass"
  by (rule v_socks5Handshake_is_handshake)

lemma connect_request_plain:
  "connect_request target [] =
     ''CONNECT '' @ target @ '' HTTP/1.1'' @ crlf @ ''Host: '' @ target @ crlf @ crlf"
  by (simp add: connect_request_def)

lemma readHTTPResponse_unfolded:
  assumes "\<not> c_closed c" and "readLine [] [] (c_in c) = (Inr line, buf, segs)"
    and "\<not> length (splitFields (string_of line)) < 2"
  shows "readHTTPResponse c =
    (case drain_headers buf segs of
       (Inl e, _, segs') \<Rightarrow> (Inl (ReadResponse e), c\<lparr>c_in := segs'\<rparr>)
     | (Inr _, _, segs') \<Rightarrow>
         (Inr \<lparr>Status = string_of line, StatusCode = Atoi (splitFields (string_of line) ! 1)\<rparr>,
          c\<lparr>c_in := segs'\<rparr>))"
  using assms by (simp add: readHTTPResponse_def Let_def split: prod.split sum.split)

text \<open>
  The validator's CONNECT client opens a tunnel exactly when the dialer's would
  without credentials, and leaves the connection in the same state; only the error of a
  refused one may differ, since it does not read the headers of a refusal.
\<close>

theorem v_connect_exchange_agrees:
  "v_connect_exchange target c = (Inr (), c') \<longleftrightarrow> http_tunnel target [] c = (Inr (), c')"
proof -
  let ?req = "bytes_of (connect_request target [])"
  obtain r c1 where w: "wr ?req c = (r, c1)" by (cases "wr ?req c")
  show ?thesis
  proof (cases r)
    case (Inl e)
    with w show ?thesis by (simp add: v_connect_exchange_def http_tunnel_def connect_request_plain)
  next
    case (Inr u)
    show ?thesis
    proof (cases "c_closed c1")
      case True
      with w Inr show ?thesis
        by (simp add: v_connect_exchange_def http_tunnel_def connect_request_plain andThen_def
            readHTTPResponse_def)
    next
      case False
      obtain q buf segs where q: "readLine [] [] (c_in c1) = (q, buf, segs)"
        by (cases "readLine [] [] (c_in c1)")
      show ?thesis
      proof (cases "\<exists>line. q = Inr line \<and> \<not> length (splitFields (string_of line)) < 2")
        case True
        then obtain line where line: "q = Inr line" "\<not> length (splitFields (string_of line)) < 2" by blast
        obtain d b s where d: "drain_headers buf segs = (d, b, s)" by (cases "drain_headers buf segs")
        have r: "readHTTPResponse c1 = (case drain_headers buf segs of
            (Inl e, _, segs') \<Rightarrow> (Inl (ReadResponse e), c1\<lparr>c_in := segs'\<rparr>)
          | (Inr _, _, segs') \<Rightarrow>
              (Inr \<lparr>Status = string_of line, StatusCode = Atoi (splitFields (string_of line) ! 1)\<rparr>,
               c1\<lparr>c_in := segs'\<rparr>))"
          using readHTTPResponse_unfolded [OF False] q line by simp
        show ?thesis
          using w Inr False q line d r
          by (cases d) (auto simp: v_connect_exchange_def http_tunnel_def connect_request_plain andThen_def Let_def)
      next
        case bad: False
        with w Inr False q show ?thesis
          by (cases q) (auto simp: v_connect_exchange_def http_tunnel_def connect_request_plain andThen_def
              readHTTPResponse_def Let_def)
      qed
    qed
  qed
qed

section \<open>Properties of the tests\<close>

text \<open>
  The dial function of the SOCKS5 transport leaks no connection: the one it has opened
  is returned open with the target asked for, or closed when an error is returned.
\<close>

theorem socks5_test_dial_accounts:
  assumes "n_peer w (length (n_dialled w)) addr = Some raw"
    and "socks5_test_dial addr target w = (r, w')"
  shows "n_dialled w' = n_dialled w @ [addr] \<and>
    (case r of
       Inl e \<Rightarrow> \<exists>c. n_dropped w' = n_dropped w @ [c] \<and> c_closed c
     | Inr c \<Rightarrow> n_dropped w' = n_dropped w \<and> c_closed c = c_closed raw \<and>
         (\<exists>host port v. SplitHostPort target = Inr (host, port) \<and> Atoi_checked port = Some v \<and>
            socks5Handshake host (of_int v) [] [] raw = (Inr (), c)))"
proof -
  let ?w = "w\<lparr>n_dialled := n_dialled w @ [addr]\<rparr>"
  have d: "tcpDial addr w = (Inr raw, ?w)" using assms(1) by (simp add: tcpDial_def Let_def)
  show ?thesis
  proof (cases "SplitHostPort target")
    case (Inl e)
    with assms(2) d show ?thesis by (auto simp: socks5_test_dial_def drop_conn_def)
  next
    case (Inr hp)
    obtain host port where hp: "hp = (host, port)" by (cases hp)
    show ?thesis
    proof (cases "Atoi_checked port")
      case None
      with assms(2) d Inr hp show ?thesis by (auto simp: socks5_test_dial_def drop_conn_def)
    next
      case (Some v)
      obtain x raw' where x: "socks5Handshake host (of_int v) [] [] raw = (x, raw')"
        by (cases "socks5Handshake host (of_int v) [] [] raw" rule: prod.exhaust)
      have "c_closed raw' = c_closed raw" by (rule io_tameD(1) [OF io_tame_socks5Handshake x])
      with assms(2) d Inr hp Some x show ?thesis
        by (cases x) (auto simp: socks5_test_dial_def drop_conn_def v_socks5Handshake_is_handshake)
    qed
  qed
qed

definition silent_conn :: conn where
  "silent_conn = fresh_conn []"

lemma socks5_test_dial_accounts_witness:
  "\<exists>c. n_dropped (snd (socks5_test_dial ''10.0.0.1:1080'' ''example.com'' (one_peer silent_conn))) = [c] \<and>
     c_closed c"
proof -
  have m: "SplitHostPort ''example.com'' = Inl MissingPort" by code_simp
  have "socks5_test_dial ''10.0.0.1:1080'' ''example.com'' (one_peer silent_conn) =
      (Inl (BadTarget MissingPort), snd (socks5_test_dial ''10.0.0.1:1080'' ''example.com'' (one_peer silent_conn)))"
    by (simp add: socks5_test_dial_def tcpDial_def one_peer_def m)
  from socks5_test_dial_accounts [OF _ this, of silent_conn] show ?thesis
    by (simp add: one_peer_def)
qed

text \<open>The state after a number of URLs that all fail, if they do.\<close>

fun all_failed ::
  "(string \<Rightarrow> net \<Rightarrow> test_error option \<times> net) \<Rightarrow> string list \<Rightarrow> net \<Rightarrow> net option" where
  "all_failed test [] w = Some w"
| "all_failed test (u # us) w =
     (case test u w of (None, _) \<Rightarrow> None | (Some e, w') \<Rightarrow> all_failed test us w')"

lemma test_urls_pass:
  assumes "us \<noteq> [] \<or> lastErr \<noteq> None"
  shows "test_urls test us lastErr w = (None, w') \<longleftrightarrow>
    (\<exists>pre u post w1. us = pre @ u # post \<and> all_failed test pre w = Some w1 \<and> test u w1 = (None, w'))"
  using assms
proof (induction us arbitrary: lastErr w)
  case (Cons u us)
  obtain r w2 where r: "test u w = (r, w2)" by (cases "test u w")
  show ?case
  proof (cases r)
    case None
    have "\<exists>pre v post w1. u # us = pre @ v # post \<and> all_failed test pre w = Some w1 \<and> test v w1 = (None, w2)"
      using r None by (intro exI [of _ "[]"] exI [of _ u] exI [of _ us] exI [of _ w]) simp
    moreover have "w' = w2" if "u # us = pre @ v # post" "all_failed test pre w = Some w1" "test v w1 = (None, w')"
      for pre v post w1
      using that r None by (cases pre) auto
    ultimately show ?thesis using r None by auto
  next
    case (Some e)
    with r have "test_urls test (u # us) lastErr w = test_urls test us (Some e) w2" by simp
    moreover have "(\<exists>pre v post w1. u # us = pre @ v # post \<and> all_failed test pre w = Some w1 \<and> test v w1 = (None, w')) \<longleftrightarrow>
        (\<exists>pre v post w1. us = pre @ v # post \<and> all_failed test pre w2 = Some w1 \<and> test v w1 = (None, w'))"
      (is "?L \<longleftrightarrow> ?R")
    proof
      assume ?L
      then obtain pre v post w1 where p: "u # us = pre @ v # post" "all_failed test pre w = Some w1"
        "test v w1 = (None, w')" by blast
      then obtain pre' where "pre = u # pre'" using r Some by (cases pre) auto
      with p r Some show ?R by auto
    next
      assume ?R
      then obtain pre v post w1 where "us = pre @ v # post" "all_failed test pre w2 = Some w1"
        "test v w1 = (None, w')" by blast
      with r Some show ?L by (intro exI [of _ "u # pre"] exI [of _ v] exI [of _ post] exI [of _ w1]) simp
    qed
    ultimately show ?thesis using Cons.IH [of "Some e" w2] by simp
  qed
qed simp

abbreviation url_test ::
  "(string \<Rightarrow> string option) \<Rightarrow> (string \<Rightarrow> string option) \<Rightarrow> http_client \<Rightarrow>
   free_entry \<Rightarrow> int \<Rightarrow> string \<Rightarrow> net \<Rightarrow> test_error option \<times> net" where
  "url_test badURL badRequest doReq entry timeout \<equiv>
     (\<lambda>u. testProxy badURL badRequest doReq entry u timeout)"

text \<open>
  A proxy passes exactly if its address accepts a TCP connection and, unless there is
  nothing to probe, some URL passes after all before it have failed; the probing stops there.
  With no test URL an open port is enough.
\<close>

theorem testProxyMulti_valid:
  "testProxyMulti badURL badRequest doReq entry testURLs timeout w = (None, w') \<longleftrightarrow>
    (\<exists>c w0. tcpDial (fe_Addr entry) w = (Inr c, w0) \<and>
       (testURLs = [] \<and> w' = drop_conn c w0 \<or>
        (\<exists>pre u post w1. testURLs = pre @ u # post \<and>
           all_failed (url_test badURL badRequest doReq entry timeout) pre (drop_conn c w0) = Some w1 \<and>
           url_test badURL badRequest doReq entry timeout u w1 = (None, w'))))"
proof -
  obtain r w0 where t: "tcpDial (fe_Addr entry) w = (r, w0)" by (cases "tcpDial (fe_Addr entry) w")
  show ?thesis
  proof (cases r)
    case (Inr c)
    show ?thesis
    proof (cases "testURLs = []")
      case False
      with t Inr test_urls_pass [of testURLs None "url_test badURL badRequest doReq entry timeout" "drop_conn c w0" w']
      show ?thesis by (simp add: testProxyMulti_def)
    qed (use t Inr in \<open>auto simp: testProxyMulti_def\<close>)
  qed (use t in \<open>simp add: testProxyMulti_def\<close>)
qed

end
