(* ===== verification/Validator.thy ===== *)
theory Validator
  imports ProxyTest "HOL-Library.Multiset"
begin

text \<open>
  The concurrent validation (\<open>internal/freeproxy/validator.go\<close>): a goroutine per proxy, a
  channel of tokens that bounds how many test at a time, a shared result list and the
  progress counters, as a machine whose steps are the accesses to what is shared.
  \<open>ValidateAsync\<close> and \<open>ValidateBatch\<close> are the same machine with and without a task.
\<close>

section \<open>State\<close>

record validate_result =
  vr_Addr :: string
  vr_Type :: string
  vr_Source :: string
  vr_Valid :: bool
  vr_Latency :: nat
  vr_Error :: "test_error option"

datatype phase =
    NotStarted
  | Waiting
  | Testing
  | Judged validate_result
  | Recorded validate_result
  | Counted validate_result
  | Released validate_result
  | Exited validate_result

datatype main_phase = Spawning nat | Awaiting | Returned

text \<open>
  The task and the locals of the call: \<open>vt_sem\<close> is the number of tokens in the channel,
  \<open>vt_wg\<close> the counter of the wait group. Before the call sets it up a task is idle.
\<close>

record validate_task =
  vt_Total :: nat
  vt_Done :: nat
  vt_Valid :: nat
  vt_Running :: bool
  vt_Results :: "validate_result list"
  vt_sem :: nat
  vt_wg :: nat
  vt_main :: main_phase
  vt_phases :: "phase list"

definition new_task :: validate_task where
  "new_task = \<lparr>vt_Total = 0, vt_Done = 0, vt_Valid = 0, vt_Running = False, vt_Results = [],
     vt_sem = 0, vt_wg = 0, vt_main = Spawning 0, vt_phases = []\<rparr>"

definition Snapshot :: "validate_task \<Rightarrow> validate_result list" where
  "Snapshot t = filter vr_Valid (vt_Results t)"

text \<open>
  The arguments of a call. \<open>va_verdict i\<close> is what the test of entry \<open>i\<close> returns and the
  milliseconds it takes; \<open>va_tracked\<close> is whether there is a task whose counters are kept.
\<close>

record validation =
  va_entries :: "free_entry list"
  va_concurrency :: int
  va_verdict :: "nat \<Rightarrow> test_error option \<times> nat"
  va_tracked :: bool

definition slots :: "int \<Rightarrow> nat" where
  "slots concurrency = (if concurrency \<le> 0 then 20 else nat concurrency)"

definition validation_urls :: "string list \<Rightarrow> string list" where
  "validation_urls testURLs = (if testURLs = [] then [''http://myip.ipip.net''] else testURLs)"

definition validation_timeout :: "int \<Rightarrow> int" where
  "validation_timeout timeout = (if timeout \<le> 0 then 10 * 1000000000 else timeout)"

definition result_of :: "validation \<Rightarrow> nat \<Rightarrow> validate_result" where
  "result_of v i =
     (let e = va_entries v ! i; (err, latency) = va_verdict v i in
      \<lparr>vr_Addr = fe_Addr e, vr_Type = fe_Type e, vr_Source = fe_Source e,
       vr_Valid = (err = None), vr_Latency = latency, vr_Error = err\<rparr>)"

text \<open>What the call does before it starts the first goroutine.\<close>

definition begin_task :: "validation \<Rightarrow> validate_task \<Rightarrow> validate_task" where
  "begin_task v t =
     t\<lparr>vt_Total := (if va_tracked v then length (va_entries v) else vt_Total t),
       vt_Running := (if va_tracked v then True else vt_Running t),
       vt_sem := 0, vt_wg := 0, vt_main := Spawning 0,
       vt_phases := replicate (length (va_entries v)) NotStarted\<rparr>"

section \<open>Steps\<close>

datatype event =
    Spawn
  | Await
  | Return
  | Acquire nat
  | Judge nat
  | Record nat
  | Count nat
  | Release nat
  | Exit nat

definition phase_at :: "validate_task \<Rightarrow> nat \<Rightarrow> phase option" where
  "phase_at t i = (if i < length (vt_phases t) then Some (vt_phases t ! i) else None)"

definition enter :: "nat \<Rightarrow> phase \<Rightarrow> validate_task \<Rightarrow> validate_task" where
  "enter i p t = t\<lparr>vt_phases := (vt_phases t)[i := p]\<rparr>"

definition main_step :: "event \<Rightarrow> validation \<Rightarrow> validate_task \<Rightarrow> validate_task option" where
  "main_step ev v t =
     (case (ev, vt_main t) of
        (Spawn, Spawning i) \<Rightarrow>
          if i < length (vt_phases t)
          then Some ((enter i Waiting t)\<lparr>vt_wg := vt_wg t + 1, vt_main := Spawning (i + 1)\<rparr>) else None
      | (Await, Spawning i) \<Rightarrow> if length (vt_phases t) \<le> i then Some (t\<lparr>vt_main := Awaiting\<rparr>) else None
      | (Return, Awaiting) \<Rightarrow>
          if vt_wg t = 0
          then Some (t\<lparr>vt_main := Returned, vt_Running := (if va_tracked v then False else vt_Running t)\<rparr>)
          else None
      | _ \<Rightarrow> None)"

text \<open>
  The goroutine of entry \<open>i\<close>: take a token, test, count a valid result, append the result,
  count it done, give the token back, leave the wait group.
\<close>

definition task_step :: "event \<Rightarrow> validation \<Rightarrow> validate_task \<Rightarrow> validate_task option" where
  "task_step ev v t =
     (case ev of
        Acquire i \<Rightarrow>
          (if phase_at t i = Some Waiting \<and> vt_sem t < slots (va_concurrency v)
           then Some ((enter i Testing t)\<lparr>vt_sem := vt_sem t + 1\<rparr>) else None)
      | Judge i \<Rightarrow>
          (if phase_at t i = Some Testing then
             (let r = result_of v i in
              Some ((enter i (Judged r) t)
                \<lparr>vt_Valid := (if va_tracked v \<and> vr_Valid r then vt_Valid t + 1 else vt_Valid t)\<rparr>))
           else None)
      | Record i \<Rightarrow>
          (case phase_at t i of
             Some (Judged r) \<Rightarrow> Some ((enter i (Recorded r) t)\<lparr>vt_Results := vt_Results t @ [r]\<rparr>)
           | _ \<Rightarrow> None)
      | Count i \<Rightarrow>
          (case phase_at t i of
             Some (Recorded r) \<Rightarrow>
               Some ((enter i (Counted r) t)\<lparr>vt_Done := (if va_tracked v then vt_Done t + 1 else vt_Done t)\<rparr>)
           | _ \<Rightarrow> None)
      | Release i \<Rightarrow>
          (case phase_at t i of
             Some (Counted r) \<Rightarrow> Some ((enter i (Released r) t)\<lparr>vt_sem := vt_sem t - 1\<rparr>)
           | _ \<Rightarrow> None)
      | Exit i \<Rightarrow>
          (case phase_at t i of
             Some (Released r) \<Rightarrow> Some ((enter i (Exited r) t)\<lparr>vt_wg := vt_wg t - 1\<rparr>)
           | _ \<Rightarrow> None)
      | _ \<Rightarrow> None)"

inductive validate_step :: "validation \<Rightarrow> validate_task \<Rightarrow> validate_task \<Rightarrow> bool" for v where
  step_main: "main_step ev v t = Some t' \<Longrightarrow> validate_step v t t'"
| step_task: "task_step ev v t = Some t' \<Longrightarrow> validate_step v t t'"

abbreviation validating :: "validation \<Rightarrow> validate_task \<Rightarrow> bool" where
  "validating v \<equiv> reach (\<lambda>t. t = begin_task v new_task) (validate_step v)"

section \<open>Counting phases\<close>

text \<open>
  A quantity of the state that is a sum over the goroutines changes by one summand when one
  goroutine changes phase. The same law serves counters and the multiset of results.
\<close>

definition tally :: "(nat \<Rightarrow> 'p \<Rightarrow> 'a :: comm_monoid_add) \<Rightarrow> 'p list \<Rightarrow> 'a" where
  "tally f ps = (\<Sum>i < length ps. f i (ps ! i))"

lemma tally_update:
  assumes "i < length ps"
  shows "tally f (ps[i := p]) + f i (ps ! i) = tally f ps + f i p"
proof -
  let ?A = "{..<length ps} - {i}"
  have "(\<Sum>j \<in> ?A. f j (ps[i := p] ! j)) = (\<Sum>j \<in> ?A. f j (ps ! j))" by (intro sum.cong) auto
  with assms show ?thesis
    unfolding tally_def by (simp add: sum.remove [of "{..<length ps}" i] ac_simps)
qed

lemma tally_zero: "(\<And>i. i < length ps \<Longrightarrow> f i (ps ! i) = 0) \<Longrightarrow> tally f ps = 0"
  by (simp add: tally_def)

text \<open>Where a goroutine stands.\<close>

fun active :: "phase \<Rightarrow> nat" where
  "active NotStarted = 0" | "active (Exited r) = 0" | "active _ = 1"

fun testing :: "phase \<Rightarrow> nat" where
  "testing Testing = 1" | "testing (Judged r) = 1" | "testing (Recorded r) = 1"
| "testing (Counted r) = 1" | "testing _ = 0"

fun verdict :: "phase \<Rightarrow> validate_result option" where
  "verdict (Judged r) = Some r" | "verdict (Recorded r) = Some r" | "verdict (Counted r) = Some r"
| "verdict (Released r) = Some r" | "verdict (Exited r) = Some r" | "verdict _ = None"

fun recorded :: "phase \<Rightarrow> validate_result multiset" where
  "recorded (Recorded r) = {#r#}" | "recorded (Counted r) = {#r#}" | "recorded (Released r) = {#r#}"
| "recorded (Exited r) = {#r#}" | "recorded _ = {#}"

fun counted_done :: "phase \<Rightarrow> nat" where
  "counted_done (Counted r) = 1" | "counted_done (Released r) = 1" | "counted_done (Exited r) = 1"
| "counted_done _ = 0"

definition judged_valid :: "phase \<Rightarrow> nat" where
  "judged_valid p = (case verdict p of Some r \<Rightarrow> if vr_Valid r then 1 else 0 | None \<Rightarrow> 0)"

lemma judged_valid_simps [simp]:
  "judged_valid NotStarted = 0" "judged_valid Waiting = 0" "judged_valid Testing = 0"
  "judged_valid (Judged r) = (if vr_Valid r then 1 else 0)"
  "judged_valid (Recorded r) = (if vr_Valid r then 1 else 0)"
  "judged_valid (Counted r) = (if vr_Valid r then 1 else 0)"
  "judged_valid (Released r) = (if vr_Valid r then 1 else 0)"
  "judged_valid (Exited r) = (if vr_Valid r then 1 else 0)"
  by (simp_all add: judged_valid_def)

fun spawned :: "main_phase \<Rightarrow> nat \<Rightarrow> nat" where
  "spawned (Spawning k) n = k" | "spawned _ n = n"

definition task_inv :: "validation \<Rightarrow> validate_task \<Rightarrow> bool" where
  "task_inv v t \<longleftrightarrow>
     length (vt_phases t) = length (va_entries v) \<and>
     (\<forall>i < length (vt_phases t). vt_phases t ! i = NotStarted \<longleftrightarrow> spawned (vt_main t) (length (va_entries v)) \<le> i) \<and>
     (\<forall>i < length (vt_phases t). \<forall>r. verdict (vt_phases t ! i) = Some r \<longrightarrow> r = result_of v i) \<and>
     vt_sem t = tally (\<lambda>i. testing) (vt_phases t) \<and> vt_sem t \<le> slots (va_concurrency v) \<and>
     vt_wg t = tally (\<lambda>i. active) (vt_phases t) \<and>
     mset (vt_Results t) = tally (\<lambda>i. recorded) (vt_phases t) \<and>
     (va_tracked v \<longrightarrow>
        vt_Total t = length (va_entries v) \<and>
        vt_Done t = tally (\<lambda>i. counted_done) (vt_phases t) \<and>
        vt_Valid t = tally (\<lambda>i. judged_valid) (vt_phases t) \<and>
        vt_Running t = (vt_main t \<noteq> Returned)) \<and>
     (vt_main t = Returned \<longrightarrow> vt_wg t = 0)"

lemma task_invD:
  assumes "task_inv v t"
  shows "length (vt_phases t) = length (va_entries v)"
    and "i < length (va_entries v) \<Longrightarrow> vt_phases t ! i = NotStarted \<longleftrightarrow> spawned (vt_main t) (length (va_entries v)) \<le> i"
    and "i < length (va_entries v) \<Longrightarrow> verdict (vt_phases t ! i) = Some r \<Longrightarrow> r = result_of v i"
    and "vt_sem t = tally (\<lambda>i. testing) (vt_phases t)" and "vt_sem t \<le> slots (va_concurrency v)"
    and "vt_wg t = tally (\<lambda>i. active) (vt_phases t)"
    and "mset (vt_Results t) = tally (\<lambda>i. recorded) (vt_phases t)"
    and "va_tracked v \<Longrightarrow> vt_Total t = length (va_entries v)"
    and "va_tracked v \<Longrightarrow> vt_Done t = tally (\<lambda>i. counted_done) (vt_phases t)"
    and "va_tracked v \<Longrightarrow> vt_Valid t = tally (\<lambda>i. judged_valid) (vt_phases t)"
    and "va_tracked v \<Longrightarrow> vt_Running t = (vt_main t \<noteq> Returned)"
    and "vt_main t = Returned \<Longrightarrow> vt_wg t = 0"
  using assms by (auto simp: task_inv_def)

lemma tally_ge:
  fixes f :: "nat \<Rightarrow> phase \<Rightarrow> nat"
  assumes "i < length ps"
  shows "f i (ps ! i) \<le> tally f ps"
  unfolding tally_def using assms by (intro member_le_sum) auto

text \<open>One lemma for all steps of a goroutine: the changes must match the change of phase.\<close>

lemma task_inv_enter:
  assumes inv: "task_inv v t" and i: "i < length (vt_phases t)"
    and old: "active (vt_phases t ! i) = 1" and p: "p \<noteq> NotStarted"
    and verdict: "\<And>r. verdict p = Some r \<Longrightarrow> r = result_of v i"
    and same: "vt_phases t' = (vt_phases t)[i := p]" "vt_main t' = vt_main t"
      "vt_Total t' = vt_Total t" "vt_Running t' = vt_Running t"
    and sem: "vt_sem t' + testing (vt_phases t ! i) = vt_sem t + testing p"
      "vt_sem t' \<le> slots (va_concurrency v)"
    and wg: "vt_wg t' + active (vt_phases t ! i) = vt_wg t + active p"
    and res: "mset (vt_Results t') + recorded (vt_phases t ! i) = mset (vt_Results t) + recorded p"
    and cnt: "va_tracked v \<Longrightarrow> vt_Done t' + counted_done (vt_phases t ! i) = vt_Done t + counted_done p"
    and val: "va_tracked v \<Longrightarrow> vt_Valid t' + judged_valid (vt_phases t ! i) = vt_Valid t + judged_valid p"
  shows "task_inv v t'"
proof -
  note upd = tally_update [OF i, of _ p]
  have "vt_phases t ! i \<noteq> NotStarted" using old by auto
  then have ns: "\<forall>j < length (vt_phases t). vt_phases t' ! j = NotStarted \<longleftrightarrow>
      spawned (vt_main t') (length (va_entries v)) \<le> j"
    using inv i p same by (auto simp: task_inv_def nth_list_update)
  have vd: "\<forall>j < length (vt_phases t). \<forall>r. verdict (vt_phases t' ! j) = Some r \<longrightarrow> r = result_of v j"
  proof (intro allI impI)
    fix j r
    assume "j < length (vt_phases t)" "verdict (vt_phases t' ! j) = Some r"
    then show "r = result_of v j"
      using inv verdict [of r] same(1) i by (cases "j = i") (simp_all add: task_inv_def)
  qed
  have busy: "vt_main t \<noteq> Returned"
    using inv old tally_ge [OF i, of "\<lambda>i. active"] by (auto simp: task_inv_def)
  have "vt_sem t' = tally (\<lambda>i. testing) (vt_phases t')"
    using inv sem upd [of "\<lambda>i. testing"] same by (simp add: task_inv_def)
  moreover have "vt_wg t' = tally (\<lambda>i. active) (vt_phases t')"
    using inv wg upd [of "\<lambda>i. active"] same by (simp add: task_inv_def)
  moreover have "mset (vt_Results t') = tally (\<lambda>i. recorded) (vt_phases t')"
  proof (rule add_right_imp_eq [where a = "recorded (vt_phases t ! i)"])
    have "mset (vt_Results t) = tally (\<lambda>i. recorded) (vt_phases t)" using inv by (simp add: task_inv_def)
    then show "mset (vt_Results t') + recorded (vt_phases t ! i) =
        tally (\<lambda>i. recorded) (vt_phases t') + recorded (vt_phases t ! i)"
      unfolding res same(1) upd [of "\<lambda>i. recorded"] by simp
  qed
  moreover have "vt_Done t' = tally (\<lambda>i. counted_done) (vt_phases t')" if "va_tracked v"
    using inv cnt [OF that] upd [of "\<lambda>i. counted_done"] same that by (simp add: task_inv_def)
  moreover have "vt_Valid t' = tally (\<lambda>i. judged_valid) (vt_phases t')" if "va_tracked v"
    using inv val [OF that] upd [of "\<lambda>i. judged_valid"] same that by (simp add: task_inv_def)
  ultimately show ?thesis
    using inv ns vd busy same sem(2) by (simp add: task_inv_def)
qed

lemma phase_at_Some: "phase_at t i = Some p \<longleftrightarrow> i < length (vt_phases t) \<and> vt_phases t ! i = p"
  by (auto simp: phase_at_def)

lemma task_step_inv:
  assumes inv: "task_inv v t" and st: "task_step ev v t = Some t'"
  shows "task_inv v t'"
proof -
  have sem1: "testing (vt_phases t ! i) \<le> vt_sem t" and wg1: "active (vt_phases t ! i) \<le> vt_wg t"
    if "i < length (vt_phases t)" for i
    using inv tally_ge [OF that, of "\<lambda>i. testing"] tally_ge [OF that, of "\<lambda>i. active"]
    by (simp_all add: task_inv_def)
  have vd: "r = result_of v i" if "i < length (vt_phases t)" "verdict (vt_phases t ! i) = Some r" for i r
    using inv that by (simp add: task_inv_def)
  have le: "vt_sem t \<le> slots (va_concurrency v)" using inv by (simp add: task_inv_def)
  show ?thesis
  proof (cases ev)
    case (Acquire i)
    with st show ?thesis
      by (intro task_inv_enter [OF inv, of i Testing])
        (auto simp: task_step_def enter_def phase_at_Some split: if_splits)
  next
    case (Judge i)
    with st le show ?thesis
      by (intro task_inv_enter [OF inv, of i "Judged (result_of v i)"])
        (auto simp: task_step_def enter_def phase_at_Some Let_def split: if_splits)
  next
    case (Record i)
    with st obtain r where "phase_at t i = Some (Judged r)"
      and t': "t' = (enter i (Recorded r) t)\<lparr>vt_Results := vt_Results t @ [r]\<rparr>"
      by (auto simp: task_step_def split: option.splits phase.splits)
    then show ?thesis
      by (intro task_inv_enter [OF inv, of i "Recorded r"])
        (use vd [of i r] le in \<open>auto simp: enter_def phase_at_Some\<close>)
  next
    case (Count i)
    with st obtain r where "phase_at t i = Some (Recorded r)"
      and t': "t' = (enter i (Counted r) t)\<lparr>vt_Done := (if va_tracked v then vt_Done t + 1 else vt_Done t)\<rparr>"
      by (auto simp: task_step_def split: option.splits phase.splits)
    then show ?thesis
      by (intro task_inv_enter [OF inv, of i "Counted r"])
        (use vd [of i r] le in \<open>auto simp: enter_def phase_at_Some\<close>)
  next
    case (Release i)
    with st obtain r where "phase_at t i = Some (Counted r)"
      and t': "t' = (enter i (Released r) t)\<lparr>vt_sem := vt_sem t - 1\<rparr>"
      by (auto simp: task_step_def split: option.splits phase.splits)
    then show ?thesis
      by (intro task_inv_enter [OF inv, of i "Released r"])
        (use vd [of i r] le sem1 [of i] in \<open>auto simp: enter_def phase_at_Some\<close>)
  next
    case (Exit i)
    with st obtain r where "phase_at t i = Some (Released r)"
      and t': "t' = (enter i (Exited r) t)\<lparr>vt_wg := vt_wg t - 1\<rparr>"
      by (auto simp: task_step_def split: option.splits phase.splits)
    then show ?thesis
      by (intro task_inv_enter [OF inv, of i "Exited r"])
        (use vd [of i r] le wg1 [of i] in \<open>auto simp: enter_def phase_at_Some\<close>)
  qed (use st in \<open>simp_all add: task_step_def\<close>)
qed

lemma main_step_cases:
  assumes "main_step ev v t = Some t'"
  obtains (spawn) i where "vt_main t = Spawning i" "i < length (vt_phases t)"
      "t' = (enter i Waiting t)\<lparr>vt_wg := vt_wg t + 1, vt_main := Spawning (i + 1)\<rparr>"
  | (await) i where "vt_main t = Spawning i" "length (vt_phases t) \<le> i" "t' = t\<lparr>vt_main := Awaiting\<rparr>"
  | (return) "vt_main t = Awaiting" "vt_wg t = 0"
      "t' = t\<lparr>vt_main := Returned, vt_Running := (if va_tracked v then False else vt_Running t)\<rparr>"
  using assms by (auto simp: main_step_def split: event.splits main_phase.splits if_splits)

lemma main_step_inv:
  assumes inv: "task_inv v t" and st: "main_step ev v t = Some t'"
  shows "task_inv v t'"
  using st
proof (cases rule: main_step_cases)
  case (spawn i)
  then have old: "vt_phases t ! i = NotStarted" using inv by (simp add: task_inv_def)
  note upd = tally_update [OF spawn(2), of _ Waiting]
  have "tally (\<lambda>i. testing) ((vt_phases t)[i := Waiting]) = tally (\<lambda>i. testing) (vt_phases t)"
    "tally (\<lambda>i. recorded) ((vt_phases t)[i := Waiting]) = tally (\<lambda>i. recorded) (vt_phases t)"
    "tally (\<lambda>i. counted_done) ((vt_phases t)[i := Waiting]) = tally (\<lambda>i. counted_done) (vt_phases t)"
    "tally (\<lambda>i. judged_valid) ((vt_phases t)[i := Waiting]) = tally (\<lambda>i. judged_valid) (vt_phases t)"
    "tally (\<lambda>i. active) ((vt_phases t)[i := Waiting]) = tally (\<lambda>i. active) (vt_phases t) + 1"
    using upd [of "\<lambda>i. testing"] upd [of "\<lambda>i. recorded"] upd [of "\<lambda>i. counted_done"]
      upd [of "\<lambda>i. judged_valid"] upd [of "\<lambda>i. active"] old by simp_all
  with inv spawn show ?thesis by (auto simp: task_inv_def enter_def nth_list_update)
next
  case (await i)
  with inv show ?thesis by (auto simp: task_inv_def)
next
  case return
  with inv show ?thesis by (auto simp: task_inv_def)
qed

lemma tally_replicate: "tally f (replicate n p) = (\<Sum>i < n. f i p)"
  by (simp add: tally_def)

lemma task_inv_begin: "task_inv v (begin_task v new_task)"
  by (simp add: task_inv_def begin_task_def new_task_def tally_replicate)

interpretation vt: invariant_system "\<lambda>t. t = begin_task v new_task" "validate_step v" "task_inv v" for v
  by unfold_locales (auto simp: task_inv_begin elim!: validate_step.cases
    intro: main_step_inv task_step_inv)

section \<open>A run\<close>

text \<open>A schedule as a list of events, run one by one.\<close>

fun run_events :: "event list \<Rightarrow> validation \<Rightarrow> validate_task \<Rightarrow> validate_task option" where
  "run_events [] v t = Some t"
| "run_events (ev # evs) v t =
     (case main_step ev v t of
        Some t' \<Rightarrow> run_events evs v t'
      | None \<Rightarrow> (case task_step ev v t of Some t' \<Rightarrow> run_events evs v t' | None \<Rightarrow> None))"

lemma run_events_validating: "validating v t \<Longrightarrow> run_events evs v t = Some t' \<Longrightarrow> validating v t'"
proof (induction evs arbitrary: t)
  case (Cons ev evs)
  show ?case
  proof (cases "main_step ev v t")
    case (Some t1)
    with Cons.prems Cons.IH [of t1] show ?thesis by (auto intro: reach_step step_main)
  next
    case None
    with Cons.prems obtain t1 where "task_step ev v t = Some t1" "run_events evs v t1 = Some t'"
      by (auto split: option.splits)
    with Cons.prems(1) Cons.IH [of t1] show ?thesis by (auto intro: reach_step step_task)
  qed
qed simp

definition two_proxies :: validation where
  "two_proxies =
     \<lparr>va_entries = [found ''a'' ''10.0.0.1:80'', found ''b'' ''10.0.0.2:80''], va_concurrency = 1,
      va_verdict = (\<lambda>i. if i = 0 then (None, 40) else (Some (TcpPrecheck (TcpDial ''10.0.0.2:80'')), 9)),
      va_tracked = True\<rparr>"

definition half_way :: validate_task where
  "half_way = the (run_events [Spawn, Acquire 0, Spawn, Judge 0, Await, Record 0] two_proxies
     (begin_task two_proxies new_task))"

definition all_done :: validate_task where
  "all_done = the (run_events
     [Spawn, Spawn, Acquire 1, Judge 1, Record 1, Await, Count 1, Release 1, Acquire 0, Exit 1, Judge 0,
      Record 0, Count 0, Release 0, Exit 0, Return] two_proxies (begin_task two_proxies new_task))"

lemma example_runs: "validating two_proxies half_way" "validating two_proxies all_done"
proof -
  have start: "validating two_proxies (begin_task two_proxies new_task)" by (rule reach_start) simp
  show "validating two_proxies half_way"
    by (rule run_events_validating [OF start, of "[Spawn, Acquire 0, Spawn, Judge 0, Await, Record 0]"]) code_simp
  show "validating two_proxies all_done"
    by (rule run_events_validating [OF start, of "[Spawn, Spawn, Acquire 1, Judge 1, Record 1, Await,
      Count 1, Release 1, Acquire 0, Exit 1, Judge 0, Record 0, Count 0, Release 0, Exit 0, Return]"]) code_simp
qed

section \<open>Bounds\<close>

lemma tally_list: "tally (\<lambda>i. f) ps = sum_list (map f ps)"
  by (simp add: tally_def sum_list_sum_nth atLeast0LessThan)

lemma tally_mono:
  fixes f :: "nat \<Rightarrow> phase \<Rightarrow> nat"
  shows "(\<And>i. i < length ps \<Longrightarrow> f i (ps ! i) \<le> g i (ps ! i)) \<Longrightarrow> tally f ps \<le> tally g ps"
  unfolding tally_def by (intro sum_mono) simp

lemma tally_hom:
  fixes h :: "'a :: comm_monoid_add \<Rightarrow> 'b :: comm_monoid_add"
  assumes "h 0 = 0" and "\<And>x y. h (x + y) = h x + h y"
  shows "h (tally f ps) = tally (\<lambda>i p. h (f i p)) ps"
proof -
  have "h (\<Sum>i \<in> A. g i) = (\<Sum>i \<in> A. h (g i))" if "finite A" for A :: "nat set" and g
    using that by (induction rule: finite_induct) (simp_all add: assms)
  then show ?thesis by (simp add: tally_def)
qed

lemma in_tally:
  assumes "r \<in># tally f ps"
  shows "\<exists>i < length ps. r \<in># f i (ps ! i)"
proof (rule ccontr)
  assume "\<not> ?thesis"
  then have "tally (\<lambda>i p. count (f i p) r) ps = 0" by (intro tally_zero) (simp add: not_in_iff)
  then have "count (tally f ps) r = 0" using tally_hom [of "\<lambda>m. count m r" f ps] by simp
  with assms show False by (metis not_in_iff)
qed

lemma results_tally:
  assumes "task_inv v t"
  shows "length (vt_Results t) = tally (\<lambda>i p. size (recorded p)) (vt_phases t)"
    and "length (Snapshot t) = tally (\<lambda>i p. size (filter_mset vr_Valid (recorded p))) (vt_phases t)"
proof -
  have res: "mset (vt_Results t) = tally (\<lambda>i. recorded) (vt_phases t)" using assms by (simp add: task_inv_def)
  show "length (vt_Results t) = tally (\<lambda>i p. size (recorded p)) (vt_phases t)"
    using arg_cong [OF res, of size] tally_hom [of size "\<lambda>i. recorded" "vt_phases t"] by simp
  show "length (Snapshot t) = tally (\<lambda>i p. size (filter_mset vr_Valid (recorded p))) (vt_phases t)"
    using arg_cong [OF res, of "\<lambda>m. size (filter_mset vr_Valid m)"]
      tally_hom [of "\<lambda>m. size (filter_mset vr_Valid m)" "\<lambda>i. recorded" "vt_phases t"]
    by (simp add: Snapshot_def flip: mset_filter)
qed

text \<open>
  C25. However the goroutines are scheduled, no more proxies are tested at a time than
  the configured concurrency, or 20 if that is not positive, and every token in the channel
  belongs to a goroutine that will give it back.
\<close>

theorem validation_concurrency:
  assumes "validating v t"
  shows "sum_list (map testing (vt_phases t)) \<le> slots (va_concurrency v) \<and>
    vt_sem t = sum_list (map testing (vt_phases t))"
  using vt.reach_inv [OF assms] by (simp_all add: task_inv_def tally_list)

lemma validation_concurrency_witness:
  "sum_list (map testing (vt_phases half_way)) \<le> 1 \<and> vt_sem half_way = 1"
proof -
  have "slots (va_concurrency two_proxies) = 1" "vt_sem half_way = 1" by code_simp+
  with validation_concurrency [OF example_runs(1)] show ?thesis by simp
qed

lemma counted_le: "counted_done p \<le> size (recorded p)" "size (recorded p) \<le> 1" "judged_valid p \<le> 1"
  "size (filter_mset vr_Valid (recorded p)) \<le> judged_valid p"
  by (cases p; simp)+

text \<open>
  C26. What a poll of the task sees is consistent at every moment: no more is done than is
  recorded, no more is recorded than there are proxies, no more valid results are shown than are
  counted valid, and every result shown is the verdict on one of the proxies.
\<close>

theorem validation_progress:
  assumes "validating v t" and "va_tracked v"
  shows "vt_Done t \<le> length (vt_Results t) \<and> length (vt_Results t) \<le> vt_Total t \<and>
    length (Snapshot t) \<le> vt_Valid t \<and> vt_Valid t \<le> vt_Total t \<and>
    (\<forall>r \<in> set (Snapshot t). vr_Valid r \<and> r \<in> result_of v ` {..<length (va_entries v)})"
proof -
  note inv = task_invD [OF vt.reach_inv [OF assms(1)]]
  let ?ps = "vt_phases t"
  note len = results_tally [OF vt.reach_inv [OF assms(1)]]
  have tot: "tally (\<lambda>i p. 1) ?ps = vt_Total t" using inv(1,8) assms(2) by (simp add: tally_def)
  have "vt_Done t \<le> length (vt_Results t)"
    unfolding inv(9) [OF assms(2)] len(1) by (rule tally_mono) (rule counted_le)
  moreover have "length (vt_Results t) \<le> vt_Total t"
    unfolding len(1) tot [symmetric] by (rule tally_mono) (rule counted_le)
  moreover have "length (Snapshot t) \<le> vt_Valid t"
    unfolding len(2) inv(10) [OF assms(2)] by (rule tally_mono) (rule counted_le)
  moreover have "vt_Valid t \<le> vt_Total t"
    unfolding inv(10) [OF assms(2)] tot [symmetric] by (rule tally_mono) (rule counted_le)
  moreover have "r \<in> result_of v ` {..<length (va_entries v)}" if "r \<in> set (vt_Results t)" for r
  proof -
    have "r \<in># tally (\<lambda>i. recorded) ?ps" using that unfolding inv(7) [symmetric] by simp
    then obtain i where i: "i < length ?ps" "r \<in># recorded (?ps ! i)"
      using in_tally [of r "\<lambda>i. recorded" ?ps] by auto
    then have "verdict (?ps ! i) = Some r" by (cases "?ps ! i") auto
    then have "r = result_of v i" using inv(3) [of i r] i(1) unfolding inv(1) by simp
    then show ?thesis using i(1) unfolding inv(1) by simp
  qed
  ultimately show ?thesis by (auto simp: Snapshot_def)
qed

lemma validation_progress_witness:
  "vt_Done half_way \<le> 1 \<and> length (Snapshot half_way) \<le> vt_Valid half_way \<and> vt_Total half_way = 2"
proof -
  have "length (vt_Results half_way) = 1" "vt_Total half_way = 2" "va_tracked two_proxies" by code_simp+
  with validation_progress [OF example_runs(1)] show ?thesis by simp
qed

section \<open>The end of a validation\<close>

lemma returned_phases:
  assumes inv: "task_inv v t" and ret: "vt_wg t = 0" and main: "\<forall>k. vt_main t \<noteq> Spawning k"
    and i: "i < length (va_entries v)"
  shows "vt_phases t ! i = Exited (result_of v i)"
proof -
  note facts = task_invD [OF inv]
  have "active (vt_phases t ! i) = 0"
    using facts(6) ret tally_ge [of i "vt_phases t" "\<lambda>i. active"] i facts(1) by simp
  moreover have "vt_phases t ! i \<noteq> NotStarted"
    using facts(2) [OF i] main i by (cases "vt_main t") auto
  ultimately obtain r where "vt_phases t ! i = Exited r" by (cases "vt_phases t ! i") auto
  with facts(3) [OF i] show ?thesis by auto
qed

lemma mset_sum_upt: "(\<Sum>i < n. {#f i#}) = mset (map f [0..<n])"
  by (induction n) simp_all

lemma validation_results:
  assumes "validating v t" and "vt_main t = Returned"
  shows "mset (vt_Results t) = mset (map (result_of v) [0..<length (va_entries v)]) \<and> vt_sem t = 0 \<and>
    (va_tracked v \<longrightarrow> \<not> vt_Running t \<and> vt_Done t = vt_Total t \<and>
       vt_Total t = length (va_entries v) \<and> vt_Valid t = length (Snapshot t))"
proof -
  note inv = vt.reach_inv [OF assms(1)]
  note facts = task_invD [OF inv]
  let ?n = "length (va_entries v)"
  have ph: "vt_phases t ! i = Exited (result_of v i)" if "i < ?n" for i
    using returned_phases [OF inv _ _ that] facts(12) assms(2) by simp
  have tl: "tally (\<lambda>i. f) (vt_phases t) = (\<Sum>i < ?n. f (Exited (result_of v i)))"
    for f :: "phase \<Rightarrow> 'b :: comm_monoid_add"
    unfolding tally_def facts(1) using ph by (intro sum.cong) auto
  have m: "mset (vt_Results t) = mset (map (result_of v) [0..<?n])"
    unfolding facts(7) tl [of recorded] mset_sum_upt [symmetric] by simp
  have snap: "length (Snapshot t) = (\<Sum>i < ?n. if vr_Valid (result_of v i) then 1 else 0)"
    unfolding results_tally(2) [OF inv] tl [of "\<lambda>p. size (filter_mset vr_Valid (recorded p))"]
    by (intro sum.cong) simp_all
  have "vt_sem t = 0" unfolding facts(4) tl [of testing] by simp
  moreover have "vt_Done t = vt_Total t" "vt_Valid t = length (Snapshot t)" if tr: "va_tracked v"
    unfolding facts(8,9,10) [OF tr] snap tl [of counted_done] tl [of judged_valid] by simp_all
  ultimately show ?thesis using m facts(8,11) assms(2) by simp
qed

text \<open>
  When a validation returns, its results are the verdicts on the proxies, each exactly
  once, in some order; the task says it is not running, counts every proxy as done and the
  valid ones as valid; no token is out.
\<close>

theorem validation_result:
  assumes "validating v t" and "vt_main t = Returned"
  shows "mset (vt_Results t) = mset (map (result_of v) [0..<length (va_entries v)]) \<and> vt_sem t = 0 \<and>
    (va_tracked v \<longrightarrow> \<not> vt_Running t \<and> vt_Done t = vt_Total t \<and>
       vt_Total t = length (va_entries v) \<and> vt_Valid t = length (Snapshot t))"
  using assms by (rule validation_results)

lemma validation_result_witness:
  "mset (vt_Results all_done) = mset (map (result_of two_proxies) [0..<2]) \<and> vt_Done all_done = 2 \<and>
     vt_Valid all_done = length (Snapshot all_done)"
proof -
  have "vt_main all_done = Returned" "va_tracked two_proxies" "length (va_entries two_proxies) = 2"
    by code_simp+
  with validation_result [OF example_runs(2)] show ?thesis by simp
qed

section \<open>Every validation ends\<close>

text \<open>How far a validation has come: one more with every step.\<close>

fun phase_no :: "phase \<Rightarrow> nat" where
  "phase_no NotStarted = 0" | "phase_no Waiting = 1" | "phase_no Testing = 2"
| "phase_no (Judged r) = 3" | "phase_no (Recorded r) = 4" | "phase_no (Counted r) = 5"
| "phase_no (Released r) = 6" | "phase_no (Exited r) = 7"

fun main_no :: "main_phase \<Rightarrow> nat" where
  "main_no (Spawning k) = 0" | "main_no Awaiting = 1" | "main_no Returned = 2"

definition progress :: "validate_task \<Rightarrow> nat" where
  "progress t = tally (\<lambda>i. phase_no) (vt_phases t) + main_no (vt_main t)"

lemma progress_bound: "progress t \<le> 7 * length (vt_phases t) + 2"
proof -
  have "tally (\<lambda>i. phase_no) (vt_phases t) \<le> tally (\<lambda>i p. 7) (vt_phases t)"
  proof (rule tally_mono)
    show "phase_no (vt_phases t ! i) \<le> 7" for i by (cases "vt_phases t ! i") simp_all
  qed
  moreover have "main_no (vt_main t) \<le> 2" by (cases "vt_main t") simp_all
  ultimately show ?thesis by (simp add: progress_def tally_def)
qed

lemma progress_enter:
  assumes "i < length (vt_phases t)" and "phase_no p = Suc (phase_no (vt_phases t ! i))"
    and "vt_phases t' = (vt_phases t)[i := p]" and "main_no (vt_main t') = main_no (vt_main t)"
  shows "progress t' = Suc (progress t)"
  using tally_update [OF assms(1), of "\<lambda>i. phase_no" p] assms by (simp add: progress_def)

lemma progress_step:
  assumes inv: "task_inv v t" and st: "validate_step v t t'"
  shows "progress t' = Suc (progress t)"
  using st
proof cases
  case (step_main ev)
  then show ?thesis
  proof (cases rule: main_step_cases)
    case (spawn i)
    then have "vt_phases t ! i = NotStarted" using inv by (simp add: task_inv_def)
    with spawn show ?thesis
      by (intro progress_enter [of i t Waiting]) (simp_all add: enter_def)
  qed (simp_all add: progress_def)
next
  case (step_task ev)
  then show ?thesis
    by (cases ev) (auto simp: task_step_def phase_at_Some enter_def Let_def
      split: if_splits option.splits phase.splits intro!: progress_enter)
qed

lemma slots_pos: "0 < slots c"
  by (simp add: slots_def)

text \<open>No deadlock: a goroutine that waits for a token waits for one that can go on.\<close>

lemma validate_live:
  assumes inv: "task_inv v t" and nr: "vt_main t \<noteq> Returned"
  shows "\<exists>t'. validate_step v t t'"
proof (rule ccontr)
  assume stuck: "\<nexists>t'. validate_step v t t'"
  note facts = task_invD [OF inv]
  have no_task: "task_step ev v t = None" and no_main: "main_step ev v t = None" for ev
    using stuck by (metis not_None_eq validate_step.intros)+
  have quiet: "vt_phases t ! i = NotStarted \<or> vt_phases t ! i = Waiting \<or> (\<exists>r. vt_phases t ! i = Exited r)"
    if i: "i < length (vt_phases t)" for i
    using no_task [of "Judge i"] no_task [of "Record i"] no_task [of "Count i"]
      no_task [of "Release i"] no_task [of "Exit i"] i
    by (cases "vt_phases t ! i") (simp_all add: task_step_def phase_at_def Let_def)
  have "tally (\<lambda>i. testing) (vt_phases t) = 0"
    by (rule tally_zero) (use quiet in fastforce)
  then have sem: "vt_sem t < slots (va_concurrency v)" using facts(4) slots_pos by simp
  have wait: "vt_phases t ! i \<noteq> Waiting" if "i < length (vt_phases t)" for i
    using no_task [of "Acquire i"] sem that by (auto simp: task_step_def phase_at_def)
  have act: "tally (\<lambda>i. active) (vt_phases t) = 0"
    by (rule tally_zero) (use quiet wait in fastforce)
  show False
  proof (cases "vt_main t")
    case (Spawning k)
    with no_main [of Spawn] no_main [of Await] show False by (simp add: main_step_def split: if_splits)
  next
    case Awaiting
    with no_main [of Return] act facts(6) show False by (simp add: main_step_def)
  qed (use nr in simp)
qed

lemma validate_ends:
  "task_inv v t \<Longrightarrow> \<exists>t'. (validate_step v)\<^sup>*\<^sup>* t t' \<and> vt_main t' = Returned"
proof (induction "7 * length (vt_phases t) + 2 - progress t" arbitrary: t rule: less_induct)
  case less
  show ?case
  proof (cases "vt_main t = Returned")
    case False
    from validate_live [OF less.prems False] obtain t1 where t1: "validate_step v t t1" by blast
    have inv1: "task_inv v t1" using t1 less.prems by (rule vt.inv_step [rotated])
    have "length (vt_phases t1) = length (vt_phases t)"
      using task_invD(1) [OF inv1] task_invD(1) [OF less.prems] by simp
    then have "7 * length (vt_phases t1) + 2 - progress t1 < 7 * length (vt_phases t) + 2 - progress t"
      using progress_step [OF less.prems t1] progress_bound [of t1] by simp
    from less.hyps [OF this inv1] t1 show ?thesis by (meson converse_rtranclp_into_rtranclp)
  qed blast
qed

text \<open>
  C24. A validation always ends: from every state of it the call can still return, it is
  stuck in none before that, and no schedule has more than seven steps for each proxy and two
  for the caller.
\<close>

theorem validation_terminates:
  assumes "validating v t"
  shows "(\<exists>t'. (validate_step v)\<^sup>*\<^sup>* t t' \<and> vt_main t' = Returned) \<and>
    (vt_main t \<noteq> Returned \<longrightarrow> (\<exists>t'. validate_step v t t')) \<and>
    (\<forall>k t'. (validate_step v ^^ k) t t' \<longrightarrow> k \<le> 7 * length (va_entries v) + 2)"
proof -
  note inv = vt.reach_inv [OF assms]
  have "progress t' = progress t + k \<and> task_inv v t'" if "(validate_step v ^^ k) t t'" for k t'
    using that
  proof (induction k arbitrary: t')
    case (Suc k)
    then obtain t1 where t1: "(validate_step v ^^ k) t t1" "validate_step v t1 t'" by auto
    with Suc.IH [OF t1(1)] have i1: "task_inv v t1" "progress t1 = progress t + k" by simp_all
    with progress_step [OF i1(1) t1(2)] vt.inv_step [OF i1(1) t1(2)] show ?case by simp
  qed (simp add: inv)
  then have "k \<le> 7 * length (va_entries v) + 2" if "(validate_step v ^^ k) t t'" for k t'
    using that progress_bound [of t'] task_invD(1) [of v t'] by (metis add_leE le_trans)
  with validate_ends [OF inv] validate_live [OF inv] show ?thesis by blast
qed

lemma validation_terminates_witness:
  "\<exists>t'. (validate_step two_proxies)\<^sup>*\<^sup>* half_way t' \<and> vt_main t' = Returned"
  using validation_terminates [OF example_runs(1)] by blast

section \<open>The two entry points\<close>

text \<open>
  The arguments of a call, with the defaults: each goroutine \<open>i\<close> tests its proxy against a
  network \<open>nets i\<close> and takes \<open>latency i\<close> milliseconds.
\<close>

definition validation_of ::
  "(string \<Rightarrow> string option) \<Rightarrow> (string \<Rightarrow> string option) \<Rightarrow> http_client \<Rightarrow> (nat \<Rightarrow> net) \<Rightarrow> (nat \<Rightarrow> nat) \<Rightarrow>
   bool \<Rightarrow> free_entry list \<Rightarrow> string list \<Rightarrow> int \<Rightarrow> int \<Rightarrow> validation" where
  "validation_of badURL badRequest doReq nets latency tracked entries testURLs timeout concurrency =
     \<lparr>va_entries = entries, va_concurrency = concurrency,
      va_verdict = (\<lambda>i. (fst (testProxyMulti badURL badRequest doReq (entries ! i) (validation_urls testURLs)
        (validation_timeout timeout) (nets i)), latency i)),
      va_tracked = tracked\<rparr>"

text \<open>
  \<open>ValidateBatch\<close> is the machine without a task. It returns \<open>rs\<close> if some schedule of its
  goroutines does: the order of the results is the order in which they get the lock of the list.
\<close>

inductive ValidateBatch :: "validation \<Rightarrow> validate_result list \<Rightarrow> bool" for v where
  batch_returns: "validating (v\<lparr>va_tracked := False\<rparr>) t \<Longrightarrow> vt_main t = Returned \<Longrightarrow>
    ValidateBatch v (vt_Results t)"

lemma untracked_simps [simp]:
  "result_of (v\<lparr>va_tracked := b\<rparr>) = result_of v" "va_entries (v\<lparr>va_tracked := b\<rparr>) = va_entries v"
  by (simp_all add: result_of_def fun_eq_iff)

lemma mset_map_perm:
  "mset ys = mset (map f xs) \<Longrightarrow> \<exists>zs. mset zs = mset xs \<and> ys = map f zs"
proof (induction ys arbitrary: xs)
  case (Cons y ys)
  then have "y \<in> set (map f xs)" by (metis list.set_intros(1) mset_eq_setD)
  then obtain x where x: "x \<in> set xs" "y = f x" by auto
  have perm: "mset xs = add_mset x (mset (remove1 x xs))" using x(1) by simp
  have "add_mset y (mset ys) = add_mset (f x) (image_mset f (mset (remove1 x xs)))"
    using Cons.prems unfolding mset_map perm by simp
  then have "mset ys = mset (map f (remove1 x xs))" using x(2) by simp
  then obtain zs where "mset zs = mset (remove1 x xs)" "ys = map f zs" using Cons.IH by blast
  with x show ?case by (intro exI [of _ "x # zs"]) (simp add: insert_DiffM)
qed simp

section \<open>Every order is the order of a schedule\<close>

definition waiting_from :: "validation \<Rightarrow> nat \<Rightarrow> validate_task \<Rightarrow> bool" where
  "waiting_from v k t \<longleftrightarrow> validating v t \<and> vt_main t = Spawning k \<and> vt_sem t = 0 \<and> vt_Results t = [] \<and>
     length (vt_phases t) = length (va_entries v) \<and> (\<forall>i < k. vt_phases t ! i = Waiting)"

lemma spawn_all: "k \<le> length (va_entries v) \<Longrightarrow> \<exists>t. waiting_from v k t"
proof (induction k)
  case 0
  have "validating v (begin_task v new_task)" by (rule reach_start) simp
  then show ?case
    by (intro exI [of _ "begin_task v new_task"]) (simp add: waiting_from_def begin_task_def new_task_def)
next
  case (Suc k)
  then obtain t where t: "waiting_from v k t" by auto
  let ?t = "(enter k Waiting t)\<lparr>vt_wg := vt_wg t + 1, vt_main := Spawning (k + 1)\<rparr>"
  have "main_step Spawn v t = Some ?t" using t Suc.prems by (simp add: main_step_def waiting_from_def)
  then have "validating v ?t" using t by (auto simp: waiting_from_def intro: reach_step step_main)
  then have "waiting_from v (Suc k) ?t"
    using t Suc.prems by (auto simp: waiting_from_def enter_def less_Suc_eq)
  then show ?case by blast
qed

definition done_in :: "validation \<Rightarrow> nat list \<Rightarrow> validate_task \<Rightarrow> bool" where
  "done_in v order t \<longleftrightarrow> validating v t \<and> vt_main t = Awaiting \<and> vt_sem t = 0 \<and>
     vt_Results t = map (result_of v) order \<and> length (vt_phases t) = length (va_entries v) \<and>
     (\<forall>i < length (va_entries v). vt_phases t ! i =
        (if i \<in> set order then Exited (result_of v i) else Waiting))"

text \<open>One goroutine from its token to its end, with nobody else moving.\<close>

lemma run_one:
  assumes "done_in v order t" and "i < length (va_entries v)" and "i \<notin> set order"
  shows "\<exists>t'. done_in v (order @ [i]) t'"
proof -
  let ?evs = "[Acquire i, Judge i, Record i, Count i, Release i, Exit i]"
  have ph: "phase_at t i = Some Waiting" "i < length (vt_phases t)"
    using assms by (auto simp: done_in_def phase_at_def)
  have "0 < slots (va_concurrency v)" by (simp add: slots_pos)
  then obtain t' where t': "run_events ?evs v t = Some t'" "vt_main t' = vt_main t" "vt_sem t' = vt_sem t"
      "vt_Results t' = vt_Results t @ [result_of v i]" "vt_phases t' = (vt_phases t)[i := Exited (result_of v i)]"
    using ph assms(1)
    by (auto simp: main_step_def task_step_def Let_def enter_def phase_at_def done_in_def)
  have "validating v t'"
    using run_events_validating [OF _ t'(1)] assms(1) by (simp add: done_in_def)
  then have "done_in v (order @ [i]) t'"
    using t'(2-) assms ph(2) by (auto simp: done_in_def nth_list_update)
  then show ?thesis by blast
qed

lemma run_all:
  "distinct order \<Longrightarrow> set order \<subseteq> {..<length (va_entries v)} \<Longrightarrow> \<exists>t. done_in v order t"
proof (induction order rule: rev_induct)
  case Nil
  let ?n = "length (va_entries v)"
  obtain t where t: "waiting_from v ?n t" using spawn_all by blast
  let ?t = "t\<lparr>vt_main := Awaiting\<rparr>"
  have "main_step Await v t = Some ?t" using t by (simp add: main_step_def waiting_from_def)
  then have "validating v ?t" using t by (auto simp: waiting_from_def intro: reach_step step_main)
  then have "done_in v [] ?t" using t by (auto simp: waiting_from_def done_in_def)
  then show ?case by blast
next
  case (snoc i order)
  then obtain t where "done_in v order t" by auto
  from run_one [OF this, of i] snoc.prems show ?case by auto
qed

lemma batch_order:
  assumes "mset order = mset [0..<length (va_entries v)]"
  shows "ValidateBatch v (map (result_of v) order)"
proof -
  let ?u = "v\<lparr>va_tracked := False\<rparr>" and ?n = "length (va_entries v)"
  have set: "set order = {0..<?n}" using mset_eq_setD [OF assms] by simp
  have "distinct order" using mset_eq_imp_distinct_iff [OF assms] by simp
  moreover have "set order \<subseteq> {..<length (va_entries ?u)}" using set by auto
  ultimately obtain t where t: "done_in ?u order t" using run_all [of order ?u] by blast
  then have "vt_wg t = tally (\<lambda>i. active) (vt_phases t)"
    using task_invD(6) vt.reach_inv by (auto simp: done_in_def)
  also have "\<dots> = 0" using t set by (intro tally_zero) (auto simp: done_in_def)
  finally have "main_step Return ?u t = Some (t\<lparr>vt_main := Returned, vt_Running := vt_Running t\<rparr>)"
    using t by (simp add: main_step_def done_in_def)
  then have "validating ?u (t\<lparr>vt_main := Returned, vt_Running := vt_Running t\<rparr>)"
    using t by (auto simp: done_in_def intro: reach_step step_main)
  from batch_returns [OF this] show ?thesis using t by (simp add: done_in_def)
qed

lemma batch_results:
  assumes "ValidateBatch v rs"
  obtains order where "mset order = mset [0..<length (va_entries v)]" "rs = map (result_of v) order"
  using assms
proof cases
  case (batch_returns t)
  from mset_map_perm [OF conjunct1 [OF validation_results [OF batch_returns(2,3)]]] batch_returns(1) that
  show ?thesis by auto
qed

text \<open>
  C27. The goroutines, channel and lock of a batch refine a plain map over the proxies in some
  order, and hide nothing of it: what \<open>ValidateBatch\<close> can return are the verdicts of the
  proxies in the order of a permutation of their indices, and every permutation can come about,
  whatever the bound on how many are tested at a time.
\<close>

theorem ValidateBatch_refines:
  "ValidateBatch v rs \<longleftrightarrow>
    (\<exists>order. mset order = mset [0..<length (va_entries v)] \<and> rs = map (result_of v) order)"
  using batch_results [of v rs] batch_order [of _ v] by blast

end
