(* ===== verification/GoPath.thy ===== *)
theory GoPath
  imports GoText
begin

text \<open>
  The paths of Go's standard library the program uses, where the separator is a slash:
  \<open>filepath.Clean\<close>, \<open>filepath.Join\<close>, \<open>filepath.Dir\<close> and \<open>path.Ext\<close>.
\<close>

section \<open>Elements\<close>

fun split_path :: "string \<Rightarrow> string list" where
  "split_path [] = [[]]"
| "split_path (c # cs) =
     (if c = CHR ''/'' then [] # split_path cs
      else (case split_path cs of [] \<Rightarrow> [[c]] | x # xs \<Rightarrow> (c # x) # xs))"

fun join_path :: "string list \<Rightarrow> string" where
  "join_path [] = []"
| "join_path [x] = x"
| "join_path (x # y # xs) = x @ ''/'' @ join_path (y # xs)"

text \<open>
  \<open>Clean\<close> walks over the elements and keeps the result as a stack, its top first: empty elements and
  dots are dropped, two dots take back the element before, and at a root they are dropped.
\<close>

definition clean_step :: "bool \<Rightarrow> string list \<Rightarrow> string \<Rightarrow> string list" where
  "clean_step rooted st x =
     (if x = [] \<or> x = ''.'' then st
      else if x = ''..'' then
        (case st of
           [] \<Rightarrow> if rooted then [] else [x]
         | y # ys \<Rightarrow> if y = ''..'' then x # st else ys)
      else x # st)"

definition filepath_Clean :: "string \<Rightarrow> string" where
  "filepath_Clean path =
     (let rooted = has_prefix ''/'' path;
          out = join_path (rev (foldl (clean_step rooted) [] (split_path path)))
      in if rooted then ''/'' @ out else if out = [] then ''.'' else out)"

definition filepath_Join :: "string list \<Rightarrow> string" where
  "filepath_Join elems =
     (case dropWhile (\<lambda>e. e = []) elems of [] \<Rightarrow> [] | es \<Rightarrow> filepath_Clean (join_path es))"

definition filepath_Dir :: "string \<Rightarrow> string" where
  "filepath_Dir path =
     filepath_Clean (case cut_last CHR ''/'' path of None \<Rightarrow> [] | Some (dir, base) \<Rightarrow> dir @ ''/'')"

text \<open>\<open>path.Ext\<close>: from the last dot of the last element on.\<close>

definition path_Ext :: "string \<Rightarrow> string" where
  "path_Ext path =
     (case cut_last CHR ''.'' (last (split_path path)) of None \<Rightarrow> [] | Some (stem, ext) \<Rightarrow> ''.'' @ ext)"

section \<open>Facts\<close>

lemma filepath_Clean_nonempty [simp]: "filepath_Clean path \<noteq> []"
  by (simp add: filepath_Clean_def Let_def)

lemma filepath_Join_nonempty: "x \<in> set elems \<Longrightarrow> x \<noteq> [] \<Longrightarrow> filepath_Join elems \<noteq> []"
  by (auto simp: filepath_Join_def split: list.splits)

lemma split_path_nonempty [simp]: "split_path s \<noteq> []"
  by (cases s) (auto split: list.splits)

lemma split_path_no_slash: "CHR ''/'' \<notin> set s \<Longrightarrow> split_path s = [s]"
  by (induction s) auto

lemma split_path_append: "CHR ''/'' \<notin> set s \<Longrightarrow> split_path (s @ CHR ''/'' # t) = s # split_path t"
  by (induction s) auto

lemma split_join_path:
  "xs \<noteq> [] \<Longrightarrow> \<forall>x \<in> set xs. CHR ''/'' \<notin> set x \<Longrightarrow> split_path (join_path xs) = xs"
  by (induction xs rule: join_path.induct) (simp_all add: split_path_no_slash split_path_append)

lemma split_path_elements: "x \<in> set (split_path s) \<Longrightarrow> CHR ''/'' \<notin> set x"
proof (induction s arbitrary: x)
  case (Cons c cs)
  then show ?case by (cases "split_path cs") (auto split: if_splits)
qed simp

definition plain_element :: "string \<Rightarrow> bool" where
  "plain_element x \<longleftrightarrow> x \<noteq> [] \<and> x \<noteq> ''.'' \<and> x \<noteq> ''..'' \<and> CHR ''/'' \<notin> set x"

lemma clean_plain:
  "\<forall>x \<in> set xs. plain_element x \<Longrightarrow> foldl (clean_step rooted) st xs = rev xs @ st"
  by (induction xs arbitrary: st) (simp_all add: clean_step_def plain_element_def)

text \<open>A path of plain elements is clean.\<close>

lemma filepath_Clean_plain:
  assumes "xs \<noteq> []" and "\<forall>x \<in> set xs. plain_element x"
  shows "filepath_Clean (join_path xs) = join_path xs"
    and "filepath_Clean (''/'' @ join_path xs) = ''/'' @ join_path xs"
proof -
  have sp: "split_path (join_path xs) = xs"
    using assms by (intro split_join_path) (simp_all add: plain_element_def)
  obtain x ys where x: "xs = x # ys" "x \<noteq> []" "CHR ''/'' \<notin> set x"
    using assms by (cases xs) (auto simp: plain_element_def)
  then have ne: "join_path xs \<noteq> []" "\<not> has_prefix ''/'' (join_path xs)"
    by (cases ys; cases x; auto simp: has_prefix_def)+
  show "filepath_Clean (join_path xs) = join_path xs"
    using ne clean_plain [OF assms(2), of False "[]"] by (simp add: filepath_Clean_def sp)
  have "split_path (''/'' @ join_path xs) = [] # xs" using sp by simp
  then have "foldl (clean_step True) [] (split_path (''/'' @ join_path xs)) = rev xs"
    using clean_plain [OF assms(2), of True "[]"] by (simp add: clean_step_def)
  moreover have "has_prefix ''/'' (''/'' @ join_path xs)" by (rule has_prefix_append)
  ultimately show "filepath_Clean (''/'' @ join_path xs) = ''/'' @ join_path xs"
    by (simp only: filepath_Clean_def Let_def if_True rev_rev_ident)
qed

end
