(* ===== verification/Logger.thy ===== *)
theory Logger
  imports GoPath
begin

text \<open>
  The logger (\<open>internal/freeproxy/logger.go\<close>): a ring buffer with a write position that
  only grows, the query that walks it backwards, and the one-time initialisation over the
  file system. The abstract state is the history of all entries logged so far. The position
  is Go's 64-bit \<open>int\<close>, which no process lives long enough to overflow; it is a natural
  number here.
\<close>

section \<open>State\<close>

record log_entry =
  le_Time :: string
  le_Level :: string
  le_Module :: string
  le_Message :: string

record logger =
  lg_buf :: "log_entry list"
  lg_cap :: nat
  lg_pos :: nat
  lg_total :: nat
  lg_file :: "(string \<times> string) option"
  lg_closed :: bool

definition no_entry :: log_entry where
  "no_entry = \<lparr>le_Time = [], le_Level = [], le_Module = [], le_Message = []\<rparr>"

section \<open>Operations\<close>

text \<open>
  \<open>InitLogger\<close>: the first call decides; \<open>openLog\<close> says whether directory and file could be
  made. A file is its path and what has been written to it; \<open>lg_closed\<close> is the state of its
  handle, whose writes fail once it is closed. The state is the global
  \<open>defaultLogger\<close> and whether \<open>logOnce\<close> has fired.
\<close>

definition new_logger :: "(string \<Rightarrow> bool) \<Rightarrow> string \<Rightarrow> int \<Rightarrow> logger" where
  "new_logger openLog logDir cap =
     (let c = (if cap \<le> 0 then 500 else nat cap) in
      \<lparr>lg_buf = replicate c no_entry, lg_cap = c, lg_pos = 0, lg_total = 0,
       lg_file = (if logDir \<noteq> [] \<and> openLog logDir then Some (filepath_Join [logDir, ''proxypool.log''], []) else None),
       lg_closed = False\<rparr>)"

definition InitLogger ::
  "(string \<Rightarrow> bool) \<Rightarrow> string \<Rightarrow> int \<Rightarrow> logger option \<times> bool \<Rightarrow> logger option \<times> bool" where
  "InitLogger openLog logDir cap g =
     (if snd g then g else (Some (new_logger openLog logDir cap), True))"

definition log_line :: "log_entry \<Rightarrow> string" where
  "log_line e = ''['' @ le_Time e @ ''] ['' @ le_Level e @ ''] ['' @ le_Module e @ ''] '' @ le_Message e @
     [CHR 0x0A]"

text \<open>
  \<open>Log\<close> on a logger that may be nil; \<open>now\<close> is the formatted time and \<open>msg\<close> the formatted
  message. A write to the file can fail, but its error is not looked at. What the call prints
  through the standard logger is \<open>stderr_line\<close>.
\<close>

definition Log :: "string \<Rightarrow> string \<Rightarrow> string \<Rightarrow> string \<Rightarrow> logger option \<Rightarrow> logger option" where
  "Log level modul msg now lo =
     (case lo of
        None \<Rightarrow> None
      | Some l \<Rightarrow>
          (let e = \<lparr>le_Time = now, le_Level = level, le_Module = modul, le_Message = msg\<rparr> in
           Some (l\<lparr>lg_buf := (lg_buf l)[lg_pos l mod lg_cap l := e], lg_pos := lg_pos l + 1,
             lg_total := lg_total l + 1,
             lg_file := (if lg_closed l then lg_file l
               else map_option (\<lambda>(p, t). (p, t @ log_line e)) (lg_file l))\<rparr>)))"

definition stderr_line :: "string \<Rightarrow> string \<Rightarrow> string \<Rightarrow> logger option \<Rightarrow> string option" where
  "stderr_line level modul msg lo =
     (if lo \<noteq> None \<and> level = ''error'' then Some (''['' @ modul @ ''] '' @ msg) else None)"

definition Info :: "string \<Rightarrow> string \<Rightarrow> string \<Rightarrow> logger option \<Rightarrow> logger option" where
  "Info modul msg now = Log ''info'' modul msg now"

definition Warn :: "string \<Rightarrow> string \<Rightarrow> string \<Rightarrow> logger option \<Rightarrow> logger option" where
  "Warn modul msg now = Log ''warn'' modul msg now"

definition Error :: "string \<Rightarrow> string \<Rightarrow> string \<Rightarrow> logger option \<Rightarrow> logger option" where
  "Error modul msg now = Log ''error'' modul msg now"

text \<open>The loop of \<open>Query\<close>; its first argument is \<open>i + 1\<close>.\<close>

fun query_loop :: "nat \<Rightarrow> logger \<Rightarrow> string \<Rightarrow> nat \<Rightarrow> log_entry list \<Rightarrow> log_entry list" where
  "query_loop 0 l level limit result = result"
| "query_loop (Suc i) l level limit result =
     (if limit \<le> length result then result
      else
        (let e = lg_buf l ! (i mod lg_cap l) in
         if le_Time e = [] then result
         else if level \<noteq> [] \<and> le_Level e \<noteq> level then query_loop i l level limit result
         else query_loop i l level limit (result @ [e])))"

definition Query :: "string \<Rightarrow> int \<Rightarrow> logger option \<Rightarrow> log_entry list" where
  "Query level limit lo =
     (case lo of
        None \<Rightarrow> []
      | Some l \<Rightarrow>
          (let lim = (if limit \<le> 0 \<or> limit > int (lg_cap l) then lg_cap l else nat limit)
           in query_loop (lg_pos l) l level lim []))"

definition Stats :: "logger option \<Rightarrow> (nat \<times> nat) option" where
  "Stats lo = map_option (\<lambda>l. (lg_total l, lg_cap l)) lo"

text \<open>
  \<open>Close\<close> closes the handle and keeps it in its field, so later writes fail silently and the
  buffer goes on; closing twice is an error that is not looked at.
\<close>

definition Logger_Close :: "logger option \<Rightarrow> logger option" where
  "Logger_Close lo =
     (case lo of None \<Rightarrow> None
      | Some l \<Rightarrow> Some (if lg_file l \<noteq> None then l\<lparr>lg_closed := True\<rparr> else l))"

section \<open>The history behind the buffer\<close>

text \<open>
  \<open>holds hist l\<close>: the buffer has the entries of the history that are less than a lap old, in
  their slots.
\<close>

definition holds :: "log_entry list \<Rightarrow> logger \<Rightarrow> bool" where
  "holds hist l \<longleftrightarrow> 0 < lg_cap l \<and> length (lg_buf l) = lg_cap l \<and> lg_pos l = length hist \<and>
     lg_total l = length hist \<and>
     (\<forall>j < length hist. length hist \<le> j + lg_cap l \<longrightarrow> lg_buf l ! (j mod lg_cap l) = hist ! j) \<and>
     (\<forall>e \<in> set hist. le_Time e \<noteq> [])"

lemma holds_new: "holds [] (new_logger openLog logDir cap)"
  by (simp add: holds_def new_logger_def Let_def)

lemma same_slot:
  assumes "j < n" and "n < j + c" and "0 < c"
  shows "j mod c \<noteq> n mod (c :: nat)"
proof
  assume "j mod c = n mod c"
  then have "c dvd n - j" using assms(1) by (metis less_or_eq_imp_le mod_eq_dvd_iff_nat)
  moreover have "0 < n - j" "n - j < c" using assms by auto
  ultimately show False by (simp add: nat_dvd_not_less)
qed

lemma holds_Log:
  assumes "holds hist l" and "now \<noteq> []"
  shows "\<exists>l'. Log level modul msg now (Some l) = Some l' \<and>
    holds (hist @ [\<lparr>le_Time = now, le_Level = level, le_Module = modul, le_Message = msg\<rparr>]) l' \<and>
    lg_cap l' = lg_cap l"
proof -
  let ?e = "\<lparr>le_Time = now, le_Level = level, le_Module = modul, le_Message = msg\<rparr>"
  let ?n = "length hist" and ?c = "lg_cap l"
  let ?b = "(lg_buf l)[?n mod ?c := ?e]"
  have c: "0 < ?c" "length (lg_buf l) = ?c" "lg_pos l = ?n" "lg_total l = ?n"
    and h: "\<And>j. j < ?n \<Longrightarrow> ?n \<le> j + ?c \<Longrightarrow> lg_buf l ! (j mod ?c) = hist ! j"
    using assms(1) by (auto simp: holds_def)
  have slot: "?b ! (j mod ?c) = (hist @ [?e]) ! j" if j: "j < Suc ?n" "Suc ?n \<le> j + ?c" for j
  proof (cases "j = ?n")
    case True
    with c show ?thesis by simp
  next
    case False
    with j have "j < ?n" "?n < j + ?c" by auto
    with same_slot [OF this c(1)] h [of j] show ?thesis by (simp add: nth_append)
  qed
  have "holds (hist @ [?e]) (l\<lparr>lg_buf := ?b, lg_pos := ?n + 1, lg_total := ?n + 1,
      lg_file := (if lg_closed l then lg_file l
        else map_option (\<lambda>(p, t). (p, t @ log_line ?e)) (lg_file l))\<rparr>)"
    using c slot assms by (auto simp: holds_def)
  then show ?thesis using c by (simp add: Log_def Let_def)
qed

text \<open>
  The file: while it is open it grows by one line per entry, and closing it freezes it
  without touching what the queries see.
\<close>

fun log_all :: "log_entry list \<Rightarrow> logger option \<Rightarrow> logger option" where
  "log_all [] lo = lo"
| "log_all (e # es) lo = log_all es (Log (le_Level e) (le_Module e) (le_Message e) (le_Time e) lo)"

lemma file_grows:
  "lg_file l = Some (p, t) \<Longrightarrow> \<exists>l'. log_all es (Some l) = Some l' \<and> lg_closed l' = lg_closed l \<and>
     lg_file l' = Some (p, if lg_closed l then t else t @ concat (map log_line es))"
proof (induction es arbitrary: l t)
  case (Cons e es)
  let ?t = "if lg_closed l then t else t @ log_line e"
  obtain l1 where l1: "Log (le_Level e) (le_Module e) (le_Message e) (le_Time e) (Some l) = Some l1"
      "lg_closed l1 = lg_closed l" "lg_file l1 = Some (p, ?t)"
    using Cons.prems by (cases e) (simp add: Log_def Let_def)
  from Cons.IH [OF l1(3)] l1(1,2) show ?case by auto
qed simp

lemma Query_Close: "Query level limit (Logger_Close lo) = Query level limit lo"
proof -
  have "query_loop i (l\<lparr>lg_closed := True\<rparr>) level lim rs = query_loop i l level lim rs" for i l lim rs
    by (induction i arbitrary: rs) (auto simp: Let_def)
  then show ?thesis by (cases lo) (simp_all add: Logger_Close_def Query_def Let_def)
qed

lemma closed_file_frozen:
  assumes "lg_file l = Some (p, t)"
  shows "\<exists>l'. log_all es (Logger_Close (Some l)) = Some l' \<and> lg_file l' = Some (p, t)"
  using file_grows [of "l\<lparr>lg_closed := True\<rparr>" p t es] assms by (auto simp: Logger_Close_def)

text \<open>The last lap, newest first.\<close>

definition window :: "nat \<Rightarrow> log_entry list \<Rightarrow> log_entry list" where
  "window c hist = take c (rev hist)"

definition matching :: "string \<Rightarrow> log_entry \<Rightarrow> bool" where
  "matching level e \<longleftrightarrow> level = [] \<or> le_Level e = level"

text \<open>The walk as a list: what the loop looks at, from the newest slot on, lap after lap.\<close>

lemma query_loop_walk:
  assumes "\<And>j. j < i \<Longrightarrow> le_Time (lg_buf l ! (j mod lg_cap l)) \<noteq> []"
  shows "query_loop i l level limit result =
    result @ take (limit - length result)
      (filter (matching level) (map (\<lambda>j. lg_buf l ! (j mod lg_cap l)) (rev [0..<i])))"
  using assms
proof (induction i arbitrary: result)
  case (Suc i)
  let ?e = "lg_buf l ! (i mod lg_cap l)"
  have time: "le_Time ?e \<noteq> []" using Suc.prems [of i] by simp
  have prems: "\<And>j. j < i \<Longrightarrow> le_Time (lg_buf l ! (j mod lg_cap l)) \<noteq> []" using Suc.prems by simp
  show ?case
  proof (cases "limit \<le> length result")
    case False
    then obtain d where d: "limit - length result = Suc d" by (metis Suc_diff_Suc not_le)
    then have d': "limit - length (result @ [?e]) = d" by simp
    have "query_loop (Suc i) l level limit result =
        query_loop i l level limit (if matching level ?e then result @ [?e] else result)"
      using False time by (simp add: matching_def Let_def)
    also have "\<dots> = result @ take (Suc d)
        (filter (matching level) (map (\<lambda>j. lg_buf l ! (j mod lg_cap l)) (rev [0..<Suc i])))"
      using Suc.IH [OF prems, of result] Suc.IH [OF prems, of "result @ [?e]"] d d' by simp
    finally show ?thesis by (simp only: d)
  qed simp
qed simp

lemma walk_slot:
  assumes h: "holds hist l" and j: "j < length hist"
  shows "lg_buf l ! (j mod lg_cap l) =
    window (lg_cap l) hist ! ((length hist - 1 - j) mod lg_cap l)"
proof -
  let ?c = "lg_cap l" and ?n = "length hist"
  have c: "0 < ?c" using h by (simp add: holds_def)
  define k where "k = (?n - 1 - j) mod ?c"
  define j' where "j' = ?n - 1 - k"
  have k: "k < ?c" "k \<le> ?n - 1 - j" using c by (simp_all add: k_def)
  then have kn: "k < ?n" using j by simp
  have "(?n - 1 - j) - k = ((?n - 1 - j) div ?c) * ?c"
    by (simp add: k_def minus_mod_eq_div_mult)
  then have "j' = j + ((?n - 1 - j) div ?c) * ?c" using k(2) j by (simp add: j'_def)
  then have "j' mod ?c = j mod ?c" by simp
  moreover have "lg_buf l ! (j' mod ?c) = hist ! j'"
    using h k kn by (auto simp: holds_def j'_def)
  moreover have "window ?c hist ! k = hist ! j'"
    using k(1) kn by (simp add: window_def rev_nth j'_def)
  ultimately show ?thesis by (simp add: k_def)
qed

definition query_limit :: "int \<Rightarrow> nat \<Rightarrow> nat" where
  "query_limit limit c = (if limit \<le> 0 \<or> limit > int c then c else nat limit)"

lemma Query_walk:
  assumes h: "holds hist l"
  shows "Query level limit (Some l) =
    take (query_limit limit (lg_cap l))
      (filter (matching level)
        (map (\<lambda>i. window (lg_cap l) hist ! (i mod lg_cap l)) [0..<length hist]))"
proof -
  let ?c = "lg_cap l" and ?n = "length hist"
  have n: "lg_pos l = ?n" "0 < ?c" using h by (simp_all add: holds_def)
  have time: "le_Time (lg_buf l ! (j mod ?c)) \<noteq> []" if j: "j < ?n" for j
  proof -
    have "(?n - 1 - j) mod ?c < length (window ?c hist)"
      using n(2) j mod_less_eq_dividend [of "?n - 1 - j" ?c] mod_less_divisor [OF n(2), of "?n - 1 - j"]
      unfolding window_def length_take length_rev by linarith
    then have "window ?c hist ! ((?n - 1 - j) mod ?c) \<in> set (window ?c hist)" by (rule nth_mem)
    then have "window ?c hist ! ((?n - 1 - j) mod ?c) \<in> set hist"
      using set_take_subset [of ?c "rev hist"] by (auto simp: window_def)
    with h walk_slot [OF h j] show ?thesis by (auto simp: holds_def)
  qed
  have "map (\<lambda>j. lg_buf l ! (j mod ?c)) (rev [0..<?n]) =
      map (\<lambda>i. window ?c hist ! (i mod ?c)) [0..<?n]"
    by (rule nth_equalityI) (auto simp: rev_nth walk_slot [OF h])
  with query_loop_walk [of ?n l level "query_limit limit ?c" "[]"] time n(1) show ?thesis
    by (simp add: Query_def Let_def query_limit_def)
qed

text \<open>Without a level, or before the buffer has filled, no lap is walked twice.\<close>

lemma window_walk:
  assumes "length hist \<le> c"
  shows "map (\<lambda>i. window c hist ! (i mod c)) [0..<length hist] = window c hist"
  using assms by (intro nth_equalityI) (auto simp: window_def)

lemma take_window:
  assumes "lim \<le> c" and "0 < c"
  shows "take lim (map (\<lambda>i. window c hist ! (i mod c)) [0..<length hist]) = take lim (window c hist)"
  using assms by (intro nth_equalityI) (auto simp: window_def)

lemma matching_all [simp]: "matching [] = (\<lambda>e. True)"
  by (simp add: matching_def fun_eq_iff)

lemma query_limit_le: "query_limit limit c \<le> c"
  by (auto simp: query_limit_def)

text \<open>
  \<open>Query\<close> returns the newest entries of the level that the buffer still holds, newest
  first and at most the limit of them, as long as no level is asked for or the buffer has
  not wrapped.
\<close>

theorem Query_newest_first:
  assumes "holds hist l" and "level = [] \<or> length hist \<le> lg_cap l"
  shows "Query level limit (Some l) =
    take (query_limit limit (lg_cap l)) (filter (matching level) (window (lg_cap l) hist))"
  using assms(2)
proof
  assume "level = []"
  then show ?thesis
    using Query_walk [OF assms(1), of level limit] take_window [OF query_limit_le, of "lg_cap l"] assms(1)
    by (simp add: holds_def)
next
  assume "length hist \<le> lg_cap l"
  then show ?thesis using Query_walk [OF assms(1), of level limit] by (simp add: window_walk)
qed

text \<open>A run: two entries kept of three.\<close>

definition sample_log :: "string \<Rightarrow> string \<Rightarrow> logger option \<Rightarrow> logger option" where
  "sample_log level msg = Log level ''crawler'' msg ''2024-05-01 10:00:00''"

definition sample_entry :: "string \<Rightarrow> string \<Rightarrow> log_entry" where
  "sample_entry level msg =
     \<lparr>le_Time = ''2024-05-01 10:00:00'', le_Level = level, le_Module = ''crawler'', le_Message = msg\<rparr>"

definition small_logger :: "logger option" where
  "small_logger = Some (new_logger (\<lambda>d. True) [] 2)"

lemma Query_newest_first_witness:
  "Query [] 0 (sample_log ''info'' ''c'' (sample_log ''error'' ''b'' (sample_log ''info'' ''a'' small_logger))) =
     [sample_entry ''info'' ''c'', sample_entry ''error'' ''b'']"
proof -
  let ?h = "[sample_entry ''info'' ''a'', sample_entry ''error'' ''b'', sample_entry ''info'' ''c'']"
  let ?l = "the (sample_log ''info'' ''c'' (sample_log ''error'' ''b'' (sample_log ''info'' ''a'' small_logger)))"
  have l: "sample_log ''info'' ''c'' (sample_log ''error'' ''b'' (sample_log ''info'' ''a'' small_logger)) = Some ?l"
    by (simp add: sample_log_def small_logger_def Log_def Let_def)
  have "holds ?h ?l"
    by (auto simp: holds_def sample_log_def small_logger_def Log_def Let_def new_logger_def sample_entry_def
        less_Suc_eq numeral_3_eq_3 numeral_2_eq_2)
  then have "Query [] 0 (Some ?l) =
      take (query_limit 0 (lg_cap ?l)) (filter (matching []) (window (lg_cap ?l) ?h))"
    by (rule Query_newest_first) simp
  also have "\<dots> = [sample_entry ''info'' ''c'', sample_entry ''error'' ''b'']"
    by (simp add: window_def query_limit_def sample_log_def small_logger_def Log_def Let_def new_logger_def)
  finally show ?thesis using l by simp
qed

text \<open>
  With a level and a buffer that has wrapped, the walk does not stop after one lap: the
  loop counts down the position, not the slots, so an entry that matches is returned once
  for every lap.
\<close>

theorem Query_repeats_after_wrap:
  "Query ''error'' 2
     (sample_log ''info'' ''d'' (sample_log ''error'' ''c''
       (sample_log ''info'' ''b'' (sample_log ''error'' ''a'' small_logger)))) =
   [sample_entry ''error'' ''c'', sample_entry ''error'' ''c'']"
  by code_simp

end
