(* ===== verification/Api.thy ===== *)
theory Api
  imports Config ConnTrack Crawler Validator Logger
begin

text \<open>
  The REST handlers (\<open>internal/api/api.go\<close>) without the dynamic loop: routing, connections,
  proxies, fetching, validation, pool management, statistics and logs. A handler takes the
  request, what it asks of the clock and of the world, and the server, and gives the response and the server
  after it. Bodies are Go values before their encoding; decoding a request body is a
  parameter. Here a handler runs in one go; \<open>ApiCalls\<close> has the same handlers one critical section
  at a time, with others in between.
\<close>

section \<open>State\<close>

datatype json =
    JNull
  | JStr string
  | JBool bool
  | JNum int
  | JStrs "string list"
  | JCounts "string \<rightharpoonup> nat"
  | JConns "view list"
  | JUpstreams "upstream_view list"
  | JResults "validate_result list"
  | JEntries "log_entry list"
  | JObj "(string \<times> json) list"

datatype body = Text string | Json json

record response =
  rs_Code :: nat
  rs_Body :: body

record request =
  rq_Method :: string
  rq_Path :: string
  rq_Query :: "string \<Rightarrow> string"
  rq_Body :: string

text \<open>
  The validations that were started, and which of them the server points at. One that has been
  replaced is no longer shown but goes on.
\<close>

record server =
  sv_Cm :: manager
  sv_Pool :: pool
  sv_FreeCfg :: "free_config option"
  sv_CfgPath :: string
  sv_cached :: "free_entry list"
  sv_tasks :: "(string \<times> validation \<times> validate_task) list"
  sv_task :: "nat option"
  sv_log :: "logger option"

section \<open>Helpers\<close>

definition writeJSON :: "nat \<Rightarrow> json \<Rightarrow> response" where
  "writeJSON code v = \<lparr>rs_Code = code, rs_Body = Json v\<rparr>"

definition method_not_allowed :: response where
  "method_not_allowed = \<lparr>rs_Code = 405, rs_Body = Text ''method not allowed''\<rparr>"

definition not_found :: response where
  "not_found = \<lparr>rs_Code = 404, rs_Body = Text ''404 page not found''\<rparr>"

definition json_error :: "string \<Rightarrow> json" where
  "json_error msg = JObj [(''error'', JStr msg)]"

definition netSplitHostPort :: "string \<Rightarrow> (string \<times> string) option" where
  "netSplitHostPort addr = cut_last CHR '':'' addr"

text \<open>
  \<open>fmt.Sscanf(s, "%d", &n)\<close>: blanks, a sign, the digits that follow; \<open>None\<close> where the call
  fails and \<open>n\<close> keeps its value. White space outside ASCII is not considered.
\<close>

definition scan_int :: "string \<Rightarrow> int option" where
  "scan_int s =
     (let s1 = dropWhile (\<lambda>c. c \<in> {CHR '' '', CHR 0x09, CHR 0x0B, CHR 0x0C, CHR 0x0D}) s;
          neg = has_prefix ''-'' s1;
          s2 = (if neg \<or> has_prefix ''+'' s1 then drop 1 s1 else s1);
          ds = takeWhile is_digit s2;
          v = (if neg then - int (dec_val ds) else int (dec_val ds))
      in if ds = [] \<or> v < - (2 ^ 63) \<or> v \<ge> 2 ^ 63 then None else Some v)"

text \<open>\<open>time.Duration(n) * time.Second\<close> in 64 bits.\<close>

definition seconds :: "int \<Rightarrow> int" where
  "seconds n = sint (word_of_int n * word_of_int second_ns :: i64)"

definition log_info :: "string \<Rightarrow> string \<Rightarrow> string \<Rightarrow> server \<Rightarrow> server" where
  "log_info modul msg now s = s\<lparr>sv_log := Info modul msg now (sv_log s)\<rparr>"

section \<open>Routing\<close>

datatype handler =
    Health | Connections | ConnectionItem | Fetch | ValidateStart | ValidateProgress | ProxyItem
  | Proxies | PoolAdd | PoolSave | PoolStrategy | Dynamic | AutoPool | StatsPage | LogsPage

definition routes :: "(string \<times> handler) list" where
  "routes =
     [(''/api/healthz'', Health), (''/api/connections'', Connections), (''/api/connections/'', ConnectionItem),
      (''/api/proxies/fetch'', Fetch), (''/api/proxies/validate'', ValidateStart),
      (''/api/proxies/validate/'', ValidateProgress), (''/api/proxies/'', ProxyItem),
      (''/api/proxies'', Proxies), (''/api/pool/add'', PoolAdd), (''/api/pool/save'', PoolSave),
      (''/api/pool/strategy'', PoolStrategy), (''/api/proxies/dynamic'', Dynamic),
      (''/api/proxies/auto-pool'', AutoPool), (''/api/stats'', StatsPage), (''/api/logs'', LogsPage)]"

text \<open>
  The multiplexer on a clean path: a pattern that ends in a slash matches what starts with it, another
  only itself; the longest match wins.
\<close>

definition pattern_matches :: "string \<Rightarrow> string \<Rightarrow> bool" where
  "pattern_matches pat path \<longleftrightarrow> (if last pat = CHR ''/'' then has_prefix pat path else pat = path)"

definition best_match :: "(string \<times> handler) option \<Rightarrow> string \<times> handler \<Rightarrow> (string \<times> handler) option" where
  "best_match best r =
     (case best of
        None \<Rightarrow> Some r
      | Some b \<Rightarrow> if length (fst b) < length (fst r) then Some r else best)"

definition Handler :: "string \<Rightarrow> handler option" where
  "Handler path = map_option snd (foldl best_match None (filter (\<lambda>r. pattern_matches (fst r) path) routes))"

section \<open>Health and connections\<close>

definition handleHealth :: "request \<Rightarrow> response" where
  "handleHealth r =
     (if rq_Method r \<noteq> ''GET'' then method_not_allowed
      else writeJSON 200 (JObj [(''status'', JStr ''ok'')]))"

text \<open>\<open>order\<close> is the order of the loop over the connection map.\<close>

definition handleConnections :: "string list \<Rightarrow> request \<Rightarrow> server \<Rightarrow> go_panic + response \<times> server" where
  "handleConnections order r s =
     (if rq_Method r = ''GET'' then Inr (writeJSON 200 (JConns (Manager_Snapshot order (sv_Cm s))), s)
      else if rq_Method r = ''DELETE'' then
        (case CloseAll order (sv_Cm s) of
           Inl p \<Rightarrow> Inl p
         | Inr m \<Rightarrow> Inr (writeJSON 200 (JObj [(''ok'', JBool True)]), s\<lparr>sv_Cm := m\<rparr>))
      else Inr (method_not_allowed, s))"

definition item_of :: "string \<Rightarrow> request \<Rightarrow> string option" where
  "item_of prefix r =
     (let name = trim_prefix prefix (rq_Path r) in
      if name = [] \<or> CHR ''/'' \<in> set name then None else Some name)"

definition handleConnectionItem :: "string list \<Rightarrow> request \<Rightarrow> server \<Rightarrow> go_panic + response \<times> server" where
  "handleConnectionItem order r s =
     (case item_of ''/api/connections/'' r of
        None \<Rightarrow> Inr (not_found, s)
      | Some i \<Rightarrow>
          if rq_Method r = ''DELETE'' then
            (case find (\<lambda>v. w_ID v = i) (Manager_Snapshot order (sv_Cm s)) of
               None \<Rightarrow> Inr (writeJSON 200 (JObj [(''closed'', JBool False)]), s)
             | Some v \<Rightarrow>
                 (case Manager_Get i (sv_Cm s) of
                    None \<Rightarrow> Inr (writeJSON 200 (JObj [(''closed'', JBool False)]), s)
                  | Some e \<Rightarrow>
                      (case Entry_Close e (sv_Cm s) of
                         Inl p \<Rightarrow> Inl p
                       | Inr m \<Rightarrow> Inr (writeJSON 200 (JObj [(''closed'', JBool True)]), s\<lparr>sv_Cm := m\<rparr>))))
          else Inr (method_not_allowed, s))"

section \<open>Proxies\<close>

definition handleProxies :: "request \<Rightarrow> server \<Rightarrow> response" where
  "handleProxies r s =
     (if rq_Method r \<noteq> ''GET'' then method_not_allowed
      else writeJSON 200 (JUpstreams (Pool_Snapshot (sv_Pool s))))"

definition handleProxyItem :: "string \<Rightarrow> request \<Rightarrow> server \<Rightarrow> response \<times> server" where
  "handleProxyItem now r s =
     (case item_of ''/api/proxies/'' r of
        None \<Rightarrow> (not_found, s)
      | Some name \<Rightarrow>
          if rq_Method r = ''DELETE'' then
            if name = ''direct'' then (writeJSON 400 (json_error ''cannot remove the 'direct' proxy''), s)
            else
              (let (ok, p) = Pool_Remove name (sv_Pool s) in
               (writeJSON 200 (JObj [(''removed'', JBool ok)]),
                log_info ''pool'' (''removed proxy: '' @ name) now (s\<lparr>sv_Pool := p\<rparr>)))
          else (method_not_allowed, s))"

section \<open>Fetch and validate\<close>

definition fetch_timeout :: "free_config \<Rightarrow> int" where
  "fetch_timeout cfg = (let t = seconds (fc_CrawlTimeout cfg) in if t \<le> 0 then 30 * second_ns else t)"

definition freeproxy_on :: "server \<Rightarrow> free_config option" where
  "freeproxy_on s =
     (case sv_FreeCfg s of None \<Rightarrow> None | Some cfg \<Rightarrow> if fc_Enabled cfg then Some cfg else None)"

definition crawl_started :: string where
  "crawl_started = ''starting crawl from '' @ itoa (length BuiltinSources) @ '' sources''"

definition crawl_done :: "crawl_result \<Rightarrow> string" where
  "crawl_done res =
     ''done: '' @ itoa (cr_Total res) @ '' proxies from '' @ itoa (card (dom (cr_Sources res))) @
     '' sources, '' @ itoa (length (cr_Errors res)) @ '' errors''"

definition crawl_report :: "crawl_result \<Rightarrow> json" where
  "crawl_report res = JObj [(''total'', JNum (int (cr_Total res))), (''sources'', JCounts (cr_Sources res)),
     (''errors'', JStrs (cr_Errors res))]"

text \<open>
  \<open>crawl\<close> is the crawl of the built-in sources with a timeout; the two log entries have the
  two times.
\<close>

definition handleFetch ::
  "(int \<Rightarrow> go_panic + crawl_result) \<Rightarrow> string \<Rightarrow> string \<Rightarrow> request \<Rightarrow> server \<Rightarrow> go_panic + response \<times> server" where
  "handleFetch crawl now now' r s =
     (if rq_Method r \<noteq> ''POST'' then Inr (method_not_allowed, s)
      else case freeproxy_on s of
        None \<Rightarrow> Inr (writeJSON 400 (json_error ''freeproxy is not enabled''), s)
      | Some cfg \<Rightarrow>
          (let s1 = log_info ''crawl'' crawl_started now s in
           case crawl (fetch_timeout cfg) of
             Inl p \<Rightarrow> Inl p
           | Inr res \<Rightarrow>
               Inr (writeJSON 200 (crawl_report res),
                 log_info ''crawl'' (crawl_done res) now' (s1\<lparr>sv_cached := cr_Entries res\<rparr>))))"

definition task_id :: "int \<Rightarrow> string" where
  "task_id nano = ''task-'' @ sprint_int nano"

definition publish_task :: "string \<Rightarrow> validation \<Rightarrow> server \<Rightarrow> server" where
  "publish_task tid v s =
     s\<lparr>sv_tasks := sv_tasks s @ [(tid, v, new_task)], sv_task := Some (length (sv_tasks s))\<rparr>"

definition validate_timeout :: "free_config \<Rightarrow> int" where
  "validate_timeout cfg = (let t = seconds (fc_Timeout cfg) in if t \<le> 0 then 10 * second_ns else t)"

definition validate_concurrency :: "free_config \<Rightarrow> int" where
  "validate_concurrency cfg = (if fc_Concurrency cfg \<le> 0 then 20 else fc_Concurrency cfg)"

definition no_cached_proxies :: string where
  "no_cached_proxies = ''no cached proxies '' @ [CHR 0xE2, CHR 0x80, CHR 0x94] @ '' run fetch first''"

definition validate_started :: "int \<Rightarrow> free_entry list \<Rightarrow> string" where
  "validate_started nano entries =
     ''starting validation of '' @ itoa (length entries) @ '' proxies (task '' @ task_id nano @ '')''"

definition validate_report :: "int \<Rightarrow> free_entry list \<Rightarrow> json" where
  "validate_report nano entries =
     JObj [(''task_id'', JStr (task_id nano)), (''total'', JNum (int (length entries)))]"

text \<open>
  The handler publishes a fresh task and starts the goroutine that will set it up;
  \<open>validation\<close> gives what the goroutines of the validation will meet.
\<close>

definition handleValidate ::
  "(string list \<Rightarrow> int \<Rightarrow> int \<Rightarrow> free_entry list \<Rightarrow> validation) \<Rightarrow> int \<Rightarrow> string \<Rightarrow> request \<Rightarrow> server \<Rightarrow>
   response \<times> server" where
  "handleValidate validation nano now r s =
     (if rq_Method r \<noteq> ''POST'' then (method_not_allowed, s)
      else case freeproxy_on s of
        None \<Rightarrow> (writeJSON 400 (json_error ''freeproxy is not enabled''), s)
      | Some cfg \<Rightarrow>
          if sv_cached s = [] then (writeJSON 400 (json_error no_cached_proxies), s)
          else
            (let v = validation (fc_TestURLs cfg) (validate_timeout cfg) (validate_concurrency cfg) (sv_cached s)
             in (writeJSON 200 (validate_report nano (sv_cached s)),
                 log_info ''validate'' (validate_started nano (sv_cached s)) now
                   (publish_task (task_id nano) v s))))"

definition task_report :: "string \<Rightarrow> nat \<Rightarrow> nat \<Rightarrow> nat \<Rightarrow> bool \<Rightarrow> validate_result list \<Rightarrow> json" where
  "task_report tid tot ndone valid run results =
     JObj [(''task_id'', JStr tid), (''total'', JNum (int tot)), (''done'', JNum (int ndone)),
       (''valid'', JNum (int valid)), (''running'', JBool run), (''results'', JResults results)]"

definition handleValidateProgress :: "request \<Rightarrow> server \<Rightarrow> response" where
  "handleValidateProgress r s =
     (let taskID = trim_prefix ''/api/proxies/validate/'' (rq_Path r) in
      if taskID = [] then not_found
      else case sv_task s of
        None \<Rightarrow> writeJSON 404 (json_error ''task not found'')
      | Some i \<Rightarrow>
          (case sv_tasks s ! i of (tid, v, t) \<Rightarrow>
            if tid \<noteq> taskID then writeJSON 404 (json_error ''task not found'')
            else writeJSON 200 (task_report tid (vt_Total t) (vt_Done t) (vt_Valid t) (vt_Running t) (Snapshot t))))"

section \<open>Pool management\<close>

text \<open>\<open>strings.Replace(addr, ":", "-", 1)\<close>.\<close>

fun replace_colon :: "string \<Rightarrow> string" where
  "replace_colon [] = []"
| "replace_colon (c # cs) = (if c = CHR '':'' then CHR ''-'' # cs else c # replace_colon cs)"

text \<open>
  One proxy of the request, named after its type and address; a name that is taken gets a
  suffix from the clock, once. The result says whether it was added.
\<close>

definition add_named :: "string \<Rightarrow> int \<Rightarrow> string \<Rightarrow> string \<Rightarrow> pool \<Rightarrow> bool \<times> pool" where
  "add_named prefix nano addr typ p =
     (let name = prefix @ ''-'' @ typ @ ''-'' @ replace_colon addr;
          (up, p1) = new_upstream \<lparr>up_Name = name, up_Type = typ, up_Addr = addr, up_Username = [],
            up_Password = [], up_healthy = False\<rparr> p
      in case Pool_Add up p1 of
           (None, p2) \<Rightarrow> (True, p2)
         | (Some e, p2) \<Rightarrow>
             (let p3 = rename_upstream up (name @ ''-'' @ sprint_int (nano mod 1000)) p2 in
              case Pool_Add up p3 of
                (None, p4) \<Rightarrow> (True, p4)
              | (Some e2, p4) \<Rightarrow> (False, p4)))"

text \<open>\<open>nanos\<close> gives the clock at each entry that needs it.\<close>

fun add_all :: "string \<Rightarrow> (nat \<Rightarrow> int) \<Rightarrow> (string \<times> string) list \<Rightarrow> nat \<Rightarrow> pool \<Rightarrow> nat \<times> pool" where
  "add_all prefix nanos [] added p = (added, p)"
| "add_all prefix nanos ((addr, typ) # rest) added p =
     (case add_named prefix (nanos 0) addr typ p of
        (ok, p') \<Rightarrow> add_all prefix (\<lambda>i. nanos (Suc i)) rest (if ok then added + 1 else added) p')"

definition handlePoolAdd ::
  "(string \<Rightarrow> (string \<times> string) list option) \<Rightarrow> (nat \<Rightarrow> int) \<Rightarrow> string \<Rightarrow> request \<Rightarrow> server \<Rightarrow>
   response \<times> server" where
  "handlePoolAdd decode nanos now r s =
     (if rq_Method r \<noteq> ''POST'' then (method_not_allowed, s)
      else case decode (rq_Body r) of
        None \<Rightarrow> (writeJSON 400 (json_error ''invalid JSON''), s)
      | Some proxies \<Rightarrow>
          (let (added, p) = add_all ''free'' nanos proxies 0 (sv_Pool s) in
           (writeJSON 200 (JObj [(''added'', JNum (int added))]),
            log_info ''pool'' (''added '' @ itoa added @ '' proxies to pool'') now (s\<lparr>sv_Pool := p\<rparr>))))"

text \<open>What is saved for an upstream.\<close>

definition saved_entry :: "upstream \<Rightarrow> proxy_entry" where
  "saved_entry u =
     (if up_Type u = ''direct'' then
        \<lparr>pe_Name = ''direct'', pe_Type = ''direct'', pe_Server = [], pe_Port = 0, pe_Username = [], pe_Password = []\<rparr>
      else
        (let (host, portStr) = (case netSplitHostPort (up_Addr u) of None \<Rightarrow> ([], []) | Some hp \<Rightarrow> hp);
             port = (case scan_int portStr of None \<Rightarrow> 0 | Some n \<Rightarrow> n)
         in \<lparr>pe_Name = up_Name u, pe_Type = up_Type u, pe_Server = host, pe_Port = port,
             pe_Username = up_Username u, pe_Password = up_Password u\<rparr>))"

definition saved_config :: "pool \<Rightarrow> config \<Rightarrow> config" where
  "saved_config p cfg =
     cfg\<lparr>cfg_Pool := (cfg_Pool cfg)
       \<lparr>pc_Proxies := map (\<lambda>r. saved_entry (p_obj p r)) (Pool_List p), pc_Strategy := Strategy p\<rparr>\<rparr>"

text \<open>
  \<open>load\<close> and \<open>save\<close> are \<open>config.Load\<close> and \<open>Config.Save\<close> over some files; \<open>errText\<close> is the
  text of their errors.
\<close>

definition handlePoolSave ::
  "(string \<Rightarrow> 'f \<Rightarrow> config_error + config) \<Rightarrow> (config \<Rightarrow> string \<Rightarrow> 'f \<Rightarrow> config_error option \<times> 'f) \<Rightarrow>
   (config_error \<Rightarrow> string) \<Rightarrow> string \<Rightarrow> request \<Rightarrow> server \<Rightarrow> 'f \<Rightarrow> response \<times> server \<times> 'f" where
  "handlePoolSave load save errText now r s files =
     (if rq_Method r \<noteq> ''POST'' then (method_not_allowed, s, files)
      else if sv_CfgPath s = [] then (writeJSON 400 (json_error ''no config path configured''), s, files)
      else case load (sv_CfgPath s) files of
        Inl e \<Rightarrow> (writeJSON 500 (json_error (errText e)), s, files)
      | Inr cfg \<Rightarrow>
          (case save (saved_config (sv_Pool s) cfg) (sv_CfgPath s) files of
             (Some e, files') \<Rightarrow> (writeJSON 500 (json_error (errText e)), s, files')
           | (None, files') \<Rightarrow>
               (writeJSON 200 (JObj [(''ok'', JBool True)]),
                log_info ''pool'' (''saved '' @ itoa (length (Pool_List (sv_Pool s))) @ '' proxies to config'') now s,
                files')))"

text \<open>The quoting of the pinned name in the log entry is \<open>quote\<close>.\<close>

definition strategy_changed :: "(string \<Rightarrow> string) \<Rightarrow> string \<Rightarrow> string \<Rightarrow> string" where
  "strategy_changed quote strategy pinned =
     (if strategy = ''name'' then ''strategy changed to '' @ strategy @ '', pinned='' @ quote pinned
      else ''strategy changed to '' @ strategy)"

definition handlePoolStrategy ::
  "(string \<Rightarrow> (string \<times> string) option) \<Rightarrow> (pool_error \<Rightarrow> string) \<Rightarrow> (string \<Rightarrow> string) \<Rightarrow> string \<Rightarrow>
   request \<Rightarrow> server \<Rightarrow> response \<times> server" where
  "handlePoolStrategy decode errText quote now r s =
     (if rq_Method r \<noteq> ''PUT'' then (method_not_allowed, s)
      else case decode (rq_Body r) of
        None \<Rightarrow> (writeJSON 400 (json_error ''invalid JSON''), s)
      | Some (strategy, pinned) \<Rightarrow>
          (case SetStrategy strategy (sv_Pool s) of
             (Some e, p) \<Rightarrow> (writeJSON 400 (json_error (errText e)), s\<lparr>sv_Pool := p\<rparr>)
           | (None, p) \<Rightarrow>
               (let p' = (if strategy = ''name'' then SetPinnedName pinned p else p)
                in (writeJSON 200 (JObj [(''strategy'', JStr strategy), (''pinned_name'', JStr (PinnedName p'))]),
                    log_info ''pool'' (strategy_changed quote strategy pinned) now (s\<lparr>sv_Pool := p'\<rparr>)))))"

section \<open>Statistics and logs\<close>

definition stats_report :: "view list \<Rightarrow> string \<Rightarrow> string \<Rightarrow> nat \<Rightarrow> json" where
  "stats_report snap strategy pinned proxies =
     (let up = foldl (\<lambda>n e. n + word_of_int (w_Upload e)) (0 :: i64) snap;
          down = foldl (\<lambda>n e. n + word_of_int (w_Download e)) (0 :: i64) snap
      in JObj [(''active'', JNum (int (length snap))), (''upload'', JNum (sint up)),
           (''download'', JNum (sint down)), (''strategy'', JStr strategy), (''pinned_name'', JStr pinned),
           (''proxy_count'', JNum (int proxies))])"

definition handleStats :: "string list \<Rightarrow> request \<Rightarrow> server \<Rightarrow> response" where
  "handleStats order r s =
     (if rq_Method r \<noteq> ''GET'' then method_not_allowed
      else writeJSON 200 (stats_report (Manager_Snapshot order (sv_Cm s)) (Strategy (sv_Pool s))
        (PinnedName (sv_Pool s)) (length (Pool_Snapshot (sv_Pool s)))))"

definition handleLogs :: "request \<Rightarrow> server \<Rightarrow> response" where
  "handleLogs r s =
     (if rq_Method r \<noteq> ''GET'' then method_not_allowed
      else
        (let limit = (case scan_int (rq_Query r ''limit'') of Some n \<Rightarrow> n | None \<Rightarrow> 100) in
         case sv_log s of
           None \<Rightarrow> writeJSON 200 (JEntries [])
         | Some l \<Rightarrow> writeJSON 200 (JEntries (Query (rq_Query r ''level'') limit (Some l)))))"

end
