(* ===== verification/ApiPool.thy ===== *)
theory ApiPool
  imports Api "HOL-Library.Sublist"
begin

text \<open>
  Properties of the handlers that manage the pool and route requests: what a saved pool loads
  back as, and when it does not; what adding a list of proxies does; which names the routes
  of the multiplexer hide.
\<close>

section \<open>Saving the pool\<close>

text \<open>
  An upstream that survives being saved: a direct one is called so, another one has
  a name, a known type and the address of a host without a colon and a port in range.
\<close>

definition saveable :: "upstream \<Rightarrow> bool" where
  "saveable u \<longleftrightarrow>
     (up_Type u = ''direct'' \<and> up_Name u = ''direct'' \<and> up_Addr u = []) \<or>
     (up_Type u \<in> {''http'', ''socks5''} \<and> up_Name u \<noteq> [] \<and>
      (\<exists>host port. up_Addr u = host @ '':'' @ itoa port \<and> host \<noteq> [] \<and> CHR '':'' \<notin> set host \<and>
         1 \<le> port \<and> port \<le> 65535))"

lemma itoa_hd: "is_digit (hd (itoa n))"
  using itoa_digits [of n] by (cases "itoa n") auto

lemma scan_int_itoa: "n < 2 ^ 63 \<Longrightarrow> scan_int (itoa n) = Some (int n)"
proof -
  assume n: "n < 2 ^ 63"
  obtain c cs where c: "itoa n = c # cs" by (cases "itoa n") auto
  then have d: "is_digit c" using itoa_hd [of n] by simp
  then have "c \<notin> {CHR '' '', CHR 0x09, CHR 0x0B, CHR 0x0C, CHR 0x0D}" "c \<noteq> CHR ''-''" "c \<noteq> CHR ''+''"
    by (auto simp: is_digit_def)
  moreover have "takeWhile is_digit (itoa n) = itoa n" using itoa_digits by (simp add: takeWhile_eq_all_conv)
  moreover have "int n < 2 ^ 63" using n by (metis of_nat_less_numeral_power_cancel_iff)
  ultimately show ?thesis
    using c dec_val_itoa [of n] by (simp add: scan_int_def has_prefix_def Let_def)
qed

lemma saved_upstream:
  assumes "saveable u"
  shows "entry_ok (saved_entry u)" and "pe_Name (saved_entry u) = up_Name u"
    and "view_of (upstream_of_entry (saved_entry u)) = (view_of u)\<lparr>v_Healthy := False\<rparr>"
proof -
  have "entry_ok (saved_entry u) \<and> pe_Name (saved_entry u) = up_Name u \<and>
    view_of (upstream_of_entry (saved_entry u)) = (view_of u)\<lparr>v_Healthy := False\<rparr>"
  proof (cases "up_Type u = ''direct''")
    case True
    with assms show ?thesis
      by (simp add: saveable_def saved_entry_def entry_ok_def view_of_def upstream_of_entry_def)
  next
    case False
    with assms obtain host port where h: "up_Addr u = host @ '':'' @ itoa port" "host \<noteq> []"
      "CHR '':'' \<notin> set host" "1 \<le> port" "port \<le> 65535" "up_Type u \<in> {''http'', ''socks5''}" "up_Name u \<noteq> []"
      by (auto simp: saveable_def)
    have cut: "netSplitHostPort (up_Addr u) = Some (host, itoa port)"
      using cut_last_append [of "CHR '':''" "itoa port" host] h(1) by (simp add: netSplitHostPort_def)
    have scan: "scan_int (itoa port) = Some (int port)" using h(5) by (intro scan_int_itoa) simp
    have e: "saved_entry u = \<lparr>pe_Name = up_Name u, pe_Type = up_Type u, pe_Server = host,
        pe_Port = int port, pe_Username = up_Username u, pe_Password = up_Password u\<rparr>"
      using False cut scan by (simp add: saved_entry_def)
    have "JoinHostPort host (sprint_int (int port)) = up_Addr u"
      using h by (simp add: JoinHostPort_def sprint_int_def)
    with e h False show ?thesis by (simp add: entry_ok_def view_of_def upstream_of_entry_def)
  qed
  then show "entry_ok (saved_entry u)" "pe_Name (saved_entry u) = up_Name u"
    "view_of (upstream_of_entry (saved_entry u)) = (view_of u)\<lparr>v_Healthy := False\<rparr>" by simp_all
qed

lemma saved_config_simps [simp]:
  "pc_Proxies (cfg_Pool (saved_config p cfg)) = map (\<lambda>r. saved_entry (p_obj p r)) (p_all p)"
  "pc_Strategy (cfg_Pool (saved_config p cfg)) = p_strategy p"
  "cfg_Server (saved_config p cfg) = cfg_Server cfg"
  "cfg_FreeProxy (saved_config p cfg) = cfg_FreeProxy cfg"
  by (simp_all add: saved_config_def Pool_List_def Strategy_def)

lemma saved_config_valid:
  assumes "pool_inv p" and "p_all p \<noteq> []" and "\<forall>r \<in> set (p_all p). saveable (p_obj p r)"
  shows "Validate (saved_config p cfg) = (None, saved_config p cfg)"
proof -
  have "map pe_Name (map (\<lambda>r. saved_entry (p_obj p r)) (p_all p)) = names p"
    using assms(3) by (simp add: names_def saved_upstream(2))
  then have "valid_config (saved_config p cfg)"
    using assms pool_ok_distinct_names [of p] saved_upstream(1)
    by (simp add: valid_config_def pool_entries_ok_def pool_inv_def comp_def)
  then have "fst (Validate (saved_config p cfg)) = None" by (simp add: Validate_valid)
  moreover have "p_strategy p \<noteq> []" using assms(1) by (auto simp: pool_inv_def known_strategies_def)
  then have "snd (Validate (saved_config p cfg)) = saved_config p cfg"
    using Validate_config [of "saved_config p cfg"] by simp
  ultimately show ?thesis by (metis prod.collapse)
qed

lemma saved_pool_snapshot:
  assumes "pool_inv p" and "\<forall>r \<in> set (p_all p). saveable (p_obj p r)"
  shows "Pool_Snapshot (Pool_New (cfg_Pool (saved_config p cfg))) =
    map (\<lambda>v. v\<lparr>v_Healthy := True\<rparr>) (Pool_Snapshot p)"
proof -
  have "distinct (map pe_Name (map (\<lambda>r. saved_entry (p_obj p r)) (p_all p)))"
    using assms pool_ok_distinct_names [of p]
    by (simp add: names_def saved_upstream(2) pool_inv_def comp_def cong: map_cong)
  then have "Pool_Snapshot (Pool_New (cfg_Pool (saved_config p cfg))) =
      map (\<lambda>r. (view_of (upstream_of_entry (saved_entry (p_obj p r))))\<lparr>v_Healthy := True\<rparr>) (p_all p)"
    using Pool_New_snapshot [of "cfg_Pool (saved_config p cfg)"] by (simp add: comp_def)
  also have "\<dots> = map (\<lambda>r. (view_of (p_obj p r))\<lparr>v_Healthy := True\<rparr>) (p_all p)"
    using assms(2) saved_upstream(3) by simp
  finally show ?thesis by (simp add: Pool_Snapshot_eq [of p])
qed


definition api_server :: "pool \<Rightarrow> server" where
  "api_server p = \<lparr>sv_Cm = NewManager, sv_Pool = p, sv_FreeCfg = None, sv_CfgPath = ''config.yaml'',
     sv_cached = [], sv_tasks = [], sv_task = None, sv_log = None\<rparr>"

definition post :: "string \<Rightarrow> request" where
  "post path = \<lparr>rq_Method = ''POST'', rq_Path = path, rq_Query = (\<lambda>k. []), rq_Body = []\<rparr>"

definition put_file :: "string \<Rightarrow> config \<Rightarrow> (string \<rightharpoonup> config) \<Rightarrow> bool \<times> (string \<rightharpoonup> config)" where
  "put_file path d files = (True, files(path \<mapsto> d))"

abbreviation save_run :: "pool \<Rightarrow> response \<times> server \<times> (string \<rightharpoonup> config)" where
  "save_run p \<equiv> handlePoolSave (\<lambda>path files. Load files (\<lambda>d c. Some d) path) (Save Some (\<lambda>_. True) put_file)
     (\<lambda>e. []) [] (post ''/api/pool/save'') (api_server p) [''config.yaml'' \<mapsto> Default]"

lemma example_pool_inv: "pool_inv (example_pool ''hash'')"
  by (simp add: pool_inv_def example_pool_ok known_strategies_def) (simp add: example_pool_def)

lemma saveable_of_entry:
  assumes "entry_ok e" and "pe_Type e = ''direct'' \<Longrightarrow> pe_Name e = ''direct''" and "CHR '':'' \<notin> set (pe_Server e)"
  shows "saveable ((upstream_of_entry e)\<lparr>up_healthy := b\<rparr>)"
proof (cases "pe_Type e = ''direct''")
  case False
  have "JoinHostPort (pe_Server e) (sprint_int (pe_Port e)) = pe_Server e @ '':'' @ itoa (nat (pe_Port e))"
    using assms(1,3) False by (auto simp: JoinHostPort_def sprint_int_def entry_ok_def)
  then show ?thesis
    using assms(1,3) False unfolding saveable_def entry_ok_def upstream_of_entry_def
    by (auto intro!: exI [of _ "pe_Server e"] exI [of _ "nat (pe_Port e)"])
qed (use assms in \<open>simp add: saveable_def upstream_of_entry_def\<close>)

lemma example_objects:
  "p_obj (example_pool st) 0 = (upstream_of_entry (example_entries ! 0))\<lparr>up_healthy := True\<rparr>"
  "p_obj (example_pool st) (Suc 0) = (upstream_of_entry (example_entries ! 1))\<lparr>up_healthy := True\<rparr>"
  "p_obj (example_pool st) 2 = (upstream_of_entry (example_entries ! 2))\<lparr>up_healthy := True\<rparr>"
  by (simp_all add: example_pool_def Pool_New_def example_entries_def pool_append_def new_upstream_def
      empty_pool_def Let_def SetHealthy_def)

lemma example_saveable: "\<forall>r \<in> set (p_all (example_pool st)). saveable (p_obj (example_pool st) r)"
proof -
  have "saveable ((upstream_of_entry e)\<lparr>up_healthy := True\<rparr>)" if "e \<in> set example_entries" for e
    by (rule saveable_of_entry) (use that in \<open>auto simp: example_entries_def direct_entry_def entry_ok_def\<close>)
  from this [of "example_entries ! 0"] this [of "example_entries ! 1"] this [of "example_entries ! 2"]
  have "saveable (p_obj (example_pool st) 0)" "saveable (p_obj (example_pool st) (Suc 0))"
    "saveable (p_obj (example_pool st) 2)"
    unfolding example_objects by (simp_all add: example_entries_def)
  then show ?thesis by (simp add: example_pool_simps)
qed


text \<open>
  Every direct upstream is saved under the name ``direct''. So a valid configuration with a
  direct upstream of another name next to the usual one is saved, with the answer 200, as a file that no longer loads:
  the name comes twice.
\<close>

definition two_direct :: config where
  "two_direct = Default\<lparr>cfg_Pool := \<lparr>pc_Strategy = ''random'', pc_HealthCheck = False,
     pc_Proxies = [direct_entry, direct_entry\<lparr>pe_Name := ''local''\<rparr>]\<rparr>\<rparr>"

theorem pool_save_two_directs:
  "Validate two_direct = (None, two_direct) \<and>
   (case save_run (Pool_New (cfg_Pool two_direct)) of (resp, _, files) \<Rightarrow>
      rs_Code resp = 200 \<and> Load files (\<lambda>d c. Some d) ''config.yaml'' = Inl (DuplicateName 1 ''direct''))"
proof -
  have v: "Validate two_direct = (None, two_direct)" by code_simp
  have d: "Validate Default = (None, Default)" by code_simp
  let ?p = "Pool_New (cfg_Pool two_direct)"
  have all: "map (\<lambda>r. saved_entry (p_obj ?p r)) (p_all ?p) = [direct_entry, direct_entry]" "p_strategy ?p = ''random''"
    by (simp_all add: two_direct_def Pool_New_def pool_append_def new_upstream_def empty_pool_def Let_def
        SetHealthy_def saved_entry_def upstream_of_entry_def direct_entry_def)
  have e: "fst (Validate (saved_config ?p Default)) = Some (DuplicateName 1 ''direct'')"
    using all by (simp add: Validate_def Let_def known_strategies_def check_entry_def direct_entry_def)
  then have l: "Load (\<lambda>path. Some (saved_config ?p Default)) (\<lambda>d c. Some d) ''config.yaml'' =
      Inl (DuplicateName 1 ''direct'')"
    by (cases "Validate (saved_config ?p Default)") (simp add: Load_def)
  have "save_run ?p = (writeJSON 200 (JObj [(''ok'', JBool True)]), snd (save_run ?p)) \<and>
      snd (snd (save_run ?p)) ''config.yaml'' = Some (saved_config ?p Default)"
    by (simp add: handlePoolSave_def post_def api_server_def Load_def Save_def put_file_def d)
  with l v show ?thesis by (auto simp: writeJSON_def Load_def split: prod.splits)
qed

definition ipv6_entry :: proxy_entry where
  "ipv6_entry = \<lparr>pe_Name = ''six'', pe_Type = ''http'', pe_Server = ''::1'', pe_Port = 3128,
     pe_Username = [], pe_Password = []\<rparr>"

text \<open>
  The host of a saved address is what stands before the last colon, brackets included. So an
  IPv6 upstream, which is built with the address in brackets, comes back from the file with two
  pairs of brackets, an address that cannot be dialled.
\<close>

theorem pool_save_breaks_ipv6:
  "entry_ok ipv6_entry \<and> up_Addr (upstream_of_entry ipv6_entry) = ''[::1]:3128'' \<and>
   SplitHostPort (up_Addr (upstream_of_entry ipv6_entry)) = Inr (''::1'', ''3128'') \<and>
   up_Addr (upstream_of_entry (saved_entry (upstream_of_entry ipv6_entry))) = ''[[::1]]:3128'' \<and>
   SplitHostPort (up_Addr (upstream_of_entry (saved_entry (upstream_of_entry ipv6_entry)))) = Inl MissingPort"
proof -
  have a: "up_Addr (upstream_of_entry ipv6_entry) = ''[::1]:3128''"
    by (simp add: upstream_of_entry_def ipv6_entry_def sprint_int_def JoinHostPort_def itoa_ports)
  have n: "netSplitHostPort ''[::1]:3128'' = Some (''[::1]'', ''3128'')" "scan_int ''3128'' = Some 3128" by code_simp+
  have t: "up_Type (upstream_of_entry ipv6_entry) = ''http''" by (simp add: upstream_of_entry_def ipv6_entry_def)
  have b: "up_Addr (upstream_of_entry (saved_entry (upstream_of_entry ipv6_entry))) = ''[[::1]]:3128''"
    unfolding saved_entry_def a by (simp add: n t upstream_of_entry_def [of "pe\<lparr>pe_Name := x\<rparr>" for pe x])
      (simp add: upstream_of_entry_def ipv6_entry_def sprint_int_def JoinHostPort_def itoa_ports)
  have "SplitHostPort ''[::1]:3128'' = Inr (''::1'', ''3128'')" "SplitHostPort ''[[::1]]:3128'' = Inl MissingPort"
    by code_simp+
  with a b show ?thesis by (simp add: entry_ok_def ipv6_entry_def)
qed

section \<open>Adding proxies\<close>

text \<open>What one proxy of the list adds, as the snapshot shows it.\<close>

definition added_view :: "string \<Rightarrow> string \<Rightarrow> string \<Rightarrow> upstream_view" where
  "added_view n addr typ = \<lparr>v_Name = n, v_Type = typ, v_Addr = addr, v_Healthy = True\<rparr>"

lemma Pool_Add_Inl: "Pool_Add r p = (Some e, q) \<Longrightarrow> q = p"
  by (auto simp: Pool_Add_def Let_def split: option.splits)

lemma Pool_Add_None:
  assumes "pool_ok p" and "r < p_next p" and "r \<notin> set (p_all p)" and "Pool_Add r p = (None, q)"
  shows "Pool_Snapshot q = Pool_Snapshot p @ [(view_of (p_obj p r))\<lparr>v_Healthy := True\<rparr>]"
  using Pool_Add_snapshot [OF assms(1-3)] assms(4) by (auto split: if_splits)

lemma rename_Snapshot:
  "r \<notin> set (p_all p) \<Longrightarrow> Pool_Snapshot (rename_upstream r n p) = Pool_Snapshot p"
  by (auto simp: Pool_Snapshot_eq rename_upstream_def)

lemma add_named_spec:
  assumes inv: "pool_inv p" and run: "add_named pfx nano addr typ p = (b, q)"
  shows "pool_inv q \<and> (\<exists>n. Pool_Snapshot q = Pool_Snapshot p @ (if b then [added_view n addr typ] else []))"
proof -
  let ?name = "pfx @ ''-'' @ typ @ ''-'' @ replace_colon addr"
  let ?u = "\<lparr>up_Name = ?name, up_Type = typ, up_Addr = addr, up_Username = [], up_Password = [], up_healthy = False\<rparr>"
  let ?name' = "?name @ ''-'' @ sprint_int (nano mod 1000)"
  obtain r p1 where new: "new_upstream ?u p = (r, p1)" by fastforce
  have ok: "pool_ok p" using inv by (simp add: pool_inv_def)
  note n = new_upstream_ok [OF ok new]
  obtain e p2 where a: "Pool_Add r p1 = (e, p2)" by (cases "Pool_Add r p1")
  have inv2: "pool_inv p2" using pool_inv_step [OF step_add [OF new] inv] a by simp
  show ?thesis
  proof (cases e)
    case None
    then have "b" "q = p2" using run new a by (auto simp: add_named_def Let_def)
    with Pool_Add_None [OF n(1,3,4), of p2] a None n(5,6) inv2 show ?thesis
      by (auto simp: view_of_def added_view_def)
  next
    case (Some e1)
    with Pool_Add_Inl a have p2: "p2 = p1" by simp
    let ?p3 = "rename_upstream r ?name' p1"
    note n3 = rename_upstream_ok [OF n(1,3,4), of ?name']
    obtain e2 p4 where a4: "Pool_Add r ?p3 = (e2, p4)" by (cases "Pool_Add r ?p3")
    have q: "q = p4" "b = (e2 = None)"
      using run new a Some a4 p2 by (auto simp: add_named_def Let_def split: option.splits)
    have inv4: "pool_inv p4"
      using pool_inv_step [OF step_retry [OF new, of e1 p1 ?name'] inv] a Some p2 a4 by simp
    have snap3: "Pool_Snapshot ?p3 = Pool_Snapshot p" using rename_Snapshot [OF n(4)] n(6) by simp
    show ?thesis
    proof (cases e2)
      case None
      with Pool_Add_None [OF n3, of p4] a4 q inv4 snap3 n(5) show ?thesis
        by (auto simp: view_of_def added_view_def rename_upstream_def)
    next
      case (Some e3)
      with Pool_Add_Inl a4 have "p4 = ?p3" by simp
      with q Some inv4 snap3 show ?thesis by simp
    qed
  qed
qed

lemma add_all_spec:
  "pool_inv p \<Longrightarrow> add_all pfx nanos ps k p = (added, q) \<Longrightarrow>
   pool_inv q \<and> (\<exists>vs. Pool_Snapshot q = Pool_Snapshot p @ vs \<and> added = k + length vs \<and>
     (\<forall>v \<in> set vs. v_Healthy v) \<and> subseq (map (\<lambda>v. (v_Addr v, v_Type v)) vs) ps)"
proof (induction pfx nanos ps k p rule: add_all.induct)
  case (2 pfx nanos addr ty rest k p)
  obtain b p1 where a: "add_named pfx (nanos 0) addr ty p = (b, p1)"
    by (cases "add_named pfx (nanos 0) addr ty p")
  from add_named_spec [OF "2.prems"(1) a] obtain n where p1: "pool_inv p1"
    "Pool_Snapshot p1 = Pool_Snapshot p @ (if b then [added_view n addr ty] else [])" by blast
  have "add_all pfx (\<lambda>i. nanos (Suc i)) rest (if b then k + 1 else k) p1 = (added, q)"
    using "2.prems"(2) a by simp
  from "2.IH" [OF a [symmetric] p1(1) this] obtain vs where vs: "pool_inv q"
    "Pool_Snapshot q = Pool_Snapshot p1 @ vs" "added = (if b then k + 1 else k) + length vs"
    "\<forall>v \<in> set vs. v_Healthy v" "subseq (map (\<lambda>v. (v_Addr v, v_Type v)) vs) rest" by blast
  show ?case
    using vs p1 by (intro conjI exI [of _ "(if b then [added_view n addr ty] else []) @ vs"])
      (auto simp: added_view_def)
qed auto

text \<open>
  Adding a list of proxies keeps the pool consistent, leaves the upstreams that were
  there, and appends, healthy and in order, some of those asked for; the number it answers is the
  number of upstreams that were added.
\<close>

theorem pool_add_appends:
  assumes "pool_inv (sv_Pool s)" and "rq_Method r = ''POST''" and "decode (rq_Body r) = Some proxies"
    and "handlePoolAdd decode nanos now r s = (resp, s')"
  shows "pool_inv (sv_Pool s') \<and>
    (\<exists>vs. Pool_Snapshot (sv_Pool s') = Pool_Snapshot (sv_Pool s) @ vs \<and>
       resp = writeJSON 200 (JObj [(''added'', JNum (int (length vs)))]) \<and> (\<forall>v \<in> set vs. v_Healthy v) \<and>
       subseq (map (\<lambda>v. (v_Addr v, v_Type v)) vs) proxies)"
proof -
  obtain k p where a: "add_all ''free'' nanos proxies 0 (sv_Pool s) = (k, p)"
    by (cases "add_all ''free'' nanos proxies 0 (sv_Pool s)")
  with assms have "sv_Pool s' = p" "resp = writeJSON 200 (JObj [(''added'', JNum (int k))])"
    by (auto simp: handlePoolAdd_def Let_def log_info_def)
  with add_all_spec [OF assms(1) a] show ?thesis by auto
qed

lemma pool_add_appends_witness:
  "pool_inv (sv_Pool (snd (handlePoolAdd (\<lambda>b. Some [(''10.0.0.9:21'', ''ftp'')]) (\<lambda>i. 7) []
     (post ''/api/pool/add'') (api_server (example_pool ''hash'')))))"
proof -
  let ?h = "handlePoolAdd (\<lambda>b. Some [(''10.0.0.9:21'', ''ftp'')]) (\<lambda>i. 7) [] (post ''/api/pool/add'')
     (api_server (example_pool ''hash''))"
  have "?h = (fst ?h, snd ?h)" by simp
  from pool_add_appends [OF _ _ _ this, of "[(''10.0.0.9:21'', ''ftp'')]"] example_pool_inv
  show ?thesis by (simp add: api_server_def post_def)
qed

text \<open>
  The type of an added proxy is not looked at. One of an unknown type is accepted as
  added, no dial through it can succeed, and a pool with it is saved as a file that no longer loads.
\<close>

theorem pool_add_unknown_type:
  "(case handlePoolAdd (\<lambda>b. Some [(''10.0.0.9:21'', ''ftp'')]) nanos now (post ''/api/pool/add'')
      (api_server (Pool_New (cfg_Pool Default))) of (resp, s) \<Rightarrow>
     resp = writeJSON 200 (JObj [(''added'', JNum 1)]) \<and>
     fst (Validate (saved_config (sv_Pool s) Default)) =
       Some (BadType 1 ''free-ftp-10.0.0.9-21'' ''ftp'') \<and>
     (\<forall>host port w. Dial (Some (p_obj (sv_Pool s) 1)) host port w = (Inl (UnsupportedType ''ftp''), w)))"
proof -
  have n: "netSplitHostPort ''10.0.0.9:21'' = Some (''10.0.0.9'', ''21'')" "scan_int ''21'' = Some 21"
    "replace_colon ''10.0.0.9:21'' = ''10.0.0.9-21''" by code_simp+
  show ?thesis
    by (simp add: handlePoolAdd_def post_def api_server_def add_named_def new_upstream_def Pool_Add_def
        Pool_New_def Default_def pool_append_def empty_pool_def SetHealthy_def Let_def direct_entry_def
        upstream_of_entry_def log_info_def n Validate_def known_strategies_def check_entry_def
        saved_entry_def Dial_def)
qed

section \<open>Routes\<close>

text \<open>
  The item route gets every upstream name that has no slash, except those the longer
  patterns take: an upstream called fetch, validate, dynamic or auto-pool cannot be removed over the
  API, its requests go to the handlers of that name.
\<close>

theorem Handler_proxy_item:
  assumes "name \<noteq> []" and "CHR ''/'' \<notin> set name"
  shows "Handler (''/api/proxies/'' @ name) =
    Some (if name = ''fetch'' then Fetch else if name = ''validate'' then ValidateStart
          else if name = ''dynamic'' then Dynamic else if name = ''auto-pool'' then AutoPool else ProxyItem)"
proof -
  have v: "\<not> has_prefix ''validate/'' name" using assms(2) by (auto simp: has_prefix_iff)
  have pre: "has_prefix (''/api/proxies/'' @ x) (''/api/proxies/'' @ name) = has_prefix x name" for x
    by (simp add: has_prefix_def)
  have "has_prefix ''/api/proxies/validate/'' (''/api/proxies/'' @ name) = has_prefix ''validate/'' name"
    using pre [of "''validate/''"] by simp
  with v assms(1) show ?thesis
    by (auto simp: Handler_def routes_def pattern_matches_def best_match_def has_prefix_def)
qed

lemma Handler_proxy_item_witness:
  "Handler ''/api/proxies/dynamic'' = Some Dynamic \<and> Handler ''/api/proxies/us-1'' = Some ProxyItem"
  using Handler_proxy_item [of "''dynamic''"] Handler_proxy_item [of "''us-1''"] by simp

end
