(* ===== verification/ApiStatus.thy ===== *)
theory ApiStatus
  imports Api
begin

text \<open>
  Properties of the handlers that close connections and report: closing one connection,
  the totals of the statistics, and the polling of a validation through the two handlers and the
  machine between them.
\<close>

section \<open>Closing one connection\<close>

lemma trim_item [simp]:
  assumes "i \<noteq> []" and "CHR ''/'' \<notin> set i" and "rq_Path r = p @ i"
  shows "item_of p r = Some i"
  using assms by (simp add: item_of_def)

text \<open>
  Deleting a connection by its identifier never panics. If the identifier is
  registered, that connection is closed and no other is, and the answer says so; otherwise
  nothing changes. The registry is left as it is, in any order of the map.
\<close>

theorem delete_connection:
  assumes ok: "cm_ok (sv_Cm s)" and order: "distinct order" "set order = dom (m_entries (sv_Cm s))"
    and i: "i \<noteq> []" "CHR ''/'' \<notin> set i" and r: "rq_Path r = ''/api/connections/'' @ i" "rq_Method r = ''DELETE''"
  shows "\<exists>s'. handleConnectionItem order r s =
      Inr (writeJSON 200 (JObj [(''closed'', JBool (Manager_Get i (sv_Cm s) \<noteq> None))]), s') \<and>
    (\<forall>e. Closed e (sv_Cm s') \<longleftrightarrow> Closed e (sv_Cm s) \<or> Manager_Get i (sv_Cm s) = Some e) \<and>
    (\<forall>k. Manager_Get k (sv_Cm s') = Manager_Get k (sv_Cm s))"
proof -
  note snap = Snapshot_complete [OF ok order]
  have item: "item_of ''/api/connections/'' r = Some i" using i r(1) by (rule trim_item)
  show ?thesis
  proof (cases "Manager_Get i (sv_Cm s)")
    case None
    then have "i \<notin> set order" using order(2) by (simp add: Manager_Get_def domIff)
    then have "i \<notin> w_ID ` set (Manager_Snapshot order (sv_Cm s))" using snap by (metis set_map)
    then have "find (\<lambda>v. w_ID v = i) (Manager_Snapshot order (sv_Cm s)) = None" by (auto simp: find_None_iff)
    with None item r(2) show ?thesis by (simp add: handleConnectionItem_def)
  next
    case (Some e)
    then have "i \<in> set order" using order(2) by (simp add: Manager_Get_def domIff)
    then have "i \<in> w_ID ` set (Manager_Snapshot order (sv_Cm s))" using snap by (metis set_map)
    then obtain v where v: "find (\<lambda>v. w_ID v = i) (Manager_Snapshot order (sv_Cm s)) = Some v"
      by (cases "find (\<lambda>v. w_ID v = i) (Manager_Snapshot order (sv_Cm s))") (auto simp: find_None_iff)
    have m: "m_entries (sv_Cm s) i = Some e" using Some by (simp add: Manager_Get_def)
    have "Entry_Close e (sv_Cm s) = Inr (mark_closed e (sv_Cm s))"
      using Entry_Close_eq cm_okD(4) [OF ok m] ok by (simp add: cm_ok_def)
    with Some item r(2) v show ?thesis by (simp add: handleConnectionItem_def Closed_def Manager_Get_def)
  qed
qed

definition status_server :: "manager \<Rightarrow> server" where
  "status_server m = \<lparr>sv_Cm = m, sv_Pool = empty_pool ''random'', sv_FreeCfg = Some (cfg_FreeProxy Default),
     sv_CfgPath = [], sv_cached = [found ''a'' ''10.0.0.1:80'', found ''b'' ''10.0.0.2:80''], sv_tasks = [], sv_task = None,
     sv_log = None\<rparr>"

definition req :: "string \<Rightarrow> string \<Rightarrow> request" where
  "req method path = \<lparr>rq_Method = method, rq_Path = path, rq_Query = (\<lambda>k. []), rq_Body = []\<rparr>"

lemma delete_connection_witness:
  "\<exists>s'. handleConnectionItem [''c1''] (req ''DELETE'' ''/api/connections/c1'') (status_server example_manager) =
      Inr (writeJSON 200 (JObj [(''closed'', JBool True)]), s') \<and> Closed 0 (sv_Cm s')"
proof -
  have "set [''c1''] = dom (m_entries (sv_Cm (status_server example_manager)))"
    using example_manager_simps by (simp add: status_server_def)
  from delete_connection [OF _ _ this, of "''c1''" "req ''DELETE'' ''/api/connections/c1''"]
  show ?thesis
    using example_manager_ok example_manager_simps
    by (auto simp: status_server_def req_def Manager_Get_def)
qed

section \<open>Statistics\<close>

lemma foldl_sum:
  "foldl (\<lambda>n e. n + f e) (a :: 'a :: comm_monoid_add) xs = a + sum_list (map f xs)"
  by (induction xs arbitrary: a) (simp_all add: ac_simps)

text \<open>
  The totals are the sums of the counters of the registered connections in 64 bits,
  the same for every order of the map; the number of active connections is the size of the registry.
\<close>

theorem stats_totals:
  assumes ok: "cm_ok (sv_Cm s)" and order: "distinct order" "set order = dom (m_entries (sv_Cm s))"
    and r: "rq_Method r = ''GET''"
  shows "handleStats order r s =
    writeJSON 200 (JObj
      [(''active'', JNum (int (card (dom (m_entries (sv_Cm s)))))),
       (''upload'', JNum (sint (\<Sum>i \<in> dom (m_entries (sv_Cm s)). e_Upload (m_obj (sv_Cm s) (the (m_entries (sv_Cm s) i)))))),
       (''download'', JNum (sint (\<Sum>i \<in> dom (m_entries (sv_Cm s)). e_Download (m_obj (sv_Cm s) (the (m_entries (sv_Cm s) i)))))),
       (''strategy'', JStr (Strategy (sv_Pool s))), (''pinned_name'', JStr (PinnedName (sv_Pool s))),
       (''proxy_count'', JNum (int (length (Pool_Snapshot (sv_Pool s)))))])"
proof -
  let ?m = "sv_Cm s"
  let ?snap = "Manager_Snapshot order ?m"
  have c: "collect order ?m = map (\<lambda>i. the (m_entries ?m i)) order"
  proof -
    have "map the (map Some (collect order ?m)) = map the (map (m_entries ?m) order)"
      using collect_full [OF order] by (simp only:)
    then show ?thesis by (simp add: comp_def)
  qed
  have len: "length ?snap = card (dom (m_entries ?m))"
    using distinct_card [OF order(1)] order(2) by (simp add: Manager_Snapshot_def c)
  have tot: "sum_list (map f (map (\<lambda>r. view_entry (m_obj ?m r)) (collect order ?m))) =
      (\<Sum>i \<in> dom (m_entries ?m). f (view_entry (m_obj ?m (the (m_entries ?m i)))))" for f :: "view \<Rightarrow> i64"
    unfolding c using sum_list_distinct_conv_sum_set [OF order(1)] order(2) by (simp add: comp_def)
  have "word_of_int (w_Upload (view_entry e)) = e_Upload e" "word_of_int (w_Download (view_entry e)) = e_Download e" for e
    by (simp_all add: view_entry_def)
  then have up: "foldl (\<lambda>n e. n + word_of_int (w_Upload e)) (0 :: i64) ?snap =
      (\<Sum>i \<in> dom (m_entries ?m). e_Upload (m_obj ?m (the (m_entries ?m i))))"
    and down: "foldl (\<lambda>n e. n + word_of_int (w_Download e)) (0 :: i64) ?snap =
      (\<Sum>i \<in> dom (m_entries ?m). e_Download (m_obj ?m (the (m_entries ?m i))))"
    unfolding foldl_sum Manager_Snapshot_def tot by simp_all
  show ?thesis using r by (simp add: handleStats_def stats_report_def len up down)
qed

lemma stats_totals_witness:
  "handleStats [''c1''] (req ''GET'' ''/api/stats'') (status_server example_manager) =
    writeJSON 200 (JObj
      [(''active'', JNum 1), (''upload'', JNum 0), (''download'', JNum 0), (''strategy'', JStr ''random''),
       (''pinned_name'', JStr []), (''proxy_count'', JNum 0)])"
proof -
  have d: "set [''c1''] = dom (m_entries (sv_Cm (status_server example_manager)))"
    using example_manager_simps by (simp add: status_server_def)
  have "cm_ok (sv_Cm (status_server example_manager))" using example_manager_ok by (simp add: status_server_def)
  moreover have "e_Upload (m_obj example_manager 0) = 0" "e_Download (m_obj example_manager 0) = 0"
    by (simp_all add: example_manager_def example_entry_def Register_def new_entry_def NewManager_def
        update_entry_def zero_entry_def Let_def)
  ultimately show ?thesis
    using example_manager_simps stats_totals [OF _ _ d, of "req ''GET'' ''/api/stats''"]
    by (simp add: status_server_def req_def Strategy_def PinnedName_def empty_pool_def Pool_Snapshot_def
        Pool_List_def)
qed

section \<open>Polling a validation\<close>

lemma poll_task:
  assumes "sv_task s = Some i" and "sv_tasks s ! i = (tid, v, t)" and "tid \<noteq> []"
  shows "handleValidateProgress (req ''GET'' (''/api/proxies/validate/'' @ tid)) s =
    writeJSON 200 (JObj [(''task_id'', JStr tid), (''total'', JNum (int (vt_Total t))),
      (''done'', JNum (int (vt_Done t))), (''valid'', JNum (int (vt_Valid t))),
      (''running'', JBool (vt_Running t)), (''results'', JResults (Snapshot t))])"
proof -
  have "rq_Path (req m p) = p" for m p by (simp add: req_def)
  then show ?thesis
    unfolding handleValidateProgress_def task_report_def Let_def by (simp only: trim_prefix_append assms option.case prod.case if_False refl simp_thms)
qed

text \<open>
  The client that started a validation and polls it after it has returned sees it not
  running, all proxies done, and as many valid as there are results; the results are the
  verdicts that pass, each once.
\<close>

theorem poll_after_return:
  assumes task: "sv_task s = Some i" "sv_tasks s ! i = (tid, v, t)" and tid: "tid \<noteq> []"
    and run: "validating v t" "va_tracked v" "vt_main t = Returned"
  shows "\<exists>results. mset results = mset (filter vr_Valid (map (result_of v) [0..<length (va_entries v)])) \<and>
    handleValidateProgress (req ''GET'' (''/api/proxies/validate/'' @ tid)) s =
      writeJSON 200 (JObj [(''task_id'', JStr tid), (''total'', JNum (int (length (va_entries v)))),
        (''done'', JNum (int (length (va_entries v)))), (''valid'', JNum (int (length results))),
        (''running'', JBool False), (''results'', JResults results)])"
proof -
  note end_state = validation_results [OF run(1,3)]
  have "mset (Snapshot t) = mset (filter vr_Valid (map (result_of v) [0..<length (va_entries v)]))"
    using end_state by (simp add: Snapshot_def)
  moreover have "vt_Total t = length (va_entries v)" "vt_Done t = length (va_entries v)" "\<not> vt_Running t"
    "vt_Valid t = length (Snapshot t)" using end_state run(2) by simp_all
  ultimately show ?thesis using poll_task [OF task tid] by (intro exI [of _ "Snapshot t"]) simp
qed

lemma poll_after_return_witness:
  "\<exists>results. handleValidateProgress (req ''GET'' ''/api/proxies/validate/t1'')
      ((status_server NewManager)\<lparr>sv_tasks := [(''t1'', two_proxies, all_done)], sv_task := Some 0\<rparr>) =
    writeJSON 200 (JObj [(''task_id'', JStr ''t1''), (''total'', JNum 2), (''done'', JNum 2),
      (''valid'', JNum (int (length results))), (''running'', JBool False), (''results'', JResults results)])"
proof -
  have "va_tracked two_proxies" "vt_main all_done = Returned" "length (va_entries two_proxies) = 2" by code_simp+
  with poll_after_return [of "(status_server NewManager)\<lparr>sv_tasks := [(''t1'', two_proxies, all_done)], sv_task := Some 0\<rparr>"
      0 "''t1''" two_proxies all_done] example_runs(2)
  show ?thesis by auto
qed

text \<open>
  A poll can come before the goroutine has set its task up: the handler has answered
  with the number of proxies, and the poll reports a task that is not running, with a
  total of zero, as one that is over.
\<close>

theorem poll_before_start:
  assumes "rq_Method r = ''POST''" and "freeproxy_on s = Some cfg" and "sv_cached s \<noteq> []"
    and "handleValidate validation nano now r s = (resp, s')"
  shows "resp = writeJSON 200 (JObj [(''task_id'', JStr (task_id nano)),
      (''total'', JNum (int (length (sv_cached s))))]) \<and>
    handleValidateProgress (req ''GET'' (''/api/proxies/validate/'' @ task_id nano)) s' =
      writeJSON 200 (JObj [(''task_id'', JStr (task_id nano)), (''total'', JNum 0), (''done'', JNum 0),
        (''valid'', JNum 0), (''running'', JBool False), (''results'', JResults [])])"
proof -
  have r: "resp = writeJSON 200 (JObj [(''task_id'', JStr (task_id nano)),
      (''total'', JNum (int (length (sv_cached s))))])"
    and t: "\<exists>i v. sv_task s' = Some i \<and> sv_tasks s' ! i = (task_id nano, v, new_task)"
    using assms by (auto simp: handleValidate_def validate_report_def Let_def log_info_def publish_task_def)
  from t obtain i v where "sv_task s' = Some i" "sv_tasks s' ! i = (task_id nano, v, new_task)" by blast
  with poll_task [OF this] r show ?thesis by (simp add: task_id_def new_task_def Snapshot_def)
qed

lemma poll_before_start_witness:
  "handleValidateProgress (req ''GET'' (''/api/proxies/validate/'' @ task_id 7))
     (snd (handleValidate (\<lambda>u t c es. two_proxies) 7 [] (req ''POST'' ''/api/proxies/validate'')
        (status_server NewManager))) =
   writeJSON 200 (JObj [(''task_id'', JStr (task_id 7)), (''total'', JNum 0), (''done'', JNum 0),
     (''valid'', JNum 0), (''running'', JBool False), (''results'', JResults [])])"
proof -
  let ?h = "handleValidate (\<lambda>u t c es. two_proxies) 7 [] (req ''POST'' ''/api/proxies/validate'')
        (status_server NewManager)"
  have "?h = (fst ?h, snd ?h)" by simp
  from poll_before_start [OF _ _ _ this, of "cfg_FreeProxy Default"] show ?thesis
    by (simp add: req_def status_server_def freeproxy_on_def Default_def)
qed

end
