(* ===== verification/DynamicLoop.thy ===== *)
theory DynamicLoop
  imports ApiPool ApiStatus
begin

text \<open>
  The dynamic loop (\<open>internal/api/api.go\<close>, from \<open>CycleResult\<close> to \<open>runDynamicCycle\<close>): the
  handlers that start, stop and configure it, and its goroutines, step by step. A runner that has
  been replaced lives on in its goroutine, so the runners are a store and the server
  points at the current one. Times are left out of the cycle results.
\<close>

section \<open>State\<close>

record cycle_result =
  cy_Fetched :: nat
  cy_Valid :: nat
  cy_Added :: nat
  cy_Error :: string

text \<open>Where the goroutine of a runner stands, with the locals it still needs.\<close>

datatype loop_phase =
    LoopStart
  | CycleStart
  | Fetching
  | Fetched crawl_result
  | Validating crawl_result
  | Validated nat "validate_result list"
  | Deciding nat "validate_result list"
  | Adding nat nat "validate_result list" nat
  | Finishing cycle_result
  | Idle
  | LoopDone

record runner =
  rn_Enabled :: bool
  rn_Running :: bool
  rn_Interval :: int
  rn_AutoPool :: bool
  rn_LastRun :: "cycle_result option"
  rn_TaskID :: string
  rn_cancelled :: bool
  rn_phase :: loop_phase

record dyn =
  dy_runners :: "runner list"
  dy_current :: "nat option"
  dy_pool :: pool
  dy_cached :: "free_entry list"

definition new_runner :: "int \<Rightarrow> runner" where
  "new_runner interval = \<lparr>rn_Enabled = True, rn_Running = False, rn_Interval = interval, rn_AutoPool = False,
     rn_LastRun = None, rn_TaskID = [], rn_cancelled = False, rn_phase = LoopStart\<rparr>"

definition update_runner :: "nat \<Rightarrow> (runner \<Rightarrow> runner) \<Rightarrow> dyn \<Rightarrow> dyn" where
  "update_runner i f d = d\<lparr>dy_runners := (dy_runners d)[i := f (dy_runners d ! i)]\<rparr>"

definition cancel_runner :: "runner \<Rightarrow> runner" where
  "cancel_runner r = r\<lparr>rn_cancelled := True, rn_Enabled := False, rn_Running := False\<rparr>"

section \<open>The handlers\<close>

definition start_interval :: "int \<Rightarrow> int" where
  "start_interval interval = (if interval < 10 then 30 else interval)"

definition dynamic_start :: "int \<Rightarrow> dyn \<Rightarrow> dyn" where
  "dynamic_start interval d =
     (let d1 = (case dy_current d of
                  Some i \<Rightarrow> if rn_Enabled (dy_runners d ! i) then update_runner i cancel_runner d else d
                | None \<Rightarrow> d)
      in d1\<lparr>dy_runners := dy_runners d1 @ [new_runner (start_interval interval)],
            dy_current := Some (length (dy_runners d1))\<rparr>)"

definition dynamic_stop :: "dyn \<Rightarrow> dyn" where
  "dynamic_stop d = (case dy_current d of Some i \<Rightarrow> update_runner i cancel_runner d | None \<Rightarrow> d)"

definition runner_status :: "runner \<Rightarrow> (string \<times> json) list" where
  "runner_status r =
     [(''enabled'', JBool (rn_Enabled r)), (''running'', JBool (rn_Running r)), (''interval'', JNum (rn_Interval r)),
      (''auto_pool'', JBool (rn_AutoPool r)),
      (''last_run'', case rn_LastRun r of
          None \<Rightarrow> JNull
        | Some c \<Rightarrow> JObj ([(''fetched'', JNum (int (cy_Fetched c))), (''valid'', JNum (int (cy_Valid c))),
            (''added'', JNum (int (cy_Added c)))] @
            (if cy_Error c = [] then [] else [(''error'', JStr (cy_Error c))]))),
      (''task_id'', JStr (rn_TaskID r))]"

definition no_runner_status :: "(string \<times> json) list" where
  "no_runner_status =
     [(''enabled'', JBool False), (''running'', JBool False), (''interval'', JNum 0), (''auto_pool'', JBool False)]"

definition dynamic_status :: "dyn \<Rightarrow> (string \<times> json) list" where
  "dynamic_status d =
     (case dy_current d of None \<Rightarrow> no_runner_status | Some i \<Rightarrow> runner_status (dy_runners d ! i))"

text \<open>\<open>decode\<close> gives the action and the interval of the body.\<close>

definition handleDynamic ::
  "(string \<Rightarrow> (string \<times> int) option) \<Rightarrow> free_config option \<Rightarrow> request \<Rightarrow> dyn \<Rightarrow> response \<times> dyn" where
  "handleDynamic decode cfg r d =
     (if rq_Method r = ''GET'' then (writeJSON 200 (JObj (dynamic_status d)), d)
      else if rq_Method r \<noteq> ''POST'' then (method_not_allowed, d)
      else case decode (rq_Body r) of
        None \<Rightarrow> (writeJSON 400 (json_error ''invalid JSON''), d)
      | Some (action, interval) \<Rightarrow>
          if action = ''start'' then
            (if (case cfg of None \<Rightarrow> True | Some c \<Rightarrow> \<not> fc_Enabled c)
             then (writeJSON 400 (json_error ''freeproxy is not enabled''), d)
             else (writeJSON 200 (JObj [(''enabled'', JBool True), (''interval'', JNum (start_interval interval))]),
                   dynamic_start interval d))
          else if action = ''stop'' then (writeJSON 200 (JObj [(''enabled'', JBool False)]), dynamic_stop d)
          else (writeJSON 400 (json_error ''unknown action''), d))"

definition handleAutoPool :: "(string \<Rightarrow> bool option) \<Rightarrow> request \<Rightarrow> dyn \<Rightarrow> response \<times> dyn" where
  "handleAutoPool decode r d =
     (if rq_Method r \<noteq> ''POST'' then (method_not_allowed, d)
      else case decode (rq_Body r) of
        None \<Rightarrow> (writeJSON 400 (json_error ''invalid JSON''), d)
      | Some b \<Rightarrow>
          (writeJSON 200 (JObj [(''auto_pool'', JBool b)]),
           case dy_current d of Some i \<Rightarrow> update_runner i (\<lambda>r. r\<lparr>rn_AutoPool := b\<rparr>) d | None \<Rightarrow> d))"

section \<open>The goroutine\<close>

text \<open>
  The parameters of a cycle, with their defaults. What the tests of the entries say is the
  parameter \<open>validation\<close>.
\<close>

definition cycle_crawl_timeout :: "free_config option \<Rightarrow> int" where
  "cycle_crawl_timeout cfg =
     (case cfg of Some c \<Rightarrow> if fc_CrawlTimeout c > 0 then seconds (fc_CrawlTimeout c) else 30 * second_ns
      | None \<Rightarrow> 30 * second_ns)"

definition cycle_validation ::
  "(string list \<Rightarrow> int \<Rightarrow> int \<Rightarrow> free_entry list \<Rightarrow> validation) \<Rightarrow> free_config option \<Rightarrow> free_entry list \<Rightarrow> validation" where
  "cycle_validation validation cfg entries =
     (let timeout = (case cfg of Some c \<Rightarrow> if fc_Timeout c > 0 then seconds (fc_Timeout c) else 10 * second_ns
                     | None \<Rightarrow> 10 * second_ns);
          concurrency = (case cfg of Some c \<Rightarrow> if fc_Concurrency c > 0 then fc_Concurrency c else 20 | None \<Rightarrow> 20);
          urls = (case cfg of Some c \<Rightarrow> if fc_TestURLs c \<noteq> [] then fc_TestURLs c else [''http://myip.ipip.net'']
                  | None \<Rightarrow> [''http://myip.ipip.net''])
      in (validation urls timeout concurrency entries)
        \<lparr>va_entries := entries, va_concurrency := concurrency, va_tracked := False\<rparr>)"

lemma cycle_entries [simp]: "va_entries (cycle_validation validation cfg entries) = entries"
  by (simp add: cycle_validation_def Let_def)

text \<open>\<open>time.NewTicker\<close> panics on a period that is not positive.\<close>

definition start_ticker :: "int \<Rightarrow> go_panic + int" where
  "start_ticker interval =
     (let period = seconds interval in if period \<le> 0 then Inl NonPositiveTicker else Inr period)"

definition valid_results :: "validate_result list \<Rightarrow> validate_result list" where
  "valid_results rs = filter vr_Valid rs"

text \<open>A cycle ends: its result is stored and the runner is not running.\<close>

definition end_cycle :: "cycle_result \<Rightarrow> runner \<Rightarrow> runner" where
  "end_cycle c r = r\<lparr>rn_LastRun := Some c, rn_Running := False, rn_phase := Idle\<rparr>"

definition cycle_of :: "nat \<Rightarrow> nat \<Rightarrow> nat \<Rightarrow> string \<Rightarrow> cycle_result" where
  "cycle_of fetched valid added err = \<lparr>cy_Fetched = fetched, cy_Valid = valid, cy_Added = added, cy_Error = err\<rparr>"

datatype loop_event =
    StartLoop
  | BeginCycle
  | CrawlDone crawl_result
  | CheckCrawl
  | ValidateDone "validate_result list" int
  | CheckValidate
  | Decide
  | AddNext int
  | EndCycle
  | Tick
  | SeeCancel

text \<open>
  What the goroutine of runner \<open>i\<close> does at an event, if the event fits its phase. The
  results of the crawl and of the validation come with their events; \<open>int\<close> is the clock.
\<close>

definition loop_step :: "loop_event \<Rightarrow> nat \<Rightarrow> dyn \<Rightarrow> (go_panic + dyn) option" where
  "loop_step ev i d =
     (let r = dy_runners d ! i; put = (\<lambda>r'. Some (Inr (update_runner i (\<lambda>_. r') d))) in
      if length (dy_runners d) \<le> i then None
      else case (ev, rn_phase r) of
        (StartLoop, LoopStart) \<Rightarrow>
          (case start_ticker (rn_Interval r) of
             Inl p \<Rightarrow> Some (Inl p)
           | Inr period \<Rightarrow> put (r\<lparr>rn_phase := CycleStart\<rparr>))
      | (BeginCycle, CycleStart) \<Rightarrow> put (r\<lparr>rn_Running := True, rn_phase := Fetching\<rparr>)
      | (CrawlDone res, Fetching) \<Rightarrow>
          Some (Inr ((update_runner i (\<lambda>r. r\<lparr>rn_phase := Fetched res\<rparr>) d)\<lparr>dy_cached := cr_Entries res\<rparr>))
      | (CheckCrawl, Fetched res) \<Rightarrow>
          put (if rn_cancelled r then end_cycle (cycle_of (cr_Total res) 0 0 ''cancelled'') r
               else if cr_Entries res = [] then end_cycle (cycle_of (cr_Total res) 0 0 ''no proxies fetched'') r
               else r\<lparr>rn_phase := Validating res\<rparr>)
      | (ValidateDone rs nano, Validating res) \<Rightarrow>
          put (r\<lparr>rn_TaskID := ''dynamic-'' @ sprint_int nano, rn_phase := Validated (cr_Total res) rs\<rparr>)
      | (CheckValidate, Validated fetched rs) \<Rightarrow>
          put (if rn_cancelled r then end_cycle (cycle_of fetched (length (valid_results rs)) 0 ''cancelled'') r
               else r\<lparr>rn_phase := Deciding fetched rs\<rparr>)
      | (Decide, Deciding fetched rs) \<Rightarrow>
          put (if rn_AutoPool r \<and> valid_results rs \<noteq> []
               then r\<lparr>rn_phase := Adding fetched (length (valid_results rs)) (valid_results rs) 0\<rparr>
               else r\<lparr>rn_phase := Finishing (cycle_of fetched (length (valid_results rs)) 0 [])\<rparr>)
      | (AddNext nano, Adding fetched valid (p # rest) added) \<Rightarrow>
          (case add_named ''dynamic'' nano (vr_Addr p) (vr_Type p) (dy_pool d) of
             (ok, pool) \<Rightarrow>
               Some (Inr ((update_runner i (\<lambda>r. r\<lparr>rn_phase :=
                 Adding fetched valid rest (if ok then added + 1 else added)\<rparr>) d)\<lparr>dy_pool := pool\<rparr>)))
      | (EndCycle, Adding fetched valid [] added) \<Rightarrow> put (end_cycle (cycle_of fetched valid added []) r)
      | (EndCycle, Finishing c) \<Rightarrow> put (end_cycle c r)
      | (Tick, Idle) \<Rightarrow> put (r\<lparr>rn_phase := CycleStart\<rparr>)
      | (SeeCancel, Idle) \<Rightarrow>
          if rn_cancelled r then put (r\<lparr>rn_Running := False, rn_phase := LoopDone\<rparr>) else None
      | _ \<Rightarrow> None)"

text \<open>
  The world: the handlers, the goroutines and the other users of the pool. A crawl is a crawl of the
  built-in sources in some order, and a validation returns what \<open>ValidateBatch\<close> returns for the
  entries of the cycle under some schedule. The two attempts to add one proxy are one step.
\<close>

record cycle_world =
  cw_fetch :: "string \<Rightarrow> int \<Rightarrow> (string \<times> string) list \<Rightarrow> string + string"
  cw_compile :: "string \<Rightarrow> string + finder"
  cw_unmarshal :: "string \<Rightarrow> string + any"
  cw_validation :: "string list \<Rightarrow> int \<Rightarrow> int \<Rightarrow> free_entry list \<Rightarrow> validation"
  cw_cfg :: "free_config option"

definition event_ok :: "cycle_world \<Rightarrow> loop_event \<Rightarrow> loop_phase \<Rightarrow> bool" where
  "event_ok W ev ph =
     (case (ev, ph) of
        (CrawlDone res, _) \<Rightarrow>
          (\<exists>order. mset order = mset (enabled_sources BuiltinSources) \<and>
             Crawl (cw_fetch W) (cw_compile W) (cw_unmarshal W) order (cycle_crawl_timeout (cw_cfg W)) = Inr res)
      | (ValidateDone rs nano, Validating res) \<Rightarrow>
          ValidateBatch (cycle_validation (cw_validation W) (cw_cfg W) (cr_Entries res)) rs
      | _ \<Rightarrow> True)"

inductive dyn_step :: "cycle_world \<Rightarrow> dyn \<Rightarrow> dyn \<Rightarrow> bool" for W where
  dyn_start: "dyn_step W d (dynamic_start interval d)"
| dyn_stop: "dyn_step W d (dynamic_stop d)"
| dyn_auto: "dy_current d = Some i \<Longrightarrow> dyn_step W d (update_runner i (\<lambda>r. r\<lparr>rn_AutoPool := b\<rparr>) d)"
| dyn_pool: "pool_step (dy_pool d) p \<Longrightarrow> dyn_step W d (d\<lparr>dy_pool := p\<rparr>)"
| dyn_loop: "i < length (dy_runners d) \<Longrightarrow> event_ok W ev (rn_phase (dy_runners d ! i)) \<Longrightarrow>
    loop_step ev i d = Some (Inr d') \<Longrightarrow> dyn_step W d d'"

definition dyn_init :: "pool \<Rightarrow> dyn" where
  "dyn_init p = \<lparr>dy_runners = [], dy_current = None, dy_pool = p, dy_cached = []\<rparr>"

section \<open>The invariant\<close>

fun in_cycle :: "loop_phase \<Rightarrow> bool" where
  "in_cycle LoopStart = False" | "in_cycle CycleStart = False" | "in_cycle Idle = False"
| "in_cycle LoopDone = False" | "in_cycle _ = True"

definition cycle_ok :: "cycle_result \<Rightarrow> bool" where
  "cycle_ok c \<longleftrightarrow> cy_Added c \<le> cy_Valid c \<and> cy_Valid c \<le> cy_Fetched c"

fun phase_ok :: "loop_phase \<Rightarrow> bool" where
  "phase_ok (Fetched res) \<longleftrightarrow> cr_Total res = length (cr_Entries res)"
| "phase_ok (Validating res) \<longleftrightarrow> cr_Total res = length (cr_Entries res)"
| "phase_ok (Validated fetched rs) \<longleftrightarrow> length rs = fetched"
| "phase_ok (Deciding fetched rs) \<longleftrightarrow> length rs = fetched"
| "phase_ok (Adding fetched valid rest added) \<longleftrightarrow> added + length rest \<le> valid \<and> valid \<le> fetched"
| "phase_ok (Finishing c) \<longleftrightarrow> cycle_ok c"
| "phase_ok _ \<longleftrightarrow> True"

definition runner_ok :: "runner \<Rightarrow> bool" where
  "runner_ok r \<longleftrightarrow> (rn_Running r \<longrightarrow> in_cycle (rn_phase r)) \<and> phase_ok (rn_phase r) \<and>
     (\<forall>c. rn_LastRun r = Some c \<longrightarrow> cycle_ok c)"

definition dyn_inv :: "dyn \<Rightarrow> bool" where
  "dyn_inv d \<longleftrightarrow> pool_inv (dy_pool d) \<and>
     (\<forall>i. dy_current d = Some i \<longrightarrow> i < length (dy_runners d)) \<and>
     (\<forall>i < length (dy_runners d). runner_ok (dy_runners d ! i) \<and>
        (\<not> rn_cancelled (dy_runners d ! i) \<longrightarrow> dy_current d = Some i \<and> rn_Enabled (dy_runners d ! i)))"

lemma valid_results_length [simp]: "length (valid_results rs) \<le> length rs"
  by (simp add: valid_results_def)

lemma valid_le: "length rs = n \<Longrightarrow> length (valid_results rs) \<le> n"
  using valid_results_length [of rs] by simp

lemma update_runner_simps [simp]:
  "dy_current (update_runner i f d) = dy_current d" "dy_pool (update_runner i f d) = dy_pool d"
  "dy_cached (update_runner i f d) = dy_cached d" "length (dy_runners (update_runner i f d)) = length (dy_runners d)"
  "dy_runners (update_runner i f d) = (dy_runners d)[i := f (dy_runners d ! i)]"
  by (simp_all add: update_runner_def)

text \<open>What the events of the world say of the numbers of a cycle.\<close>

definition event_counts :: "loop_event \<Rightarrow> loop_phase \<Rightarrow> bool" where
  "event_counts ev ph =
     (case (ev, ph) of
        (CrawlDone res, _) \<Rightarrow> cr_Total res = length (cr_Entries res)
      | (ValidateDone rs nano, Validating res) \<Rightarrow> length rs = length (cr_Entries res)
      | _ \<Rightarrow> True)"

lemma length_order: "mset order = mset [0..<n] \<Longrightarrow> length order = n"
  using mset_eq_length [of order "[0..<n]"] by simp

lemma event_ok_counts:
  assumes "event_ok W ev ph"
  shows "event_counts ev ph"
proof (cases ev)
  case (CrawlDone res)
  with assms show ?thesis using Crawl_total by (auto simp: event_ok_def event_counts_def)
next
  case (ValidateDone rs nano)
  then show ?thesis
  proof (cases ph)
    case (Validating res)
    with assms ValidateDone have
      "ValidateBatch (cycle_validation (cw_validation W) (cw_cfg W) (cr_Entries res)) rs"
      by (simp add: event_ok_def)
    then obtain order where "mset order = mset [0..<length (cr_Entries res)]" "length rs = length order"
      by (rule batch_results) simp
    with length_order [OF this(1)] Validating ValidateDone show ?thesis
      by (simp add: event_counts_def)
  qed (simp_all add: event_counts_def)
qed (simp_all add: event_counts_def)

text \<open>A step of a goroutine touches its own runner, keeps it well-formed, and adds to the pool or leaves it.\<close>

lemma loop_step_cases:
  assumes "loop_step ev i d = Some (Inr d')" and "i < length (dy_runners d)"
    and "event_counts ev (rn_phase (dy_runners d ! i))" and "runner_ok (dy_runners d ! i)"
  shows "dy_runners d' = (dy_runners d)[i := dy_runners d' ! i] \<and> dy_current d' = dy_current d \<and>
    runner_ok (dy_runners d' ! i) \<and>
    rn_cancelled (dy_runners d' ! i) = rn_cancelled (dy_runners d ! i) \<and>
    rn_Enabled (dy_runners d' ! i) = rn_Enabled (dy_runners d ! i) \<and>
    (dy_pool d' = dy_pool d \<or>
     (\<exists>nano addr ty. dy_pool d' = snd (add_named ''dynamic'' nano addr ty (dy_pool d))))"
proof -
  let ?r = "dy_runners d ! i"
  show ?thesis
  proof (cases "\<exists>nano. ev = AddNext nano")
    case True
    then obtain nano f v p rest a where ev: "ev = AddNext nano" and ph: "rn_phase ?r = Adding f v (p # rest) a"
      using assms(1,2) by (auto simp: loop_step_def Let_def split: loop_phase.splits list.splits)
    obtain ok q where q: "add_named ''dynamic'' nano (vr_Addr p) (vr_Type p) (dy_pool d) = (ok, q)" by fastforce
    have d': "d' = (update_runner i (\<lambda>r. r\<lparr>rn_phase := Adding f v rest (if ok then a + 1 else a)\<rparr>) d)\<lparr>dy_pool := q\<rparr>"
      using assms(1,2) ev ph q by (simp add: loop_step_def Let_def)
    have "dy_pool d' = snd (add_named ''dynamic'' nano (vr_Addr p) (vr_Type p) (dy_pool d))"
      using q by (simp add: d')
    then have "\<exists>nano addr ty. dy_pool d' = snd (add_named ''dynamic'' nano addr ty (dy_pool d))" by blast
    moreover have "runner_ok (dy_runners d' ! i)" using assms(2,4) ph by (auto simp: d' runner_ok_def)
    ultimately show ?thesis using assms(2) by (simp add: d')
  next
    case False
    with assms show ?thesis
      by (cases ev; cases "rn_phase ?r")
        (auto simp: loop_step_def Let_def event_counts_def runner_ok_def end_cycle_def cycle_of_def cycle_ok_def
          valid_le split: if_splits sum.splits list.splits)
  qed
qed

lemma cancel_runner_simps [simp]:
  "rn_cancelled (cancel_runner r)" "\<not> rn_Enabled (cancel_runner r)" "runner_ok r \<Longrightarrow> runner_ok (cancel_runner r)"
  by (simp_all add: cancel_runner_def runner_ok_def)

lemma runner_ok_new [simp]: "runner_ok (new_runner n)" "rn_Enabled (new_runner n)"
  by (simp_all add: new_runner_def runner_ok_def)

lemma dyn_invD:
  assumes "dyn_inv d"
  shows "pool_inv (dy_pool d)" and "dy_current d = Some i \<Longrightarrow> i < length (dy_runners d)"
    and "i < length (dy_runners d) \<Longrightarrow> runner_ok (dy_runners d ! i)"
    and "i < length (dy_runners d) \<Longrightarrow> \<not> rn_cancelled (dy_runners d ! i) \<Longrightarrow>
      dy_current d = Some i \<and> rn_Enabled (dy_runners d ! i)"
  using assms unfolding dyn_inv_def by blast+

lemma dyn_invI:
  assumes "pool_inv (dy_pool d)" and "\<And>k. dy_current d = Some k \<Longrightarrow> k < length (dy_runners d)"
    and "\<And>j. j < length (dy_runners d) \<Longrightarrow> runner_ok (dy_runners d ! j)"
    and "\<And>j. j < length (dy_runners d) \<Longrightarrow> \<not> rn_cancelled (dy_runners d ! j) \<Longrightarrow>
      dy_current d = Some j \<and> rn_Enabled (dy_runners d ! j)"
  shows "dyn_inv d"
  unfolding dyn_inv_def using assms by blast

lemma dyn_inv_put:
  assumes inv: "dyn_inv d" and i: "i < length (dy_runners d)" and pool: "pool_inv (dy_pool d')"
    and d': "dy_runners d' = (dy_runners d)[i := r]" "dy_current d' = dy_current d"
    and r: "runner_ok r" "\<not> rn_cancelled r \<Longrightarrow> rn_Enabled r \<and> \<not> rn_cancelled (dy_runners d ! i)"
  shows "dyn_inv d'"
proof (rule dyn_invI)
  have nth: "dy_runners d' ! j = (if j = i then r else dy_runners d ! j)" for j
    using i d'(1) by (simp add: nth_list_update)
  have len: "length (dy_runners d') = length (dy_runners d)" by (simp only: d'(1) length_list_update)
  show "k < length (dy_runners d')" if "dy_current d' = Some k" for k
    unfolding len by (rule dyn_invD(2) [OF inv]) (use that in \<open>simp only: d'(2)\<close>)
  show "runner_ok (dy_runners d' ! j)" if "j < length (dy_runners d')" for j
    unfolding nth using dyn_invD(3) [OF inv that [unfolded len]] r(1) by simp
  show "dy_current d' = Some j \<and> rn_Enabled (dy_runners d' ! j)"
    if j: "j < length (dy_runners d')" "\<not> rn_cancelled (dy_runners d' ! j)" for j
  proof (cases "j = i")
    case True
    with j(2) have "\<not> rn_cancelled r" by (simp add: nth)
    from r(2) [OF this] have "rn_Enabled r" "\<not> rn_cancelled (dy_runners d ! i)" by simp_all
    with dyn_invD(4) [OF inv i] True show ?thesis by (simp only: nth d'(2) if_True simp_thms)
  next
    case False
    with j(2) have "\<not> rn_cancelled (dy_runners d ! j)" by (simp add: nth)
    with dyn_invD(4) [OF inv j(1) [unfolded len]] False show ?thesis
      by (simp only: nth d'(2) if_False simp_thms)
  qed
qed (rule pool)

lemma dyn_inv_cancel:
  assumes "dyn_inv d" and "dy_current d = Some i"
  shows "dyn_inv (update_runner i cancel_runner d)"
proof (rule dyn_inv_put [OF assms(1), of i _ "cancel_runner (dy_runners d ! i)"])
  show "i < length (dy_runners d)" by (rule dyn_invD(2) [OF assms])
  then show "runner_ok (cancel_runner (dy_runners d ! i))" using dyn_invD(3) [OF assms(1)] by simp
qed (use dyn_invD(1) [OF assms(1)] in simp_all)

lemma dyn_inv_start: "dyn_inv d \<Longrightarrow> dyn_inv (dynamic_start n d)"
proof -
  assume inv: "dyn_inv d"
  define d1 where "d1 = (case dy_current d of
      Some i \<Rightarrow> if rn_Enabled (dy_runners d ! i) then update_runner i cancel_runner d else d | None \<Rightarrow> d)"
  have d1: "dyn_inv d1" using inv dyn_inv_cancel by (auto simp: d1_def split: option.splits)
  have cur: "\<not> rn_Enabled (dy_runners d1 ! j)" if "dy_current d1 = Some j" for j
  proof (cases "dy_current d")
    case (Some i)
    then show ?thesis
      using that dyn_invD(2) [OF inv Some] by (cases "rn_Enabled (dy_runners d ! i)") (auto simp: d1_def)
  qed (use that in \<open>simp add: d1_def\<close>)
  have canc: "rn_cancelled (dy_runners d1 ! j)" if "j < length (dy_runners d1)" for j
    using dyn_invD(4) [OF d1 that] cur by blast
  have st: "dynamic_start n d = d1\<lparr>dy_runners := dy_runners d1 @ [new_runner (start_interval n)],
      dy_current := Some (length (dy_runners d1))\<rparr>"
    by (simp add: dynamic_start_def d1_def [symmetric] Let_def)
  have "runner_ok (dy_runners (dynamic_start n d) ! j)" if "j < length (dy_runners (dynamic_start n d))" for j
    using that dyn_invD(3) [OF d1, of j] by (cases "j < length (dy_runners d1)") (simp_all add: st nth_append)
  moreover have "dy_current (dynamic_start n d) = Some j \<and> rn_Enabled (dy_runners (dynamic_start n d) ! j)"
    if "j < length (dy_runners (dynamic_start n d))" "\<not> rn_cancelled (dy_runners (dynamic_start n d) ! j)" for j
    using that canc [of j] by (cases "j < length (dy_runners d1)") (simp_all add: st nth_append)
  ultimately show ?thesis using dyn_invD(1) [OF d1] by (simp add: dyn_inv_def) (simp add: st)
qed

lemma dyn_inv_step:
  assumes inv: "dyn_inv d" and st: "dyn_step W d d'"
  shows "dyn_inv d'"
  using st
proof cases
  case (dyn_start interval)
  with inv dyn_inv_start show ?thesis by simp
next
  case dyn_stop
  with inv dyn_inv_cancel show ?thesis by (cases "dy_current d") (simp_all add: dynamic_stop_def)
next
  case (dyn_auto i b)
  have i: "i < length (dy_runners d)" by (rule dyn_invD(2) [OF inv dyn_auto(2)])
  show ?thesis
  proof (rule dyn_inv_put [OF inv i, of d' "(dy_runners d ! i)\<lparr>rn_AutoPool := b\<rparr>"])
    show "runner_ok ((dy_runners d ! i)\<lparr>rn_AutoPool := b\<rparr>)"
      using dyn_invD(3) [OF inv i] by (simp add: runner_ok_def)
    show "rn_Enabled ((dy_runners d ! i)\<lparr>rn_AutoPool := b\<rparr>) \<and> \<not> rn_cancelled (dy_runners d ! i)"
      if "\<not> rn_cancelled ((dy_runners d ! i)\<lparr>rn_AutoPool := b\<rparr>)"
      using that dyn_invD(4) [OF inv i] by simp
  qed (use dyn_invD(1) [OF inv] dyn_auto(1) in simp_all)
next
  case (dyn_pool p)
  show ?thesis unfolding dyn_pool(1)
    by (rule dyn_invI; simp) (use pool_inv_step [OF dyn_pool(2) dyn_invD(1) [OF inv]] dyn_invD(2-4) [OF inv] in blast)+
next
  case (dyn_loop i ev)
  let ?r = "dy_runners d' ! i"
  note step = loop_step_cases [OF dyn_loop(3,1) event_ok_counts [OF dyn_loop(2)] dyn_invD(3) [OF inv dyn_loop(1)]]
  have r': "dy_runners d' = (dy_runners d)[i := ?r]" "dy_current d' = dy_current d" "runner_ok ?r"
    and en: "rn_cancelled ?r = rn_cancelled (dy_runners d ! i)" "rn_Enabled ?r = rn_Enabled (dy_runners d ! i)"
    and pool: "dy_pool d' = dy_pool d \<or> (\<exists>nano addr ty. dy_pool d' = snd (add_named ''dynamic'' nano addr ty (dy_pool d)))"
    using step by blast+
  have added: "pool_inv (snd (add_named ''dynamic'' nano addr ty (dy_pool d)))" for nano addr ty
    using add_named_spec [OF dyn_invD(1) [OF inv], of "''dynamic''" nano addr ty]
    by (cases "add_named ''dynamic'' nano addr ty (dy_pool d)") simp
  from pool have "pool_inv (dy_pool d')"
  proof
    assume "dy_pool d' = dy_pool d"
    then show ?thesis using dyn_invD(1) [OF inv] by simp
  next
    assume "\<exists>nano addr ty. dy_pool d' = snd (add_named ''dynamic'' nano addr ty (dy_pool d))"
    then obtain nano addr ty where "dy_pool d' = snd (add_named ''dynamic'' nano addr ty (dy_pool d))"
      by (elim exE)
    then show ?thesis using added [of nano addr ty] by simp
  qed
  moreover have "rn_Enabled ?r \<and> \<not> rn_cancelled (dy_runners d ! i)" if "\<not> rn_cancelled ?r"
    using that dyn_invD(4) [OF inv dyn_loop(1)] en by simp
  ultimately show ?thesis by (rule dyn_inv_put [OF inv dyn_loop(1) _ r'])
qed

lemma dyn_inv_init: "pool_inv p \<Longrightarrow> dyn_inv (dyn_init p)"
  by (simp add: dyn_init_def dyn_inv_def)

interpretation dy: invariant_system "\<lambda>d. \<exists>p. pool_inv p \<and> d = dyn_init p" "dyn_step W" dyn_inv for W
proof unfold_locales
  show "dyn_inv d" if "\<exists>p. pool_inv p \<and> d = dyn_init p" for d using that dyn_inv_init by auto
  show "dyn_inv d'" if "dyn_inv d" "dyn_step W d d'" for d d' using that by (rule dyn_inv_step)
qed

abbreviation dynamic_state :: "cycle_world \<Rightarrow> dyn \<Rightarrow> bool" where
  "dynamic_state W \<equiv> reach (\<lambda>d. \<exists>p. pool_inv p \<and> d = dyn_init p) (dyn_step W)"

section \<open>Properties of the loop\<close>

text \<open>
  C16. However starts, stops and cycles interleave, at most one loop is not cancelled, and it is the
  one the server points at, enabled; the pool stays consistent; a runner that says it is running
  is inside a cycle; and the last cycle it reports added no more than passed, of no more than
  were fetched.
\<close>

theorem dynamic_single_loop:
  assumes "dynamic_state W d"
  shows "(\<forall>i < length (dy_runners d). \<forall>j < length (dy_runners d).
      \<not> rn_cancelled (dy_runners d ! i) \<longrightarrow> \<not> rn_cancelled (dy_runners d ! j) \<longrightarrow> i = j) \<and>
    (\<forall>i < length (dy_runners d). \<not> rn_cancelled (dy_runners d ! i) \<longrightarrow>
      dy_current d = Some i \<and> rn_Enabled (dy_runners d ! i)) \<and>
    pool_inv (dy_pool d) \<and>
    (\<forall>r \<in> set (dy_runners d). (rn_Running r \<longrightarrow> in_cycle (rn_phase r)) \<and>
      (\<forall>c. rn_LastRun r = Some c \<longrightarrow> cy_Added c \<le> cy_Valid c \<and> cy_Valid c \<le> cy_Fetched c))"
proof -
  note inv = dyn_invD [OF dy.reach_inv [OF assms]]
  have "runner_ok r" if "r \<in> set (dy_runners d)" for r using that inv(3) by (auto simp: in_set_conv_nth)
  then have "\<forall>r \<in> set (dy_runners d). (rn_Running r \<longrightarrow> in_cycle (rn_phase r)) \<and>
      (\<forall>c. rn_LastRun r = Some c \<longrightarrow> cy_Added c \<le> cy_Valid c \<and> cy_Valid c \<le> cy_Fetched c)"
    by (simp add: runner_ok_def cycle_ok_def)
  moreover have "i = j" if "i < length (dy_runners d)" "j < length (dy_runners d)"
    "\<not> rn_cancelled (dy_runners d ! i)" "\<not> rn_cancelled (dy_runners d ! j)" for i j
    using inv(4) [OF that(1,3)] inv(4) [OF that(2,4)] by simp
  ultimately show ?thesis using inv(1,4) by blast
qed

definition offline :: cycle_world where
  "offline = \<lparr>cw_fetch = (\<lambda>_ _ _. Inl ''offline''), cw_compile = (\<lambda>r. Inl r), cw_unmarshal = (\<lambda>b. Inl b),
     cw_validation = (\<lambda>_ _ conc es. \<lparr>va_entries = es, va_concurrency = conc,
       va_verdict = (\<lambda>_. (Some (UnknownProxyType []), 0)), va_tracked = False\<rparr>), cw_cfg = None\<rparr>"

definition example_loop :: dyn where
  "example_loop = dynamic_start 5 (dynamic_start 60 (dyn_init (example_pool ''hash'')))"

lemma dynamic_single_loop_witness:
  "length (dy_runners example_loop) = 2 \<and> dy_current example_loop = Some 1 \<and>
    rn_cancelled (dy_runners example_loop ! 0)"
proof -
  have "dynamic_state offline (dyn_init (example_pool ''hash''))"
    using example_pool_inv by (intro reach_start) blast
  then have "dynamic_state offline example_loop"
    unfolding example_loop_def
    by (rule reach_step [where step = "dyn_step offline", OF reach_step [where step = "dyn_step offline"] dyn_step.dyn_start])
      (rule dyn_step.dyn_start)
  from dynamic_single_loop [OF this]
  have "\<forall>i < length (dy_runners example_loop). \<not> rn_cancelled (dy_runners example_loop ! i) \<longrightarrow>
      dy_current example_loop = Some i \<and> rn_Enabled (dy_runners example_loop ! i)" by (elim conjE)
  moreover have two: "length (dy_runners example_loop) = 2" "dy_current example_loop = Some 1"
    by (simp_all add: example_loop_def dynamic_start_def dyn_init_def Let_def)
  ultimately have "rn_cancelled (dy_runners example_loop ! 0)" by fastforce
  with two show ?thesis by simp
qed

text \<open>A loop that is cancelled before its second check.\<close>

definition past_check :: "loop_phase \<Rightarrow> bool" where
  "past_check ph \<longleftrightarrow> (case ph of Deciding _ _ \<Rightarrow> True | Adding _ _ _ _ \<Rightarrow> True | _ \<Rightarrow> False)"

inductive own_steps :: "nat \<Rightarrow> dyn \<Rightarrow> dyn \<Rightarrow> bool" for i where
  own_refl: "own_steps i d d"
| own_step: "own_steps i d d1 \<Longrightarrow> loop_step ev i d1 = Some (Inr d2) \<Longrightarrow> own_steps i d d2"

lemma cancelled_step:
  assumes "loop_step ev i d = Some (Inr d')" and "i < length (dy_runners d)"
    and "rn_cancelled (dy_runners d ! i)" and "\<not> past_check (rn_phase (dy_runners d ! i))"
  shows "dy_pool d' = dy_pool d \<and> rn_cancelled (dy_runners d' ! i) \<and>
    \<not> past_check (rn_phase (dy_runners d' ! i)) \<and> length (dy_runners d') = length (dy_runners d)"
  using assms
  by (cases ev; cases "rn_phase (dy_runners d ! i)")
    (auto simp: loop_step_def Let_def past_check_def end_cycle_def split: if_splits sum.splits list.splits)

lemma cancelled_steps:
  assumes "own_steps i d d'" and "i < length (dy_runners d)" and "rn_cancelled (dy_runners d ! i)"
    and "\<not> past_check (rn_phase (dy_runners d ! i))"
  shows "dy_pool d' = dy_pool d \<and> rn_cancelled (dy_runners d' ! i) \<and>
    \<not> past_check (rn_phase (dy_runners d' ! i)) \<and> i < length (dy_runners d')"
  using assms
proof (induction rule: own_steps.induct)
  case (own_step d d1 ev d2)
  then show ?case using cancelled_step [of ev i d1 d2] by simp
qed simp

text \<open>
  C32. A loop that has been cancelled, by a stop or by the start of another, never changes the
  pool again, however many cycles it still begins; only one that was already past its last
  check can finish adding.
\<close>

theorem stopped_loop_adds_nothing:
  assumes "i < length (dy_runners d)" and "rn_cancelled (dy_runners d ! i)"
    and "\<not> past_check (rn_phase (dy_runners d ! i))" and "own_steps i d d'"
  shows "dy_pool d' = dy_pool d \<and> rn_cancelled (dy_runners d' ! i)"
  using cancelled_steps [OF assms(4,1,2,3)] by simp

text \<open>The first loop of the example was cancelled by the second start; it still begins a cycle.\<close>

theorem stopped_loop_adds_nothing_witness:
  "\<exists>d'. loop_step StartLoop 0 example_loop = Some (Inr d') \<and> dy_pool d' = example_pool ''hash''"
proof -
  have start: "0 < length (dy_runners example_loop)" "rn_phase (dy_runners example_loop ! 0) = LoopStart"
    "start_ticker (rn_Interval (dy_runners example_loop ! 0)) = Inr (60 * second_ns)"
    by (simp_all add: example_loop_def dynamic_start_def dyn_init_def Let_def new_runner_def cancel_runner_def
        update_runner_def nth_append start_interval_def) code_simp
  obtain d' where d': "loop_step StartLoop 0 example_loop = Some (Inr d')"
  proof
    show "loop_step StartLoop 0 example_loop =
      Some (Inr (update_runner 0 (\<lambda>_. (dy_runners example_loop ! 0)\<lparr>rn_phase := CycleStart\<rparr>) example_loop))"
      using start by (simp add: loop_step_def Let_def)
  qed
  have "rn_cancelled (dy_runners example_loop ! 0)" "\<not> past_check (rn_phase (dy_runners example_loop ! 0))"
    using start(2) by (simp_all add: past_check_def) (simp add: example_loop_def dynamic_start_def dyn_init_def
      Let_def new_runner_def cancel_runner_def update_runner_def nth_append)
  from stopped_loop_adds_nothing [OF start(1) this own_step [OF own_refl d']]
  have "dy_pool d' = dy_pool example_loop" by simp
  moreover have "dy_pool example_loop = example_pool ''hash''"
    by (simp add: example_loop_def dynamic_start_def dyn_init_def Let_def)
  ultimately show ?thesis using d' by simp
qed

text \<open>
  Switching the automatic adding on is answered with true and forgotten: without a loop
  there is nowhere to keep it, and a start builds a runner with the switch off.
\<close>

theorem auto_pool_forgotten:
  assumes "rq_Method r = ''POST''" and "decode (rq_Body r) = Some True"
  shows "fst (handleAutoPool decode r d) = writeJSON 200 (JObj [(''auto_pool'', JBool True)]) \<and>
    (\<exists>i. dy_current (dynamic_start interval (snd (handleAutoPool decode r d))) = Some i \<and>
       \<not> rn_AutoPool (dy_runners (dynamic_start interval (snd (handleAutoPool decode r d))) ! i))"
  using assms by (simp add: handleAutoPool_def dynamic_start_def Let_def new_runner_def nth_append)

theorem auto_pool_forgotten_witness:
  "\<exists>i. dy_current (dynamic_start 60 (snd (handleAutoPool (\<lambda>_. Some True)
       (req ''POST'' ''/api/proxies/auto-pool'') example_loop))) = Some i \<and>
     \<not> rn_AutoPool (dy_runners (dynamic_start 60 (snd (handleAutoPool (\<lambda>_. Some True)
       (req ''POST'' ''/api/proxies/auto-pool'') example_loop))) ! i)"
  using auto_pool_forgotten [of "req ''POST'' ''/api/proxies/auto-pool''" "\<lambda>_. Some True" example_loop 60]
  by (simp add: req_def)



end
