(* ===== verification/LoopProvenance.thy ===== *)
theory LoopProvenance
  imports DynamicLoop
begin

text \<open>
  Where the upstreams come from that the dynamic loop adds: what each phase of a cycle knows of
  the proxies it carries, from the crawl to the pool.
\<close>

section \<open>What a phase carries\<close>

definition crawled :: "cycle_world \<Rightarrow> crawl_result \<Rightarrow> bool" where
  "crawled W res \<longleftrightarrow> (\<exists>order. mset order = mset (enabled_sources BuiltinSources) \<and>
     Crawl (cw_fetch W) (cw_compile W) (cw_unmarshal W) order (cycle_crawl_timeout (cw_cfg W)) = Inr res)"

definition judged :: "cycle_world \<Rightarrow> validate_result \<Rightarrow> bool" where
  "judged W r \<longleftrightarrow> (\<exists>res k. crawled W res \<and> k < length (cr_Entries res) \<and>
     r = result_of (cycle_validation (cw_validation W) (cw_cfg W) (cr_Entries res)) k)"

fun phase_from :: "cycle_world \<Rightarrow> loop_phase \<Rightarrow> bool" where
  "phase_from W (Fetched res) \<longleftrightarrow> crawled W res"
| "phase_from W (Validating res) \<longleftrightarrow> crawled W res"
| "phase_from W (Validated n rs) \<longleftrightarrow> (\<forall>r \<in> set rs. judged W r)"
| "phase_from W (Deciding n rs) \<longleftrightarrow> (\<forall>r \<in> set rs. judged W r)"
| "phase_from W (Adding n m rs k) \<longleftrightarrow> (\<forall>r \<in> set rs. judged W r \<and> vr_Valid r)"
| "phase_from W _ \<longleftrightarrow> True"

definition from_inv :: "cycle_world \<Rightarrow> dyn \<Rightarrow> bool" where
  "from_inv W d \<longleftrightarrow> (\<forall>r \<in> set (dy_runners d). phase_from W (rn_phase r))"

text \<open>What the events of the world bring in.\<close>

lemma event_crawled: "event_ok W (CrawlDone res) ph \<Longrightarrow> crawled W res"
  by (simp add: event_ok_def crawled_def)

lemma event_judged:
  assumes "event_ok W (ValidateDone rs nano) (Validating res)" and "crawled W res"
  shows "\<forall>r \<in> set rs. judged W r"
proof -
  let ?v = "cycle_validation (cw_validation W) (cw_cfg W) (cr_Entries res)"
  from assms(1) have "ValidateBatch ?v rs" by (simp add: event_ok_def)
  then obtain order where o: "mset order = mset [0..<length (cr_Entries res)]" "rs = map (result_of ?v) order"
    by (rule batch_results) simp
  have "set order = {0..<length (cr_Entries res)}" using mset_eq_setD [OF o(1)] by simp
  then show ?thesis
    unfolding o(2) judged_def using assms(2) by (auto intro!: exI [of _ res])
qed

lemma phase_from_step:
  assumes "loop_step ev i d = Some (Inr d')" and "i < length (dy_runners d)"
    and "event_ok W ev (rn_phase (dy_runners d ! i))" and "phase_from W (rn_phase (dy_runners d ! i))"
  shows "phase_from W (rn_phase (dy_runners d' ! i))"
proof (cases "rn_phase (dy_runners d ! i)")
  case Fetching
  then show ?thesis
    using assms event_crawled by (cases ev) (auto simp: loop_step_def Let_def)
next
  case (Validating res)
  then show ?thesis
    using assms event_judged by (cases ev) (auto simp: loop_step_def Let_def)
next
  case (Adding n m rs k)
  then show ?thesis
    using assms by (cases ev; cases rs)
      (auto simp: loop_step_def Let_def end_cycle_def split: prod.splits)
qed (use assms in \<open>cases ev; auto simp: loop_step_def Let_def end_cycle_def valid_results_def
      split: if_splits sum.splits\<close>)+

lemma from_inv_put: "from_inv W d \<Longrightarrow> phase_from W (rn_phase r) \<Longrightarrow> dy_runners d' = (dy_runners d)[i := r] \<Longrightarrow> from_inv W d'"
  using set_update_subset_insert [of "dy_runners d" i r] by (auto simp: from_inv_def)

lemma from_inv_runner: "from_inv W d \<Longrightarrow> i < length (dy_runners d) \<Longrightarrow> phase_from W (rn_phase (dy_runners d ! i))"
  by (simp add: from_inv_def)

lemma from_inv_cancel:
  assumes "from_inv W d" and "i < length (dy_runners d)"
  shows "from_inv W (update_runner i cancel_runner d)"
  by (rule from_inv_put [OF assms(1)]) (use from_inv_runner [OF assms] in \<open>simp_all add: cancel_runner_def\<close>)

lemma from_inv_step:
  assumes prov: "from_inv W d" and inv: "dyn_inv d" and st: "dyn_step W d d'"
  shows "from_inv W d'"
  using st
proof cases
  case (dyn_start interval)
  have "from_inv W (case dy_current d of
      Some i \<Rightarrow> if rn_Enabled (dy_runners d ! i) then update_runner i cancel_runner d else d | None \<Rightarrow> d)"
    using prov from_inv_cancel dyn_invD(2) [OF inv] by (auto split: option.split)
  then show ?thesis
    by (simp add: dyn_start dynamic_start_def Let_def from_inv_def new_runner_def)
next
  case dyn_stop
  with prov from_inv_cancel dyn_invD(2) [OF inv] show ?thesis
    by (auto simp: dynamic_stop_def split: option.split)
next
  case (dyn_auto i b)
  have "phase_from W (rn_phase (dy_runners d ! i))"
    by (rule from_inv_runner [OF prov dyn_invD(2) [OF inv dyn_auto(2)]])
  then show ?thesis by (intro from_inv_put [OF prov, of _ d' i]) (simp_all add: dyn_auto(1))
next
  case (dyn_pool p)
  with prov show ?thesis by (simp add: from_inv_def)
next
  case (dyn_loop i ev)
  have "dy_runners d' = (dy_runners d)[i := dy_runners d' ! i]"
    using loop_step_cases [OF dyn_loop(3,1) event_ok_counts [OF dyn_loop(2)] dyn_invD(3) [OF inv dyn_loop(1)]]
    by (elim conjE)
  with phase_from_step [OF dyn_loop(3,1,2) from_inv_runner [OF prov dyn_loop(1)]] show ?thesis
    by (rule from_inv_put [OF prov])
qed

interpretation lp: invariant_system "\<lambda>d. \<exists>p. pool_inv p \<and> d = dyn_init p" "dyn_step W" "\<lambda>d. dyn_inv d \<and> from_inv W d" for W
proof unfold_locales
  show "dyn_inv d \<and> from_inv W d" if "\<exists>p. pool_inv p \<and> d = dyn_init p" for d
    using that dy.inv_start by (auto simp: dyn_init_def from_inv_def)
  show "dyn_inv d' \<and> from_inv W d'" if "dyn_inv d \<and> from_inv W d" "dyn_step W d d'" for d d'
    using that dyn_inv_step from_inv_step by blast
qed

section \<open>What is added\<close>

lemma loop_adds:
  assumes "loop_step ev i d = Some (Inr d')" and "dy_pool d' \<noteq> dy_pool d"
  shows "\<exists>nano n m r rs k. rn_phase (dy_runners d ! i) = Adding n m (r # rs) k \<and>
    dy_pool d' = snd (add_named ''dynamic'' nano (vr_Addr r) (vr_Type r) (dy_pool d))"
  using assms
  by (cases ev; cases "rn_phase (dy_runners d ! i)")
    (auto simp: loop_step_def Let_def split: if_splits sum.splits list.splits prod.splits, (metis snd_conv)+)

text \<open>
  C31. When a goroutine of the dynamic loop changes what the pool shows, it appends one
  healthy upstream, and that has the address and the type of an entry of a crawl of the
  built-in sources whose validation with the parameters of the cycle found nothing wrong.
\<close>

theorem auto_added_was_validated:
  assumes "dynamic_state W d" and "i < length (dy_runners d)" and "loop_step ev i d = Some (Inr d')"
    and "Pool_Snapshot (dy_pool d') \<noteq> Pool_Snapshot (dy_pool d)"
  shows "\<exists>res k n. crawled W res \<and> k < length (cr_Entries res) \<and>
    fst (va_verdict (cycle_validation (cw_validation W) (cw_cfg W) (cr_Entries res)) k) = None \<and>
    Pool_Snapshot (dy_pool d') = Pool_Snapshot (dy_pool d) @
      [added_view n (fe_Addr (cr_Entries res ! k)) (fe_Type (cr_Entries res ! k))]"
proof -
  from lp.reach_inv [OF assms(1)] have inv: "dyn_inv d" "from_inv W d" by simp_all
  have "dy_pool d' \<noteq> dy_pool d" using assms(4) by auto
  from loop_adds [OF assms(3) this] obtain nano f m r rs k' where ph: "rn_phase (dy_runners d ! i) = Adding f m (r # rs) k'"
    and p: "dy_pool d' = snd (add_named ''dynamic'' nano (vr_Addr r) (vr_Type r) (dy_pool d))" by blast
  obtain ok q where q: "add_named ''dynamic'' nano (vr_Addr r) (vr_Type r) (dy_pool d) = (ok, q)" by fastforce
  from add_named_spec [OF dyn_invD(1) [OF inv(1)] q] obtain n where
    "Pool_Snapshot q = Pool_Snapshot (dy_pool d) @ (if ok then [added_view n (vr_Addr r) (vr_Type r)] else [])" by blast
  then have snap: "Pool_Snapshot (dy_pool d') = Pool_Snapshot (dy_pool d) @ [added_view n (vr_Addr r) (vr_Type r)]"
    using assms(4) p q by (auto split: if_splits)
  have "judged W r" "vr_Valid r" using from_inv_runner [OF inv(2) assms(2)] ph by simp_all
  then obtain res k where res: "crawled W res" "k < length (cr_Entries res)"
    "r = result_of (cycle_validation (cw_validation W) (cw_cfg W) (cr_Entries res)) k" unfolding judged_def by blast
  then have "vr_Addr r = fe_Addr (cr_Entries res ! k)" "vr_Type r = fe_Type (cr_Entries res ! k)"
    "fst (va_verdict (cycle_validation (cw_validation W) (cw_cfg W) (cr_Entries res)) k) = None"
    using \<open>vr_Valid r\<close> by (auto simp: res(3) result_of_def Let_def split: prod.splits)
  with res(1,2) snap show ?thesis by (intro exI [of _ res] exI [of _ k] exI [of _ n]) simp
qed

text \<open>A cycle in which one source answers with one proxy, which passes and is added.\<close>

definition online :: cycle_world where
  "online = \<lparr>cw_fetch = (\<lambda>url _ _. if url = ''https://www.docip.net/data/free.json'' then Inr ''{}'' else Inl ''down''),
     cw_compile = (\<lambda>r. Inl r),
     cw_unmarshal = (\<lambda>b. Inr (AnyMap [(''data'', AnyList [AnyMap [(''ip'', AnyString ''10.0.0.9:80'')]])])),
     cw_validation = (\<lambda>_ _ conc es. \<lparr>va_entries = es, va_concurrency = conc, va_verdict = (\<lambda>_. (None, 5)),
       va_tracked = False\<rparr>), cw_cfg = None\<rparr>"

definition online_crawl :: crawl_result where
  "online_crawl = (case Crawl (cw_fetch online) (cw_compile online) (cw_unmarshal online) BuiltinSources
     (cycle_crawl_timeout None) of Inr res \<Rightarrow> res | Inl p \<Rightarrow> cw_result crawl_start)"

abbreviation online_outcome :: "source \<Rightarrow> go_panic + (string + free_entry list)" where
  "online_outcome \<equiv> source_outcome (cw_fetch online) (cw_compile online) (cw_unmarshal online)
     (crawl_timeout (cycle_crawl_timeout None))"

lemma online_outcome:
  "online_outcome (json_source ''docip'' ''https://www.docip.net/data/free.json'' ''data[*].ip'') =
     Inr (Inr [found ''docip'' ''10.0.0.9:80''])"
  "src_URL s \<noteq> ''https://www.docip.net/data/free.json'' \<Longrightarrow>
     online_outcome s = Inr (Inl (src_Name s @ '': '' @ ''down''))"
proof -
  have commas: "split_commas ''data[*].ip'' = [''data[*].ip'']" by code_simp
  have "extractByPath (AnyMap [(''data'', AnyList [AnyMap [(''ip'', AnyString ''10.0.0.9:80'')]])])
      ''data[*].ip'' ''docip'' = [found ''docip'' ''10.0.0.9:80'']"
    by (simp add: extractByPath_def commas split_paths extract_navigate(1) collect_addrs_def)
  then show "online_outcome (json_source ''docip'' ''https://www.docip.net/data/free.json'' ''data[*].ip'') =
     Inr (Inr [found ''docip'' ''10.0.0.9:80''])"
    by (simp add: source_outcome_def online_def json_source_def ParseSourceResponse_def parseJSON_def)
qed (simp add: source_outcome_def online_def)

lemma source_simps:
  "src_URL (json_source n u p) = u" "src_URL (html_source n u p) = u"
  by (simp_all add: json_source_def html_source_def)

lemma online_crawl:
  "crawled online online_crawl" "cr_Entries online_crawl = [found ''docip'' ''10.0.0.9:80'']"
proof -
  have "\<forall>s \<in> set BuiltinSources. \<exists>r. source_outcome (cw_fetch online) (cw_compile online) (cw_unmarshal online)
      (crawl_timeout (cycle_crawl_timeout None)) s = Inr r"
    by (intro ballI source_outcome_no_panic) (simp add: two_groups_def online_def)
  from Crawl_inv [OF this] show "crawled online online_crawl"
    by (auto simp: crawled_def online_crawl_def online_def enabled_sources_def builtin_sources(2))
  show "cr_Entries online_crawl = [found ''docip'' ''10.0.0.9:80'']"
    by (simp add: online_crawl_def Crawl_def BuiltinSources_def source_simps online_outcome crawl_merge_def
        crawl_start_def entry_key_def found_def)
qed

definition one_runner :: "runner \<Rightarrow> free_entry list \<Rightarrow> pool \<Rightarrow> dyn" where
  "one_runner r c p = \<lparr>dy_runners = [r], dy_current = Some 0, dy_pool = p, dy_cached = c\<rparr>"

lemma one_runner_simps [simp]:
  "dy_runners (one_runner r c p) = [r]" "dy_pool (one_runner r c p) = p"
  by (simp_all add: one_runner_def)

lemma one_runner_step:
  assumes "dynamic_state online (one_runner r c p)" and "event_ok online ev (rn_phase r)"
    and "loop_step ev 0 (one_runner r c p) = Some (Inr d)"
  shows "dynamic_state online d"
  using assms(1) by (rule reach_step [where step = "dyn_step online"])
    (rule dyn_loop [where i = 0 and ev = ev], use assms(2,3) in simp_all)

definition online_runner :: "loop_phase \<Rightarrow> bool \<Rightarrow> string \<Rightarrow> runner" where
  "online_runner ph running tid = (new_runner 60)\<lparr>rn_AutoPool := True, rn_Running := running, rn_TaskID := tid,
     rn_phase := ph\<rparr>"

lemma online_steps:
  "loop_step StartLoop 0 (one_runner (online_runner LoopStart False []) c p) =
     Some (Inr (one_runner (online_runner CycleStart False []) c p))"
  "loop_step BeginCycle 0 (one_runner (online_runner CycleStart False []) c p) =
     Some (Inr (one_runner (online_runner Fetching True []) c p))"
  "loop_step (CrawlDone res) 0 (one_runner (online_runner Fetching True []) c p) =
     Some (Inr (one_runner (online_runner (Fetched res) True []) (cr_Entries res) p))"
  "cr_Entries res \<noteq> [] \<Longrightarrow> loop_step CheckCrawl 0 (one_runner (online_runner (Fetched res) True []) c p) =
     Some (Inr (one_runner (online_runner (Validating res) True []) c p))"
  "loop_step (ValidateDone rs nano) 0 (one_runner (online_runner (Validating res) True []) c p) =
     Some (Inr (one_runner (online_runner (Validated (cr_Total res) rs) True (''dynamic-'' @ sprint_int nano)) c p))"
  "loop_step CheckValidate 0 (one_runner (online_runner (Validated n rs) True tid) c p) =
     Some (Inr (one_runner (online_runner (Deciding n rs) True tid) c p))"
  "valid_results rs \<noteq> [] \<Longrightarrow> loop_step Decide 0 (one_runner (online_runner (Deciding n rs) True tid) c p) =
     Some (Inr (one_runner (online_runner (Adding n (length (valid_results rs)) (valid_results rs) 0) True tid) c p))"
proof -
  have "start_ticker 60 = Inr (60 * second_ns)" by code_simp
  then show "loop_step StartLoop 0 (one_runner (online_runner LoopStart False []) c p) =
     Some (Inr (one_runner (online_runner CycleStart False []) c p))"
    by (simp add: loop_step_def Let_def one_runner_def online_runner_def new_runner_def update_runner_def)
qed (simp_all add: loop_step_def Let_def one_runner_def online_runner_def new_runner_def update_runner_def)

lemma online_start: "dynamic_state online (one_runner (online_runner LoopStart False []) [] (example_pool ''hash''))"
proof -
  let ?d0 = "dyn_init (example_pool ''hash'')" and ?up = "\<lambda>r. r\<lparr>rn_AutoPool := True\<rparr>"
  have "dynamic_state online ?d0" using example_pool_inv by (intro reach_start) blast
  from reach_step [where step = "dyn_step online", OF this dyn_step.dyn_start]
  have "dynamic_state online (dynamic_start 60 ?d0)" .
  from reach_step [where step = "dyn_step online", OF this dyn_step.dyn_auto [where i = 0 and b = True]]
  have "dynamic_state online (update_runner 0 ?up (dynamic_start 60 ?d0))"
    by (simp add: dynamic_start_def dyn_init_def Let_def)
  moreover have "update_runner 0 ?up (dynamic_start 60 ?d0) =
      one_runner (online_runner LoopStart False []) [] (example_pool ''hash'')"
    by (simp add: dynamic_start_def dyn_init_def Let_def one_runner_def online_runner_def new_runner_def
        update_runner_def start_interval_def)
  ultimately show ?thesis by simp
qed

definition online_results :: "validate_result list" where
  "online_results = map (result_of (cycle_validation (cw_validation online) None (cr_Entries online_crawl))) [0]"

lemma online_results: "valid_results online_results = online_results"
  "online_results = [\<lparr>vr_Addr = ''10.0.0.9:80'', vr_Type = ''http'', vr_Source = ''docip'', vr_Valid = True,
     vr_Latency = 5, vr_Error = None\<rparr>]"
  by (simp_all add: online_results_def online_crawl(2) cycle_validation_def Let_def online_def
      result_of_def found_def valid_results_def)

lemma online_adding:
  "dynamic_state online (one_runner (online_runner (Adding (cr_Total online_crawl) 1 online_results 0) True
     (''dynamic-'' @ sprint_int 7)) (cr_Entries online_crawl) (example_pool ''hash''))"
proof -
  note step = one_runner_step [OF _ _ online_steps(1)] one_runner_step [OF _ _ online_steps(2)]
    one_runner_step [OF _ _ online_steps(3)] one_runner_step [OF _ _ online_steps(4)]
    one_runner_step [OF _ _ online_steps(5)] one_runner_step [OF _ _ online_steps(6)]
    one_runner_step [OF _ _ online_steps(7)]
  have ok: "event_ok online (CrawlDone online_crawl) ph" for ph
    using online_crawl(1) by (simp add: event_ok_def crawled_def)
  have ok': "event_ok online (ValidateDone online_results 7) (Validating online_crawl)"
    using batch_order [of "[0]" "cycle_validation (cw_validation online) (cw_cfg online) (cr_Entries online_crawl)"]
    by (simp add: event_ok_def online_results_def online_crawl(2)) (simp add: online_def)
  have triv: "event_ok online StartLoop ph" "event_ok online BeginCycle ph" "event_ok online CheckCrawl ph"
    "event_ok online CheckValidate ph" "event_ok online Decide ph" for ph
    by (simp_all add: event_ok_def)
  have phase: "Validating online_crawl = rn_phase (online_runner (Validating online_crawl) True [])"
    by (simp add: online_runner_def)
  note s1 = step(1) [OF online_start triv(1)]
  note s2 = step(2) [OF s1 triv(2)]
  note s3 = step(3) [OF s2 ok]
  have "cr_Entries online_crawl \<noteq> []" by (simp add: online_crawl(2))
  note s4 = step(4) [OF s3 triv(3) this]
  have "event_ok online (ValidateDone online_results 7) (rn_phase (online_runner (Validating online_crawl) True []))"
    by (rule subst [OF phase, where P = "event_ok online (ValidateDone online_results 7)"]) (rule ok')
  note s5 = step(5) [OF s4 this]
  note s6 = step(6) [OF s5 triv(4)]
  have "valid_results online_results \<noteq> []" unfolding online_results(1) by (simp add: online_results(2))
  from step(7) [OF s6 triv(5) this] show ?thesis by (simp only: online_results(1)) (simp add: online_results(2))
qed

lemma auto_added_was_validated_witness:
  "\<exists>d d' n. dynamic_state online d \<and> loop_step (AddNext 7) 0 d = Some (Inr d') \<and>
    Pool_Snapshot (dy_pool d') = Pool_Snapshot (dy_pool d) @ [added_view n ''10.0.0.9:80'' ''http'']"
proof -
  let ?p = "example_pool ''hash''" and ?add = "add_named ''dynamic'' 7 ''10.0.0.9:80'' ''http''"
  let ?d = "one_runner (online_runner (Adding (cr_Total online_crawl) 1 online_results 0) True
     (''dynamic-'' @ sprint_int 7)) (cr_Entries online_crawl) ?p"
  obtain ok q where q: "?add ?p = (ok, q)" by fastforce
  have "fst (?add ?p)" by code_simp
  with q have ok: "ok" by simp
  obtain d' where d': "loop_step (AddNext 7) 0 ?d = Some (Inr d')" "dy_pool d' = q"
    by (simp add: loop_step_def Let_def one_runner_def online_runner_def new_runner_def update_runner_def
        online_results(2) q)
  obtain n where snap: "Pool_Snapshot q = Pool_Snapshot ?p @ [added_view n ''10.0.0.9:80'' ''http'']"
    using add_named_spec [OF example_pool_inv q] ok by auto
  have "Pool_Snapshot (dy_pool d') \<noteq> Pool_Snapshot (dy_pool ?d)" by (simp add: d'(2) snap)
  then obtain res k n where res: "crawled online res" "k < length (cr_Entries res)"
    "Pool_Snapshot (dy_pool d') = Pool_Snapshot (dy_pool ?d) @
      [added_view n (fe_Addr (cr_Entries res ! k)) (fe_Type (cr_Entries res ! k))]"
    using auto_added_was_validated [OF online_adding _ d'(1)] by auto
  with snap d'(2) have "added_view n (fe_Addr (cr_Entries res ! k)) (fe_Type (cr_Entries res ! k)) =
      added_view n ''10.0.0.9:80'' ''http''" by (simp add: added_view_def)
  with res(3) online_adding d'(1) show ?thesis by (intro exI [of _ ?d] exI [of _ d'] exI [of _ n]) simp
qed

end
