(* ===== verification/SessionSteps.thy ===== *)
theory SessionSteps
  imports HttpServer Socks5Server
begin

text \<open>
  A client connection of the local proxy servers as its goroutine handles it, step by step:
  \<open>handle\<close>, \<open>handleConnect\<close> and \<open>handleForward\<close> of \<open>internal/proxy/http.go\<close> and \<open>handle\<close> of
  \<open>socks5.go\<close>, with \<open>dialWithFailover\<close> inside. \<open>Session\<close> runs a handler in one go; here every
  access to the registry, to the pool and to the network is a step of its own, so that other
  goroutines can come in between. The last part shows that a handler that is left alone does
  what \<open>Session\<close> says.
\<close>

section \<open>State\<close>

datatype front = HTTPFront | SOCKS5Front

text \<open>The request reader and writer of the standard library, as in \<open>HttpServer\<close>.\<close>

record session_world =
  sw_readRequest :: "(io_error, http_request) io"
  sw_writeRequest :: "http_request \<Rightarrow> conn \<Rightarrow> conn \<Rightarrow> bool \<times> conn \<times> conn"

text \<open>
  What a handler knows once it has read where to connect. The entry still lacks its
  identifier, its time and the address of the client.
\<close>

record job =
  jb_entry :: "string \<Rightarrow> int \<Rightarrow> string \<Rightarrow> entry"
  jb_preferred :: string
  jb_host :: string
  jb_port :: u16
  jb_client :: conn
  jb_refusal :: "byte list"
  jb_announce :: "conn \<Rightarrow> conn \<Rightarrow> bool \<times> conn \<times> conn"

text \<open>What the goroutines share.\<close>

record shared =
  sh_pool :: pool
  sh_cm :: manager
  sh_net :: net

text \<open>
  What is left of a session that returns: its connections, or a tunnel whose copying
  goroutines may still be on their way out.
\<close>

datatype residue = Conns "conn list" | Rest pipe

text \<open>
  Where a handler stands. The numbers, sets and errors are the locals \<open>attempts\<close>, \<open>attempted\<close>
  and \<open>lastErr\<close> of \<open>dialWithFailover\<close>. The registry inside a tunnel is a copy that every
  step of the tunnel refreshes.
\<close>

datatype stage =
    Accepted front conn
  | Parsed job
  | Looping job eref nat "string set" failover_error
  | Picking job eref nat "string set" failover_error
  | Picked job eref nat "string set" failover_error ref
  | Dialling job eref nat "string set" ref
  | Connected job eref conn string
  | Failed job eref failover_error
  | Tunnelling pipe
  | Leaving eref residue
  | Unregistering eref residue
  | Over residue
  | Crashed go_panic

section \<open>Reading the request\<close>

definition http_job :: "session_world \<Rightarrow> http_request \<Rightarrow> conn \<Rightarrow> go_panic + job" where
  "http_job W req client =
     (let connect = (rq_Method req = ''CONNECT'');
          (host, port) = (if connect then connect_target req else forward_target req)
      in case joinedHost host port of
           Inl x \<Rightarrow> Inl x
         | Inr target \<Rightarrow>
             Inr \<lparr>jb_entry = (\<lambda>ident now source. http_entry ident now source host target),
               jb_preferred = preferred_of req, jb_host = host, jb_port = port, jb_client = client,
               jb_refusal = bad_gateway,
               jb_announce = (if connect then announce_established else sw_writeRequest W req)\<rparr>)"

definition socks5_job :: "string \<Rightarrow> string \<Rightarrow> u16 \<Rightarrow> conn \<Rightarrow> job" where
  "socks5_job preferred host port client =
     \<lparr>jb_entry = (\<lambda>ident now source. socks5_entry ident now source host port),
      jb_preferred = preferred, jb_host = host, jb_port = port, jb_client = client,
      jb_refusal = socks5_failed, jb_announce = announce_client socks5_ok\<rparr>"

fun begin_session :: "session_world \<Rightarrow> front \<Rightarrow> conn \<Rightarrow> stage" where
  "begin_session W HTTPFront client =
     (case sw_readRequest W (client\<lparr>c_deadline := True\<rparr>) of
        (Inl e, c) \<Rightarrow> Over (Conns [closeConn c])
      | (Inr req, c) \<Rightarrow>
          (case http_job W req (c\<lparr>c_deadline := False\<rparr>) of Inl x \<Rightarrow> Crashed x | Inr j \<Rightarrow> Parsed j))"
| "begin_session W SOCKS5Front client =
     (case srv_negotiate (client\<lparr>c_deadline := True\<rparr>) of
        (Inl e, c) \<Rightarrow> Over (Conns [closeConn c])
      | (Inr (preferred, host, port), c) \<Rightarrow> Parsed (socks5_job preferred host port c))"

section \<open>Registering, choosing and dialling\<close>

definition open_entry :: "string \<Rightarrow> int \<Rightarrow> string \<Rightarrow> job \<Rightarrow> shared \<Rightarrow> stage \<times> shared" where
  "open_entry ident now source j sh =
     (let (r, m) = new_entry (jb_entry j ident now source) (sh_cm sh)
      in (if jb_preferred j = [] then Looping j r 0 {} NoHealthyProxies
          else Picking j r 0 {} NoHealthyProxies,
          sh\<lparr>sh_cm := Register r m\<rparr>))"

definition check_bound :: "job \<Rightarrow> eref \<Rightarrow> nat \<Rightarrow> string set \<Rightarrow> failover_error \<Rightarrow> shared \<Rightarrow> stage" where
  "check_bound j r attempts attempted lastErr sh =
     (if attempts < length (Pool_List (sh_pool sh)) * 2 then Picking j r attempts attempted lastErr
      else Failed j r lastErr)"

definition choose_upstream ::
  "(nat \<Rightarrow> nat) \<Rightarrow> job \<Rightarrow> eref \<Rightarrow> nat \<Rightarrow> string set \<Rightarrow> failover_error \<Rightarrow> shared \<Rightarrow> stage \<times> shared" where
  "choose_upstream rnd j r attempts attempted lastErr sh =
     (case Select rnd (jb_preferred j) (jb_host j) (sh_pool sh) of
        (res, p) \<Rightarrow>
          (case res of
             Inl (SelectPanic x) \<Rightarrow> Crashed x
           | Inl e \<Rightarrow>
               Failed j r (if jb_preferred j = [] then SelectFailed e else PoolSelect (jb_preferred j) e)
           | Inr u \<Rightarrow>
               if jb_preferred j = [] then Picked j r attempts attempted lastErr u
               else Dialling j r attempts attempted u,
           sh\<lparr>sh_pool := p\<rparr>))"

definition consider_upstream ::
  "job \<Rightarrow> eref \<Rightarrow> nat \<Rightarrow> string set \<Rightarrow> failover_error \<Rightarrow> ref \<Rightarrow> shared \<Rightarrow> stage" where
  "consider_upstream j r attempts attempted lastErr u sh =
     (let up = p_obj (sh_pool sh) u in
      if up_Name up \<in> attempted then Looping j r (attempts + 1) attempted lastErr
      else if up_Type up = ''direct'' \<or> up_healthy up
      then Dialling j r attempts (insert (up_Name up) attempted) u
      else Looping j r (attempts + 1) (insert (up_Name up) attempted)
        (MarkedUnhealthy (up_Name up) (up_Addr up)))"

definition dial_chosen ::
  "job \<Rightarrow> eref \<Rightarrow> nat \<Rightarrow> string set \<Rightarrow> ref \<Rightarrow> shared \<Rightarrow> stage \<times> shared" where
  "dial_chosen j r attempts attempted u sh =
     (let up = p_obj (sh_pool sh) u in
      case Dial (Some up) (jb_host j) (jb_port j) (sh_net sh) of
        (res, w) \<Rightarrow>
          (case res of
             Inl (DialPanic x) \<Rightarrow> Crashed x
           | Inl e \<Rightarrow>
               if jb_preferred j = [] then
                 Looping j r (attempts + 1) attempted
                   (if up_Type up = ''direct'' then DirectDial e else DialFailed (up_Name up) (up_Addr up) e)
               else Failed j r (DialFailed (up_Name up) (up_Addr up) e)
           | Inr conn \<Rightarrow> Connected j r conn (up_Name up),
           sh\<lparr>sh_net := w\<rparr>))"

section \<open>Answering and leaving\<close>

text \<open>The deferred close of the upstream runs before the close of the entry.\<close>

definition answer_client :: "job \<Rightarrow> eref \<Rightarrow> conn \<Rightarrow> string \<Rightarrow> shared \<Rightarrow> stage \<times> shared" where
  "answer_client j r upstream proxyName sh =
     (let m = SetProxy r proxyName (sh_cm sh) in
      (case jb_announce j (jb_client j) upstream of
         (False, c, u) \<Rightarrow> Leaving r (Conns [c, closeConn u])
       | (True, c, u) \<Rightarrow> Tunnelling (init_pipe c u r m),
       sh\<lparr>sh_cm := m\<rparr>))"

definition refuse_client :: "job \<Rightarrow> eref \<Rightarrow> stage" where
  "refuse_client j r = Leaving r (Conns [write_ignore (jb_refusal j) (jb_client j)])"

definition leave_tunnel :: "pipe \<Rightarrow> stage" where
  "leave_tunnel p = Leaving (pi_entry p) (Rest (p\<lparr>pi_upstream := closeConn (pi_upstream p)\<rparr>))"

definition close_entry :: "eref \<Rightarrow> residue \<Rightarrow> shared \<Rightarrow> stage \<times> shared" where
  "close_entry r q sh =
     (case Entry_Close r (sh_cm sh) of
        Inl x \<Rightarrow> (Crashed x, sh)
      | Inr m \<Rightarrow> (Unregistering r q, sh\<lparr>sh_cm := m\<rparr>))"

fun close_residue :: "residue \<Rightarrow> residue" where
  "close_residue (Conns cs) = Conns (map closeConn cs)"
| "close_residue (Rest p) = Rest (p\<lparr>pi_client := closeConn (pi_client p)\<rparr>)"

text \<open>The last two deferred calls: the entry leaves the map, the client is closed.\<close>

definition unregister_entry :: "eref \<Rightarrow> residue \<Rightarrow> shared \<Rightarrow> stage \<times> shared" where
  "unregister_entry r q sh =
     (Over (close_residue q), sh\<lparr>sh_cm := Unregister (e_ID (m_obj (sh_cm sh) r)) (sh_cm sh)\<rparr>)"

section \<open>Steps\<close>

text \<open>The tunnel of a session, while it is used and while it comes down.\<close>

fun tunnel_of :: "stage \<Rightarrow> pipe option" where
  "tunnel_of (Tunnelling p) = Some p"
| "tunnel_of (Leaving r (Rest p)) = Some p"
| "tunnel_of (Unregistering r (Rest p)) = Some p"
| "tunnel_of (Over (Rest p)) = Some p"
| "tunnel_of _ = None"

fun put_tunnel :: "pipe \<Rightarrow> stage \<Rightarrow> stage" where
  "put_tunnel p' (Tunnelling p) = Tunnelling p'"
| "put_tunnel p' (Leaving r (Rest p)) = Leaving r (Rest p')"
| "put_tunnel p' (Unregistering r (Rest p)) = Unregistering r (Rest p')"
| "put_tunnel p' (Over (Rest p)) = Over (Rest p')"
| "put_tunnel p' st = st"

text \<open>
  Two conditions are what the environment grants: eight bytes of the random source do not
  name a connection that is still registered, and \<open>rand.Intn\<close> stays below its bound while
  the pool is one that fits into memory.
\<close>

inductive session_step :: "session_world \<Rightarrow> stage \<times> shared \<Rightarrow> stage \<times> shared \<Rightarrow> bool" for W where
  ss_begin: "session_step W (Accepted f c, sh) (begin_session W f c, sh)"
| ss_register: "length b = 8 \<Longrightarrow> Manager_Get (newID b) (sh_cm sh) = None \<Longrightarrow>
    session_step W (Parsed j, sh) (open_entry (newID b) now source j sh)"
| ss_check: "session_step W (Looping j r n att err, sh) (check_bound j r n att err sh, sh)"
| ss_choose: "rand_ok rnd \<Longrightarrow> small_pool (sh_pool sh) \<Longrightarrow>
    session_step W (Picking j r n att err, sh) (choose_upstream rnd j r n att err sh)"
| ss_consider: "session_step W (Picked j r n att err u, sh) (consider_upstream j r n att err u sh, sh)"
| ss_dial: "session_step W (Dialling j r n att u, sh) (dial_chosen j r n att u sh)"
| ss_answer: "session_step W (Connected j r u name, sh) (answer_client j r u name sh)"
| ss_refuse: "session_step W (Failed j r err, sh) (refuse_client j r, sh)"
| ss_pipe: "tunnel_of st = Some p \<Longrightarrow> pipe_step (p\<lparr>pi_cm := sh_cm sh\<rparr>) p' \<Longrightarrow>
    session_step W (st, sh) (put_tunnel p' st, sh\<lparr>sh_cm := pi_cm p'\<rparr>)"
| ss_deadline: "session_step W (Tunnelling p, sh) (Tunnelling (p\<lparr>pi_late := True\<rparr>), sh)"
| ss_return: "pi_main p = Returned \<Longrightarrow> session_step W (Tunnelling p, sh) (leave_tunnel p, sh)"
| ss_close: "session_step W (Leaving r q, sh) (close_entry r q sh)"
| ss_unregister: "session_step W (Unregistering r q, sh) (unregister_entry r q sh)"

inductive_cases session_stepE: "session_step W s t"

section \<open>No panic in a selection or in a dial\<close>

definition no_panic :: "(dial_error, 'a) io \<Rightarrow> bool" where
  "no_panic m \<longleftrightarrow> (\<forall>c x. fst (m c) \<noteq> Inl (DialPanic x))"

lemma no_panic_ret: "no_panic (ret x)"
  by (simp add: no_panic_def)

lemma no_panic_fail: "(\<And>x. e \<noteq> DialPanic x) \<Longrightarrow> no_panic (fail e)"
  by (simp add: no_panic_def)

lemma no_panic_andThen: "no_panic m \<Longrightarrow> (\<And>x. no_panic (f x)) \<Longrightarrow> no_panic (andThen m f)"
  unfolding no_panic_def
proof (intro allI)
  fix c x
  assume m: "\<forall>c x. fst (m c) \<noteq> Inl (DialPanic x)" and f: "\<And>x. \<forall>c y. fst (f x c) \<noteq> Inl (DialPanic y)"
  obtain q c' where q: "m c = (q, c')" by (cases "m c")
  have "q \<noteq> Inl (DialPanic x)" using m [rule_format, of c x] q by simp
  then show "fst (andThen m f c) \<noteq> Inl (DialPanic x)"
    using f q by (cases q) (auto simp: andThen_def)
qed

lemma no_panic_wr: "no_panic (wr bs)"
  by (auto simp: no_panic_def wr_def liftIO_def split: prod.split sum.split)

lemma no_panic_rd: "no_panic (rd n)"
  by (auto simp: no_panic_def rd_def liftIO_def split: prod.split sum.split)

lemmas no_panic_rules = no_panic_ret no_panic_fail no_panic_andThen no_panic_wr no_panic_rd

lemma no_panic_http: "no_panic (http_tunnel target auth)"
proof -
  have "no_panic readHTTPResponse"
    by (auto simp: no_panic_def readHTTPResponse_def Let_def split: prod.split sum.split)
  then show ?thesis unfolding http_tunnel_def by (auto intro!: no_panic_rules)
qed

lemma no_panic_socks5: "no_panic (socks5Handshake host port user pass)"
  unfolding socks5Handshake_def socks5_auth_def socks5UserPass_def socks5_reply_def socks5_reply_len_def
  by (auto intro!: no_panic_rules simp: socks5_addr_def split: option.split sum.split if_splits)

lemma finish_no_panic: "no_panic m \<Longrightarrow> fst (finish m raw w) \<noteq> Inl (DialPanic x)"
  by (cases "m raw"; cases "fst (m raw)") (auto simp: no_panic_def finish_def dest: spec [of _ raw])

lemma Dial_no_panic: "fst (Dial (Some up) host port w) \<noteq> Inl (DialPanic x)"
  using finish_no_panic [OF no_panic_http] finish_no_panic [OF no_panic_socks5]
  by (auto simp: Dial_def dialHTTP_def dialSOCKS5_def joinedHost_eq tcpDial_def Let_def
      split: option.split)

lemma Select_no_panic:
  assumes "pool_ok p" and "rand_ok rnd" and "small_pool p"
  shows "fst (Select rnd pref key p) \<noteq> Inl (SelectPanic x)"
proof (cases "p_all p = []")
  case False
  then show ?thesis
    using Select_strategy [OF assms(2,3) False, of pref key] Select_named [of p pref rnd key]
    by (cases "effective_name pref p = []") (auto split: option.split)
qed (simp add: Select_def)

section \<open>A handler that is left alone\<close>

fun dialled :: "job \<Rightarrow> eref \<Rightarrow> failover_error + conn \<Rightarrow> string \<Rightarrow> stage" where
  "dialled j r (Inl err) name = Failed j r err"
| "dialled j r (Inr conn) name = Connected j r conn name"

lemma Select_keeps:
  assumes "Select rnd pref key p = (res, p')"
  shows "p_obj p' = p_obj p" "p_all p' = p_all p" "pool_ok p \<Longrightarrow> pool_ok p'" "small_pool p' = small_pool p"
proof -
  have s: "snd (Select rnd pref key p) = p'" using assms by simp
  show "p_obj p' = p_obj p" "p_all p' = p_all p" "pool_ok p \<Longrightarrow> pool_ok p'" "small_pool p' = small_pool p"
    using Select_frame [OF s] pool_ok_Select [of p rnd pref key] s by (simp_all add: small_pool_def)
qed

text \<open>One turn of the retry loop, with the upstream that was selected.\<close>

definition turn ::
  "job \<Rightarrow> eref \<Rightarrow> nat \<Rightarrow> string set \<Rightarrow> failover_error \<Rightarrow> pool_error + upstream \<Rightarrow> net \<Rightarrow> stage \<times> net" where
  "turn j r n att err x w =
     (case x of
        Inl e \<Rightarrow> (Failed j r (SelectFailed e), w)
      | Inr up \<Rightarrow>
          if up_Name up \<in> att then (Looping j r (n + 1) att err, w)
          else if up_Type up = ''direct'' \<or> up_healthy up then
            (case Dial (Some up) (jb_host j) (jb_port j) w of
               (Inr conn, w') \<Rightarrow> (Connected j r conn (up_Name up), w')
             | (Inl e, w') \<Rightarrow>
                 (Looping j r (n + 1) (insert (up_Name up) att)
                   (if up_Type up = ''direct'' then DirectDial e else DialFailed (up_Name up) (up_Addr up) e), w'))
          else (Looping j r (n + 1) (insert (up_Name up) att) (MarkedUnhealthy (up_Name up) (up_Addr up)), w))"

text \<open>The part of a turn after the selection, for an upstream that is tried.\<close>

lemma dial_turn:
  assumes "jb_preferred j = []" and "Dial (Some (p_obj p u)) (jb_host j) (jb_port j) w = (d, w')"
    and "up_Name (p_obj p u) \<notin> att" and "up_Type (p_obj p u) = ''direct'' \<or> up_healthy (p_obj p u)"
    and "turn j r n att err (Inr (p_obj p u)) w = (st, w1)"
  shows "dial_chosen j r n (insert (up_Name (p_obj p u)) att) u \<lparr>sh_pool = p, sh_cm = m, sh_net = w\<rparr> =
    (st, \<lparr>sh_pool = p, sh_cm = m, sh_net = w1\<rparr>)"
proof (cases d)
  case (Inl e)
  have "\<forall>z. d \<noteq> Inl (DialPanic z)"
    using Dial_no_panic [of "p_obj p u" "jb_host j" "jb_port j" w] assms(2) by simp
  with Inl assms show ?thesis by (cases e) (auto simp: dial_chosen_def Let_def turn_def)
qed (use assms in \<open>auto simp: dial_chosen_def Let_def turn_def\<close>)

lemma turn_alone:
  assumes pool: "pool_ok p" "small_pool p" and rnd: "rand_ok (rnd n)" and pref: "jb_preferred j = []"
    and n: "n < length (Pool_List p) * 2"
    and pk: "pick (rnd n) [] (jb_host j) p = (x, p1)" and t: "turn j r n att err x w = (st, w1)"
  shows "(session_step W)\<^sup>*\<^sup>*
      (Looping j r n att err, \<lparr>sh_pool = p, sh_cm = m, sh_net = w\<rparr>) (st, \<lparr>sh_pool = p1, sh_cm = m, sh_net = w1\<rparr>)"
proof -
  let ?sh = "\<lparr>sh_pool = p, sh_cm = m, sh_net = w\<rparr>" and ?sh1 = "\<lparr>sh_pool = p1, sh_cm = m, sh_net = w\<rparr>"
  obtain q p1' where q: "Select (rnd n) [] (jb_host j) p = (q, p1')"
    by (cases "Select (rnd n) [] (jb_host j) p")
  then have p1: "p1' = p1" using pk by (auto simp: pick_def split: sum.splits)
  have np: "q \<noteq> Inl (SelectPanic z)" for z
    using Select_no_panic [OF pool(1) rnd pool(2), of "[]" "jb_host j"] q by simp
  have s1: "session_step W (Looping j r n att err, ?sh) (Picking j r n att err, ?sh)"
    using ss_check [of W j r n att err ?sh] n by (simp add: check_bound_def)
  have s2: "session_step W (Picking j r n att err, ?sh) (choose_upstream (rnd n) j r n att err ?sh)"
    by (rule ss_choose) (simp_all add: rnd pool)
  note s12 = rtranclp.rtrancl_into_rtrancl [OF r_into_rtranclp [of "session_step W", OF s1] s2]
  show ?thesis
  proof (cases q)
    case (Inl e)
    then have x: "x = Inl e" using pk q by (simp add: pick_def)
    have "\<forall>z. e \<noteq> SelectPanic z" using np Inl by simp
    then have "choose_upstream (rnd n) j r n att err ?sh = (Failed j r (SelectFailed e), ?sh1)"
      using q p1 Inl pref by (cases e) (simp_all add: choose_upstream_def)
    with s12 x t show ?thesis by (simp add: turn_def)
  next
    case (Inr u)
    let ?up = "p_obj p1 u"
    have x: "x = Inr ?up" using pk q Inr p1 by (simp add: pick_def)
    have "choose_upstream (rnd n) j r n att err ?sh = (Picked j r n att err u, ?sh1)"
      using q p1 Inr pref by (simp add: choose_upstream_def)
    with s12 have "(session_step W)\<^sup>*\<^sup>* (Looping j r n att err, ?sh) (Picked j r n att err u, ?sh1)" by simp
    from rtranclp.rtrancl_into_rtrancl [OF this ss_consider]
    have s3: "(session_step W)\<^sup>*\<^sup>* (Looping j r n att err, ?sh) (consider_upstream j r n att err u ?sh1, ?sh1)" .
    show ?thesis
    proof (cases "up_Name ?up \<notin> att \<and> (up_Type ?up = ''direct'' \<or> up_healthy ?up)")
      case False
      with s3 x t show ?thesis by (auto simp: consider_upstream_def Let_def turn_def split: if_splits)
    next
      case True
      let ?att = "insert (up_Name ?up) att"
      have "consider_upstream j r n att err u ?sh1 = Dialling j r n ?att u"
        using True by (simp add: consider_upstream_def Let_def)
      with s3 have "(session_step W)\<^sup>*\<^sup>* (Looping j r n att err, ?sh) (Dialling j r n ?att u, ?sh1)" by simp
      from rtranclp.rtrancl_into_rtrancl [OF this ss_dial]
      have s4: "(session_step W)\<^sup>*\<^sup>* (Looping j r n att err, ?sh) (dial_chosen j r n ?att u ?sh1)" .
      obtain d w' where d: "Dial (Some ?up) (jb_host j) (jb_port j) w = (d, w')"
        by (cases "Dial (Some ?up) (jb_host j) (jb_port j) w")
      from dial_turn [OF pref d, of att r n err st w1 m] True t x
      have "dial_chosen j r n ?att u ?sh1 = (st, \<lparr>sh_pool = p1, sh_cm = m, sh_net = w1\<rparr>)" by simp
      with s4 show ?thesis by simp
    qed
  qed
qed

text \<open>The whole loop.\<close>

lemma loop_alone:
  assumes "failover_loop (\<lambda>k q. pick (rnd k) [] (jb_host j) q) (\<lambda>q. length (Pool_List q))
      (\<lambda>up. Dial (Some up) (jb_host j) (jb_port j)) n att err p w = Some ((res, name), p', w')"
    and "pool_ok p" "small_pool p" "\<And>k. rand_ok (rnd k)" "jb_preferred j = []"
  shows "(session_step W)\<^sup>*\<^sup>* (Looping j r n att err, \<lparr>sh_pool = p, sh_cm = m, sh_net = w\<rparr>)
      (dialled j r res name, \<lparr>sh_pool = p', sh_cm = m, sh_net = w'\<rparr>)"
  using assms
proof (induction "length (Pool_List p) * 2 - n" arbitrary: n att err p w rule: less_induct)
  case less
  let ?sh = "\<lparr>sh_pool = p, sh_cm = m, sh_net = w\<rparr>"
  note loop = less.prems(1) [unfolded failover_loop.simps [of _ _ _ n]]
  show ?case
  proof (cases "n < length (Pool_List p) * 2")
    case False
    have "session_step W (Looping j r n att err, ?sh) (Failed j r err, ?sh)"
      using ss_check [of W j r n att err ?sh] False by (simp add: check_bound_def)
    with loop False show ?thesis by auto
  next
    case n: True
    obtain x p1 where pk: "pick (rnd n) [] (jb_host j) p = (x, p1)" by (cases "pick (rnd n) [] (jb_host j) p")
    obtain st w1 where t: "turn j r n att err x w = (st, w1)" by (cases "turn j r n att err x w")
    note s = turn_alone [where rnd = rnd and n = n and W = W and m = m,
        OF less.prems(2,3,4,5) n pk t]
    obtain q where "Select (rnd n) [] (jb_host j) p = (q, p1)"
      using pk by (auto simp: pick_def split: prod.splits sum.splits)
    note keeps = Select_keeps [OF this]
    have p1: "pool_ok p1" "small_pool p1" "length (Pool_List p1) = length (Pool_List p)"
      using keeps less.prems(2,3) by (simp_all add: Pool_List_def)
    have go: ?thesis if "st = Looping j r (Suc n) att' err'"
        and "failover_loop (\<lambda>k q. pick (rnd k) [] (jb_host j) q) (\<lambda>q. length (Pool_List q))
          (\<lambda>up. Dial (Some up) (jb_host j) (jb_port j)) (Suc n) att' err' p1 w1 = Some ((res, name), p', w')"
      for att' err'
    proof -
      have "length (Pool_List p1) * 2 - Suc n < length (Pool_List p) * 2 - n" using n p1(3) by simp
      from less.hyps [OF this that(2) p1(1,2) less.prems(4,5)] s that(1) show ?thesis
        by (simp add: rtranclp_trans)
    qed
    have stop: ?thesis if "st = dialled j r res name" "p' = p1" "w' = w1" using s that by simp
    show ?thesis
    proof (cases x)
      case (Inl e)
      with loop n pk t show ?thesis by (intro stop) (auto simp: turn_def)
    next
      case (Inr up)
      show ?thesis
      proof (cases "up_Name up \<notin> att \<and> (up_Type up = ''direct'' \<or> up_healthy up)")
        case False
        show ?thesis
        proof (cases "up_Name up \<in> att")
          case True
          with loop n pk t Inr show ?thesis by (intro go [of att err]) (auto simp: turn_def)
        next
          case new: False
          let ?err = "MarkedUnhealthy (up_Name up) (up_Addr up)"
          from False new loop n pk t Inr show ?thesis
            by (intro go [of "insert (up_Name up) att" ?err]) (auto simp: turn_def)
        qed
      next
        case yes: True
        obtain d w2 where d: "Dial (Some up) (jb_host j) (jb_port j) w = (d, w2)"
          by (cases "Dial (Some up) (jb_host j) (jb_port j) w")
        show ?thesis
        proof (cases d)
          case (Inl e)
          let ?err = "if up_Type up = ''direct'' then DirectDial e else DialFailed (up_Name up) (up_Addr up) e"
          from Inl loop n pk t \<open>x = Inr up\<close> yes d show ?thesis
            by (intro go [of "insert (up_Name up) att" ?err]) (auto simp: turn_def)
        next
          case (Inr conn)
          with loop n pk t \<open>x = Inr up\<close> yes d show ?thesis
            by (intro stop) (auto simp: turn_def split: if_splits)
        qed
      qed
    qed
  qed
qed

lemma dial_alone:
  assumes d: "dialWithFailover (\<lambda>_ q. q) rnd (jb_preferred j) (jb_host j) (jb_port j) p w = Some ((res, name), p', w')"
    and pool: "pool_ok p" "small_pool p" and rnd: "\<And>k. rand_ok (rnd k)"
  shows "(session_step W)\<^sup>*\<^sup>*
      (if jb_preferred j = [] then Looping j r 0 {} NoHealthyProxies else Picking j r 0 {} NoHealthyProxies,
       \<lparr>sh_pool = p, sh_cm = m, sh_net = w\<rparr>)
      (dialled j r res name, \<lparr>sh_pool = p', sh_cm = m, sh_net = w'\<rparr>)"
proof (cases "jb_preferred j = []")
  case True
  then show ?thesis using loop_alone [of rnd j 0] d pool rnd by (simp add: dialWithFailover_def)
next
  case False
  let ?sh = "\<lparr>sh_pool = p, sh_cm = m, sh_net = w\<rparr>"
  obtain q p1 where q: "Select (rnd 0) (jb_preferred j) (jb_host j) p = (q, p1)"
    by (cases "Select (rnd 0) (jb_preferred j) (jb_host j) p")
  have np: "\<forall>z. q \<noteq> Inl (SelectPanic z)"
    using Select_no_panic [OF pool(1) rnd pool(2), of 0 "jb_preferred j" "jb_host j"] q by simp
  have s1: "session_step W (Picking j r 0 {} NoHealthyProxies, ?sh)
      (choose_upstream (rnd 0) j r 0 {} NoHealthyProxies ?sh)"
    by (rule ss_choose) (simp_all add: rnd pool)
  show ?thesis
  proof (cases q)
    case (Inl e)
    then have "\<forall>z. e \<noteq> SelectPanic z" using np by simp
    then have "choose_upstream (rnd 0) j r 0 {} NoHealthyProxies ?sh =
        (dialled j r res name, \<lparr>sh_pool = p', sh_cm = m, sh_net = w'\<rparr>)"
      using q d Inl False by (cases e) (auto simp: choose_upstream_def dialWithFailover_def pick_def)
    with s1 False show ?thesis by auto
  next
    case (Inr u)
    let ?up = "p_obj p1 u" and ?sh1 = "\<lparr>sh_pool = p1, sh_cm = m, sh_net = w\<rparr>"
    have "choose_upstream (rnd 0) j r 0 {} NoHealthyProxies ?sh = (Dialling j r 0 {} u, ?sh1)"
      using q Inr False by (simp add: choose_upstream_def)
    with s1 ss_dial [of W j r 0 "{}" u ?sh1]
    have s2: "(session_step W)\<^sup>*\<^sup>* (Picking j r 0 {} NoHealthyProxies, ?sh) (dial_chosen j r 0 {} u ?sh1)"
      by (metis converse_rtranclp_into_rtranclp rtranclp.rtrancl_refl)
    obtain x w1 where x: "Dial (Some ?up) (jb_host j) (jb_port j) w = (x, w1)"
      by (cases "Dial (Some ?up) (jb_host j) (jb_port j) w")
    have np: "\<forall>z. x \<noteq> Inl (DialPanic z)" using Dial_no_panic [of ?up "jb_host j" "jb_port j" w] x by simp
    have "dial_chosen j r 0 {} u ?sh1 = (dialled j r res name, \<lparr>sh_pool = p', sh_cm = m, sh_net = w'\<rparr>)"
    proof (cases x)
      case (Inl e)
      then have "\<forall>z. e \<noteq> DialPanic z" using np by simp
      with x q \<open>q = Inr u\<close> d False Inl show ?thesis
        by (cases e) (auto simp: dial_chosen_def Let_def dialWithFailover_def pick_def)
    qed (use x q \<open>q = Inr u\<close> d False in \<open>auto simp: dial_chosen_def Let_def dialWithFailover_def pick_def\<close>)
    with s2 False show ?thesis by simp
  qed
qed

text \<open>The deferred calls.\<close>

definition shared_of :: "server \<Rightarrow> shared" where
  "shared_of sv = \<lparr>sh_pool = sv_Pool sv, sh_cm = sv_Cm sv, sh_net = sv_net sv\<rparr>"

fun outcome :: "session_result \<Rightarrow> server \<Rightarrow> stage" where
  "outcome (Refused c) sv = Over (Conns [c])"
| "outcome (NoUpstream err c) sv = Over (Conns [c])"
| "outcome (Dropped c u) sv = Over (Conns [c, u])"
| "outcome (Piping c u r) sv = Tunnelling (init_pipe c u r (sv_Cm sv))"
| "outcome (Panics x) sv = Crashed x"

lemma leave_alone:
  assumes "leave r res sv = (res', sv')" and "outcome res sv' = Over (Conns (map closeConn cs))"
  shows "(session_step W)\<^sup>*\<^sup>* (Leaving r (Conns cs), shared_of sv) (outcome res' sv', shared_of sv')"
proof -
  have s1: "session_step W (Leaving r (Conns cs), shared_of sv) (close_entry r (Conns cs) (shared_of sv))"
    by (rule ss_close)
  show ?thesis
  proof (cases "Entry_Close r (sv_Cm sv)")
    case (Inl x)
    with assms(1) s1 show ?thesis
      by (auto simp: leave_def end_session_def close_entry_def shared_of_def)
  next
    case (Inr m)
    let ?sh = "shared_of sv\<lparr>sh_cm := m\<rparr>"
    have "close_entry r (Conns cs) (shared_of sv) = (Unregistering r (Conns cs), ?sh)"
      using Inr by (simp add: close_entry_def shared_of_def)
    with s1 ss_unregister [of W r "Conns cs" ?sh]
    have "(session_step W)\<^sup>*\<^sup>* (Leaving r (Conns cs), shared_of sv) (unregister_entry r (Conns cs) ?sh)"
      by (metis converse_rtranclp_into_rtranclp rtranclp.rtrancl_refl)
    moreover have "res' = res" "sv' = sv\<lparr>sv_Cm := Unregister (e_ID (m_obj m r)) m\<rparr>"
      using assms(1) Inr by (auto simp: leave_def end_session_def)
    ultimately show ?thesis using assms(2) by (simp add: unregister_entry_def shared_of_def)
  qed
qed

lemma left_alone:
  assumes run: "serve (\<lambda>_ q. q) rnd (jb_entry j (newID b) now source) (jb_refusal j) (jb_announce j)
      (jb_preferred j) (jb_host j) (jb_port j) (jb_client j) sv = Some (res, sv')"
    and pool: "pool_ok (sv_Pool sv)" "small_pool (sv_Pool sv)" and rnd: "\<And>k. rand_ok (rnd k)"
    and ident: "length b = 8" "Manager_Get (newID b) (sv_Cm sv) = None"
  shows "(session_step W)\<^sup>*\<^sup>* (Parsed j, shared_of sv) (outcome res sv', shared_of sv')"
proof -
  let ?e = "jb_entry j (newID b) now source"
  obtain r m0 where new: "new_entry ?e (sv_Cm sv) = (r, m0)" by (cases "new_entry ?e (sv_Cm sv)")
  let ?m = "Register r m0" and ?st = "if jb_preferred j = [] then Looping j r 0 {} NoHealthyProxies
      else Picking j r 0 {} NoHealthyProxies"
  let ?sv = "\<lambda>m p w. \<lparr>sv_Pool = p, sv_Cm = m, sv_net = w\<rparr>"
  have s1: "session_step W (Parsed j, shared_of sv) (?st, (shared_of sv)\<lparr>sh_cm := ?m\<rparr>)"
    using ss_register [of b "shared_of sv" W j now source] ident new
    by (simp add: open_entry_def shared_of_def)
  obtain x name p w where d: "dialWithFailover (\<lambda>_ q. q) rnd (jb_preferred j) (jb_host j) (jb_port j)
      (sv_Pool sv) (sv_net sv) = Some ((x, name), p, w)"
    using run new by (auto simp: serve_def Let_def split: option.splits)
  from dial_alone [OF d pool rnd, of W r ?m] s1
  have s2: "(session_step W)\<^sup>*\<^sup>* (Parsed j, shared_of sv) (dialled j r x name, shared_of (?sv ?m p w))"
    by (simp add: shared_of_def converse_rtranclp_into_rtranclp)
  show ?thesis
  proof (cases x)
    case (Inl err)
    let ?c = "write_ignore (jb_refusal j) (jb_client j)"
    have "leave r (NoUpstream err (closeConn ?c)) (?sv ?m p w) = (res, sv')"
      using run new d Inl by (simp add: serve_def Let_def)
    from leave_alone [OF this, of "[?c]" W] rtranclp.rtrancl_into_rtrancl [OF s2 [unfolded Inl dialled.simps] ss_refuse]
    show ?thesis by (simp add: refuse_client_def)
  next
    case (Inr u0)
    let ?m2 = "SetProxy r name ?m"
    have s3: "(session_step W)\<^sup>*\<^sup>* (Parsed j, shared_of sv) (answer_client j r u0 name (shared_of (?sv ?m p w)))"
      by (rule rtranclp.rtrancl_into_rtrancl [OF s2 [unfolded Inr dialled.simps] ss_answer])
    obtain ok c u where a: "jb_announce j (jb_client j) u0 = (ok, c, u)"
      by (cases "jb_announce j (jb_client j) u0")
    show ?thesis
    proof (cases ok)
      case True
      then have "res = Piping c u r" "sv' = ?sv ?m2 p w"
        using run new d Inr a by (auto simp: serve_def Let_def)
      with s3 a True show ?thesis by (simp add: answer_client_def shared_of_def Let_def)
    next
      case False
      have l: "leave r (Dropped (closeConn c) (closeConn u)) (?sv ?m2 p w) = (res, sv')"
        using run new d Inr a False by (simp add: serve_def Let_def)
      have "map closeConn [c, closeConn u] = [closeConn c, closeConn u]" by (simp add: closeConn_def)
      with leave_alone [OF l, of "[c, closeConn u]" W] s3 a False show ?thesis
        by (simp add: answer_client_def shared_of_def)
    qed
  qed
qed


definition idle_world :: session_world where
  "idle_world = \<lparr>sw_readRequest = (\<lambda>c. (Inl EOF, c)), sw_writeRequest = (\<lambda>req c u. (True, c, u))\<rparr>"

definition example_job :: job where
  "example_job = socks5_job [] ''example.com'' 80 (fresh_conn [])"


end
