(* ===== verification/SessionBound.thy ===== *)
theory SessionBound
  imports SessionSteps
begin

text \<open>
  How long a session can take outside its tunnel (\<open>handle\<close> and \<open>dialWithFailover\<close> of
  \<open>internal/proxy/http.go\<close>), whatever the other goroutines do to the pool, the registry and the
  network between its steps.
\<close>

section \<open>What is left to do\<close>

text \<open>\<open>N\<close> bounds the upstreams that the pool ever lists, so the retry loop turns at most \<open>2 * N\<close> times.\<close>

fun rank :: "nat \<Rightarrow> stage \<Rightarrow> nat" where
  "rank N (Accepted f c) = 8 * N + 11"
| "rank N (Parsed j) = 8 * N + 10"
| "rank N (Looping j r n att err) = 4 * (2 * N - n) + 9"
| "rank N (Picking j r n att err) = 4 * (2 * N - n) + 8"
| "rank N (Picked j r n att err u) = 4 * (2 * N - n) + 7"
| "rank N (Dialling j r n att u) = 4 * (2 * N - n) + 6"
| "rank N (Connected j r u name) = 5"
| "rank N (Failed j r err) = 5"
| "rank N (Tunnelling p) = 4"
| "rank N (Leaving r q) = 3"
| "rank N (Unregistering r q) = 2"
| "rank N (Over q) = 1"
| "rank N (Crashed x) = 0"

text \<open>Inside a turn of the loop its number is below the bound.\<close>

fun turn_ok :: "nat \<Rightarrow> stage \<Rightarrow> bool" where
  "turn_ok N (Picking j r n att err) \<longleftrightarrow> jb_preferred j = [] \<longrightarrow> n < 2 * N"
| "turn_ok N (Picked j r n att err u) \<longleftrightarrow> n < 2 * N"
| "turn_ok N (Dialling j r n att u) \<longleftrightarrow> jb_preferred j = [] \<longrightarrow> n < 2 * N"
| "turn_ok N st \<longleftrightarrow> True"

lemma turn_ok_tunnel: "tunnel_of st = Some p \<Longrightarrow> turn_ok N (put_tunnel p' st)"
  by (cases st rule: tunnel_of.cases) simp_all

lemma rank_begin: "turn_ok N (begin_session W f c) \<and> rank N (begin_session W f c) < 8 * N + 11"
  by (cases f) (auto split: prod.split sum.split)

lemma rank_turn: "n < 2 * N \<Longrightarrow> 4 * (2 * N - (n + 1)) + 9 < 4 * (2 * N - n) + 6" for n N :: nat
  by linarith

lemma session_step_rank:
  assumes "session_step W (st, sh) (st', sh')" and "length (Pool_List (sh_pool sh)) \<le> N" and "turn_ok N st"
  shows "turn_ok N st' \<and> ((\<exists>p. st' = put_tunnel p st) \<or> rank N st' < rank N st)"
  using assms(1)
proof cases
  case (ss_begin f c)
  with rank_begin [of N W f c] show ?thesis by simp
next
  case (ss_register b j now source)
  then show ?thesis by (auto simp: open_entry_def Let_def split: prod.splits)
next
  case (ss_check j r n att err)
  with assms(2) show ?thesis by (auto simp: check_bound_def)
next
  case (ss_choose rnd j r n att err)
  with assms(3) show ?thesis
    by (auto simp: choose_upstream_def split: prod.splits sum.splits pool_error.splits)
next
  case (ss_consider j r n att err u)
  with assms(3) rank_turn [of n N] show ?thesis by (auto simp: consider_upstream_def Let_def)
next
  case (ss_dial j r n att u)
  with assms(3) rank_turn [of n N] show ?thesis
    by (auto simp: dial_chosen_def Let_def split: prod.splits sum.splits dial_error.splits)
next
  case (ss_answer j r u name)
  then show ?thesis by (auto simp: answer_client_def Let_def split: prod.splits bool.splits)
next
  case (ss_pipe p p')
  with turn_ok_tunnel show ?thesis by blast
next
  case (ss_deadline p)
  then show ?thesis by (auto intro: exI [of _ "p\<lparr>pi_late := True\<rparr>"])
next
  case (ss_close r q)
  then show ?thesis by (auto simp: close_entry_def split: sum.splits)
qed (auto simp: refuse_client_def leave_tunnel_def unregister_entry_def)

section \<open>A session among others\<close>

text \<open>
  The steps of one session, with the shared state changed arbitrarily in between but for the number of
  upstreams, and how many of them are not steps of its tunnel.
\<close>

inductive session_course :: "session_world \<Rightarrow> nat \<Rightarrow> stage \<Rightarrow> nat \<Rightarrow> stage \<Rightarrow> bool" for W N st0 where
  course_start: "session_course W N st0 0 st0"
| course_tunnel: "session_course W N st0 n st \<Longrightarrow> session_step W (st, sh) (put_tunnel p st, sh') \<Longrightarrow>
    length (Pool_List (sh_pool sh)) \<le> N \<Longrightarrow> session_course W N st0 n (put_tunnel p st)"
| course_step: "session_course W N st0 n st \<Longrightarrow> session_step W (st, sh) (st', sh') \<Longrightarrow>
    length (Pool_List (sh_pool sh)) \<le> N \<Longrightarrow> (\<And>p. st' \<noteq> put_tunnel p st) \<Longrightarrow> session_course W N st0 (Suc n) st'"

lemma rank_tunnel: "rank N (put_tunnel p st) = rank N st"
  by (cases "(p, st)" rule: put_tunnel.cases) simp_all

text \<open>
  C14. A session takes only a bounded number of steps outside its tunnel: at most eleven, and
  eight for each upstream that the pool lists at its largest, from the accepted connection to the
  closed one, however the other goroutines change the pool, the registry and the health of the
  upstreams between any two of its steps. Once that many are done, it is over.
\<close>

theorem session_bounded:
  assumes "session_course W N (Accepted f c) n st"
  shows "n + rank N st \<le> 8 * N + 11 \<and> (8 * N + 10 \<le> n \<longrightarrow> (\<exists>q. st = Over q) \<or> (\<exists>x. st = Crashed x))"
proof -
  have "turn_ok N st \<and> n + rank N st \<le> 8 * N + 11"
    using assms
  proof (induction rule: session_course.induct)
    case course_start
    then show ?case by simp
  next
    case (course_tunnel n st sh p sh')
    with session_step_rank [OF course_tunnel.hyps(2,3)] show ?case by (simp add: rank_tunnel)
  next
    case (course_step n st sh st' sh')
    with session_step_rank [OF course_step.hyps(2,3)] show ?case by fastforce
  qed
  then show ?thesis by (cases st) simp_all
qed

theorem session_bounded_witness:
  "\<exists>W c q. session_course W 0 (Accepted SOCKS5Front c) 1 (Over q) \<and> 1 + rank 0 (Over q) \<le> 11"
proof -
  let ?c = "fresh_conn []"
  obtain e c where e: "srv_negotiate (?c\<lparr>c_deadline := True\<rparr>) = (Inl e, c)"
  proof -
    have "fst (srv_negotiate (?c\<lparr>c_deadline := True\<rparr>)) = Inl (projl (fst (srv_negotiate (?c\<lparr>c_deadline := True\<rparr>))))"
      by code_simp
    then show ?thesis using that by (metis prod.collapse)
  qed
  let ?sh = "\<lparr>sh_pool = empty_pool [], sh_cm = NewManager, sh_net = undefined\<rparr>" and ?st = "Over (Conns [closeConn c])"
  have begin_over: "begin_session W SOCKS5Front ?c = ?st" for W using e by simp
  have "session_course W 0 (Accepted SOCKS5Front ?c) (Suc 0) ?st" for W
  proof (rule course_step [OF course_start])
    show "session_step W (Accepted SOCKS5Front ?c, ?sh) (?st, ?sh)"
      using ss_begin [of W SOCKS5Front ?c ?sh] by (simp only: begin_over)
    show "length (Pool_List (sh_pool ?sh)) \<le> 0" by (simp add: Pool_List_def empty_pool_def)
  qed simp
  with session_bounded [OF this] show ?thesis by (simp only: One_nat_def mult_0_right add_0) blast
qed

end
