(* ===== verification/RegistryFrame.thy ===== *)
theory RegistryFrame
  imports ConnTrack
begin

text \<open>
  What the users of the registry (\<open>internal/conntrack/conn.go\<close>) may expect of each other: how
  each operation looks to those whose entries it does not touch. The sessions and the API are
  both stated over these relations.
\<close>

section \<open>Changes that leave entries alone\<close>

text \<open>A change of the registry that does not count on the entries of \<open>R\<close> and reopens none of them.\<close>

definition frame :: "eref set \<Rightarrow> manager \<Rightarrow> manager \<Rightarrow> bool" where
  "frame R m m' \<longleftrightarrow> (m' = m \<or> cm_step m m') \<and>
     (\<forall>r \<in> R. e_Upload (m_obj m' r) = e_Upload (m_obj m r) \<and> e_Download (m_obj m' r) = e_Download (m_obj m r) \<and>
        (Closed r m \<longrightarrow> Closed r m'))"

lemma frame_refl [simp]: "frame R m m"
  by (simp add: frame_def)

lemma frame_subset: "frame R m m' \<Longrightarrow> R' \<subseteq> R \<Longrightarrow> frame R' m m'"
  by (auto simp: frame_def)

lemma frame_cm_ok: "frame R m m' \<Longrightarrow> cm_ok m \<Longrightarrow> cm_ok m'"
  using cm_ok_step by (auto simp: frame_def)

lemma frame_SetProxy: "frame R m (SetProxy r n m)"
  using step_proxy [of m r n] by (simp add: frame_def Closed_def SetProxy_def)

lemma frame_mark_closed: "e_cancel (m_obj m r) \<noteq> NilChan \<Longrightarrow> cm_ok m \<Longrightarrow> frame R m (mark_closed r m)"
  using step_close [of m r "mark_closed r m"] Entry_Close_eq [of m r]
  by (simp add: frame_def Closed_def cm_okD(1))

lemma frame_Unregister: "frame R m (Unregister i m)"
  using step_unregister [of m i] by (simp add: frame_def Closed_def)

lemma counting_frame:
  "frame {s. s \<noteq> r} m (AddUpload r n m)" "frame {s. s \<noteq> r} m (AddDownload r n m)"
  "m_entries (AddUpload r n m) = m_entries m" "m_entries (AddDownload r n m) = m_entries m"
  using step_upload [of m r n] step_download [of m r n]
  by (simp_all add: frame_def Closed_def) (simp_all add: AddUpload_def AddDownload_def)

section \<open>Changes that leave the map alone\<close>

text \<open>
  What a request of the API does to the registry: it may close connections, in steps that
  count on none, and never changes who is registered.
\<close>

definition same_registry :: "manager \<Rightarrow> manager \<Rightarrow> bool" where
  "same_registry m m' \<longleftrightarrow> m_entries m' = m_entries m \<and> (frame UNIV)\<^sup>*\<^sup>* m m'"

lemma same_registry_refl [simp]: "same_registry m m"
  by (simp add: same_registry_def)

lemma same_registry_step: "frame UNIV m m1 \<Longrightarrow> m_entries m1 = m_entries m \<Longrightarrow> same_registry m1 m' \<Longrightarrow> same_registry m m'"
  by (auto simp: same_registry_def intro: converse_rtranclp_into_rtranclp)

lemma same_registry_trans: "same_registry m m1 \<Longrightarrow> same_registry m1 m' \<Longrightarrow> same_registry m m'"
  by (auto simp: same_registry_def)

lemma frames_induct:
  assumes "(frame R)\<^sup>*\<^sup>* m m'" and "P m" and "\<And>n n'. P n \<Longrightarrow> frame R n n' \<Longrightarrow> P n'"
  shows "P m'"
  using assms by (induction rule: rtranclp_induct) auto

lemma same_registry_keeps:
  assumes "same_registry m m'"
  shows "cm_ok m \<Longrightarrow> cm_ok m'" "Closed e m \<Longrightarrow> Closed e m'"
proof -
  note frames = assms [unfolded same_registry_def, THEN conjunct2]
  show "cm_ok m \<Longrightarrow> cm_ok m'" by (rule frames_induct [OF frames]) (auto intro: frame_cm_ok)
  show "Closed e m \<Longrightarrow> Closed e m'" by (rule frames_induct [OF frames]) (auto simp: frame_def)
qed

lemma close_each_same:
  assumes "cm_ok m" and "\<forall>r \<in> set rs. e_cancel (m_obj m r) \<noteq> NilChan" and "close_each rs m = Inr m'"
  shows "same_registry m m' \<and> (\<forall>r \<in> set rs. Closed r m')"
  using assms
proof (induction rs arbitrary: m)
  case (Cons r rs)
  let ?m = "mark_closed r m"
  have n: "e_cancel (m_obj m r) \<noteq> NilChan" using Cons.prems(2) by simp
  have "Entry_Close r m = Inr ?m" by (rule Entry_Close_eq [OF cm_okD(1) [OF Cons.prems(1)] n])
  then have "close_each rs ?m = Inr m'" using Cons.prems(3) by simp
  moreover have "\<forall>s \<in> set rs. e_cancel (m_obj ?m s) \<noteq> NilChan" using Cons.prems(2) by simp
  ultimately have IH: "same_registry ?m m'" "\<forall>r \<in> set rs. Closed r m'"
    using Cons.IH [OF cm_ok_mark_closed [OF Cons.prems(1)]] by blast+
  have "Closed r m'" by (rule same_registry_keeps(2) [OF IH(1)]) (simp add: Closed_def)
  with IH show ?case
    using same_registry_step [OF frame_mark_closed [OF n Cons.prems(1)] _ IH(1)] by simp
qed simp

lemma CloseAll_ok:
  assumes "cm_ok m"
  shows "\<exists>m'. CloseAll order m = Inr m' \<and> cm_ok m' \<and> same_registry m m' \<and>
    (\<forall>r. r \<in> set (collect order m) \<longrightarrow> Closed r m')"
proof -
  have n: "\<forall>r \<in> set (collect order m). e_cancel (m_obj m r) \<noteq> NilChan"
    using cm_okD(4) [OF assms] by (auto simp: collect_mem)
  from close_each_eq [OF assms n] obtain m' where m': "CloseAll order m = Inr m'"
    by (auto simp: CloseAll_def)
  with close_each_same [OF assms n] have "same_registry m m'" "\<forall>r \<in> set (collect order m). Closed r m'"
    by (auto simp: CloseAll_def)
  with m' same_registry_keeps(1) assms show ?thesis by blast
qed

lemma Entry_Close_ok:
  assumes "cm_ok m" and "Manager_Get i m = Some e"
  shows "Entry_Close e m = Inr (mark_closed e m) \<and> cm_ok (mark_closed e m) \<and> same_registry m (mark_closed e m)"
proof -
  have n: "e_cancel (m_obj m e) \<noteq> NilChan" using cm_okD(4) [OF assms(1)] assms(2) by (simp add: Manager_Get_def)
  from same_registry_step [OF frame_mark_closed [OF n assms(1)] _ same_registry_refl]
  show ?thesis
    using Entry_Close_eq [OF cm_okD(1) [OF assms(1)] n] cm_ok_mark_closed [OF assms(1)] by simp
qed

end
