(* ===== verification/Sessions.thy ===== *)
theory Sessions
  imports SessionSteps RegistryFrame
begin

text \<open>
  All the sessions of the proxy servers at once, over the registry, the pool and the network
  they share. The invariant ties the registry to the sessions: what it holds are the entries
  of the sessions that are being served, each of one session; a tunnel among other sessions is
  still a tunnel in the sense of \<open>Pipe\<close>.
\<close>

section \<open>What a session holds\<close>

text \<open>The entry a session has in the registry.\<close>

fun held :: "stage \<Rightarrow> eref option" where
  "held (Looping j r n att err) = Some r"
| "held (Picking j r n att err) = Some r"
| "held (Picked j r n att err u) = Some r"
| "held (Dialling j r n att u) = Some r"
| "held (Connected j r u name) = Some r"
| "held (Failed j r err) = Some r"
| "held (Tunnelling p) = Some (pi_entry p)"
| "held (Leaving r q) = Some r"
| "held (Unregistering r q) = Some r"
| "held _ = None"

definition job_ok :: "job \<Rightarrow> bool" where
  "job_ok j \<longleftrightarrow> (\<forall>ident now source. fresh_entry (jb_entry j ident now source) \<and>
     e_ID (jb_entry j ident now source) = ident)"

definition untouched :: "eref \<Rightarrow> manager \<Rightarrow> bool" where
  "untouched r m \<longleftrightarrow> e_Upload (m_obj m r) = 0 \<and> e_Download (m_obj m r) = 0"

text \<open>A tunnel whose waiter has returned.\<close>

definition settled :: "pipe \<Rightarrow> bool" where
  "settled p \<longleftrightarrow> pi_main p = Returned \<and> c_closed (pi_client p) \<and> c_closed (pi_upstream p)"

fun rest_ok :: "residue \<Rightarrow> bool" where
  "rest_ok (Conns cs) = True"
| "rest_ok (Rest p) = settled p"

fun all_closed :: "residue \<Rightarrow> bool" where
  "all_closed (Conns cs) = (\<forall>c \<in> set cs. c_closed c)"
| "all_closed (Rest p) = settled p"

definition live_tunnel :: "manager \<Rightarrow> pipe \<Rightarrow> bool" where
  "live_tunnel m p \<longleftrightarrow> (\<exists>c0 u0. reach (pipe_start c0 u0) world_step (p\<lparr>pi_cm := m\<rparr>))"

fun stage_ok :: "manager \<Rightarrow> stage \<Rightarrow> bool" where
  "stage_ok m (Accepted f c) = True"
| "stage_ok m (Parsed j) = job_ok j"
| "stage_ok m (Looping j r n att err) = untouched r m"
| "stage_ok m (Picking j r n att err) = untouched r m"
| "stage_ok m (Picked j r n att err u) = untouched r m"
| "stage_ok m (Dialling j r n att u) = untouched r m"
| "stage_ok m (Connected j r u name) = untouched r m"
| "stage_ok m (Failed j r err) = True"
| "stage_ok m (Tunnelling p) = live_tunnel m p"
| "stage_ok m (Leaving r q) = rest_ok q"
| "stage_ok m (Unregistering r q) = (Closed r m \<and> rest_ok q)"
| "stage_ok m (Over q) = all_closed q"
| "stage_ok m (Crashed x) = False"

section \<open>What others do to it\<close>

lemma live_tunnel_frame:
  assumes "live_tunnel m p" and "frame R m m'" and "pi_entry p \<in> R"
  shows "live_tunnel m' p"
proof -
  from assms(1) obtain c0 u0 where r: "reach (pipe_start c0 u0) world_step (p\<lparr>pi_cm := m\<rparr>)"
    by (auto simp: live_tunnel_def)
  show ?thesis
  proof (cases "m' = m")
    case False
    then have "outer_step (p\<lparr>pi_cm := m\<rparr>) (p\<lparr>pi_cm := m\<rparr>\<lparr>pi_cm := m'\<rparr>)"
      using assms(2,3) by (intro registry) (auto simp: frame_def)
    then have "world_step (p\<lparr>pi_cm := m\<rparr>) (p\<lparr>pi_cm := m'\<rparr>)" by (simp add: world_step_def)
    from reach_step [OF r this] show ?thesis by (auto simp: live_tunnel_def)
  qed (use assms(1) in simp)
qed

lemma stage_ok_frame:
  assumes "stage_ok m st" and "frame R m m'" and "\<And>r. held st = Some r \<Longrightarrow> r \<in> R"
  shows "stage_ok m' st"
  using assms live_tunnel_frame [OF _ assms(2)] by (cases st) (auto simp: frame_def untouched_def)

section \<open>What a step of a session does\<close>

lemma begin_session_ok: "stage_ok m (begin_session W f c) \<and> held (begin_session W f c) = None"
proof (cases f)
  case HTTPFront
  obtain res c' where "sw_readRequest W (c\<lparr>c_deadline := True\<rparr>) = (res, c')"
    by (cases "sw_readRequest W (c\<lparr>c_deadline := True\<rparr>)")
  with HTTPFront show ?thesis
    by (cases res) (simp_all add: http_job_def joinedHost_eq job_ok_def http_entry_fresh Let_def
        split: prod.split)
next
  case SOCKS5Front
  obtain res c' where "srv_negotiate (c\<lparr>c_deadline := True\<rparr>) = (res, c')"
    by (cases "srv_negotiate (c\<lparr>c_deadline := True\<rparr>)")
  moreover have "fresh_entry (socks5_entry i n s h p)" "e_ID (socks5_entry i n s h p) = i" for i n s h p
    by (simp_all add: socks5_entry_def fresh_entry_def zero_entry_def)
  ultimately show ?thesis using SOCKS5Front
    by (cases res) (auto simp: socks5_job_def job_ok_def split: prod.split)
qed

lemma pipe_step_cm:
  assumes "pipe_step s t"
  shows "pi_entry t = pi_entry s \<and> (pi_cm t = pi_cm s \<or> (\<exists>n. pi_cm t = AddUpload (pi_entry s) n (pi_cm s)) \<or>
      (\<exists>n. pi_cm t = AddDownload (pi_entry s) n (pi_cm s)))"
  using assms
  by (cases rule: pipe_step.cases)
    (simp_all add: up_read_def up_write_def down_read_def down_write_def take_done_def
      take_signal_def take_other_def close_both_def split: prod.split sum.split, blast+)

lemma settled_step:
  assumes "pipe_step (p\<lparr>pi_cm := m\<rparr>) p'" and "settled p"
  shows "settled p' \<and> pi_cm p' = m"
  using assms
  by (auto elim!: pipe_stepE simp: settled_def up_read_def up_write_def down_read_def down_write_def
      readConn_closed writeConn_closed)

text \<open>How the map changes with what a session holds.\<close>

definition books :: "stage \<Rightarrow> stage \<Rightarrow> manager \<Rightarrow> manager \<Rightarrow> bool" where
  "books st st' m m' \<longleftrightarrow>
     (held st' = held st \<and> m_entries m' = m_entries m) \<or>
     (\<exists>i. held st = None \<and> held st' = Some (m_next m) \<and> m_entries m i = None \<and>
        m_entries m' = (m_entries m)(i \<mapsto> m_next m)) \<or>
     (\<exists>i r. held st = Some r \<and> held st' = None \<and> m_entries m i = Some r \<and>
        m_entries m' = (m_entries m)(i := None))"

lemma booksI: "held st' = held st \<Longrightarrow> m_entries m' = m_entries m \<Longrightarrow> books st st' m m'"
  by (simp add: books_def)

lemma held_put_tunnel: "tunnel_of st = Some p \<Longrightarrow> pi_entry p' = pi_entry p \<Longrightarrow> held (put_tunnel p' st) = held st"
  by (cases st rule: tunnel_of.cases) simp_all

definition step_ok :: "stage \<Rightarrow> shared \<Rightarrow> stage \<Rightarrow> shared \<Rightarrow> bool" where
  "step_ok st sh st' sh' \<longleftrightarrow> (sh_pool sh' = sh_pool sh \<or> pool_step (sh_pool sh) (sh_pool sh')) \<and>
     frame {r. r < m_next (sh_cm sh) \<and> held st \<noteq> Some r} (sh_cm sh) (sh_cm sh') \<and>
     books st st' (sh_cm sh) (sh_cm sh') \<and> stage_ok (sh_cm sh') st'"

lemma step_ok_local:
  "held st' = held st \<Longrightarrow> sh_cm sh' = sh_cm sh \<Longrightarrow> sh_pool sh' = sh_pool sh \<Longrightarrow> stage_ok (sh_cm sh) st' \<Longrightarrow>
   step_ok st sh st' sh'"
  by (simp add: step_ok_def booksI)

lemma open_entry_step_ok:
  assumes "cm_ok (sh_cm sh)" and "job_ok j" and "Manager_Get i (sh_cm sh) = None"
    and "open_entry i now source j sh = (st', sh')"
  shows "step_ok (Parsed j) sh st' sh'"
proof -
  let ?m = "sh_cm sh" and ?e = "jb_entry j i now source"
  obtain r m0 where new: "new_entry ?e ?m = (r, m0)" by (cases "new_entry ?e ?m")
  have e: "fresh_entry ?e" "e_ID ?e = i" using assms(2) by (simp_all add: job_ok_def)
  note op = opened [OF assms(1) e(1) new]
  have r: "r = m_next ?m" and obj: "m_obj m0 s = (if s = r then ?e else m_obj ?m s)" for s
    using new by (auto simp: new_entry_def)
  have st: "held st' = Some r" "sh_cm sh' = Register r m0" "sh_pool sh' = sh_pool sh"
    "stage_ok (Register r m0) st' = untouched r (Register r m0)"
    using assms(4) new by (auto simp: open_entry_def split: if_splits)
  have "cm_step ?m (Register r m0)" using e(1) new by (intro step_register) (auto simp: fresh_entry_def)
  moreover have "m_obj (Register r m0) s = m_obj ?m s" if "s < m_next ?m" for s
    using that r by (simp add: obj)
  ultimately have "frame {r. r < m_next ?m \<and> held (Parsed j) \<noteq> Some r} ?m (Register r m0)"
    by (simp add: frame_def Closed_def)
  moreover have "untouched r (Register r m0)" using e(1) op(5) by (simp add: untouched_def fresh_entry_def)
  moreover have "books (Parsed j) st' ?m (Register r m0)"
    using op(4) e(2) assms(3) st(1) r by (auto simp: books_def Manager_Get_def)
  ultimately show ?thesis by (simp add: step_ok_def st)
qed

lemma choose_step_ok:
  assumes "pool_ok (sh_pool sh)" and "stage_ok (sh_cm sh) (Picking j r n att err)"
    and "rand_ok rnd" and "small_pool (sh_pool sh)"
    and "choose_upstream rnd j r n att err sh = (st', sh')"
  shows "step_ok (Picking j r n att err) sh st' sh'"
proof -
  obtain q p where q: "Select rnd (jb_preferred j) (jb_host j) (sh_pool sh) = (q, p)"
    by (cases "Select rnd (jb_preferred j) (jb_host j) (sh_pool sh)")
  have np: "\<forall>z. q \<noteq> Inl (SelectPanic z)"
    using Select_no_panic [OF assms(1,3,4), of "jb_preferred j" "jb_host j"] q by simp
  have sh': "sh' = sh\<lparr>sh_pool := p\<rparr>" using assms(5) q by (simp add: choose_upstream_def)
  have "held st' = Some r \<and> stage_ok (sh_cm sh) st'"
  proof (cases q)
    case (Inl e)
    with assms(2,5) q np show ?thesis by (cases e) (auto simp: choose_upstream_def)
  qed (use assms(2,5) q in \<open>auto simp: choose_upstream_def\<close>)
  moreover have "pool_step (sh_pool sh) p"
    using step_select [of "sh_pool sh" rnd "jb_preferred j" "jb_host j"] q by simp
  ultimately show ?thesis by (simp add: step_ok_def sh' booksI)
qed

lemma dial_step_ok:
  assumes "stage_ok (sh_cm sh) (Dialling j r n att u)" and "dial_chosen j r n att u sh = (st', sh')"
  shows "step_ok (Dialling j r n att u) sh st' sh'"
proof -
  let ?up = "p_obj (sh_pool sh) u"
  obtain q w where q: "Dial (Some ?up) (jb_host j) (jb_port j) (sh_net sh) = (q, w)"
    by (cases "Dial (Some ?up) (jb_host j) (jb_port j) (sh_net sh)")
  have np: "\<forall>z. q \<noteq> Inl (DialPanic z)"
    using Dial_no_panic [of ?up "jb_host j" "jb_port j" "sh_net sh"] q by simp
  have sh': "sh' = sh\<lparr>sh_net := w\<rparr>" using assms(2) q by (simp add: dial_chosen_def Let_def)
  have "held st' = Some r \<and> stage_ok (sh_cm sh) st'"
  proof (cases q)
    case (Inl e)
    with assms q np show ?thesis by (cases e) (auto simp: dial_chosen_def Let_def)
  qed (use assms q in \<open>auto simp: dial_chosen_def Let_def\<close>)
  then show ?thesis by (intro step_ok_local) (simp_all add: sh')
qed

lemma answer_step_ok:
  assumes "stage_ok (sh_cm sh) (Connected j r u name)" and "answer_client j r u name sh = (st', sh')"
  shows "step_ok (Connected j r u name) sh st' sh'"
proof -
  let ?m = "SetProxy r name (sh_cm sh)"
  have "untouched r ?m" using assms(1) by (simp add: untouched_def)
  then have "live_tunnel ?m (init_pipe c u r ?m)" for c u
    unfolding live_tunnel_def untouched_def pipe_start_def
    by (intro exI [of _ c] exI [of _ u] reach_start) (auto simp: init_pipe_def)
  with assms(2) show ?thesis
    by (auto simp: step_ok_def answer_client_def Let_def frame_SetProxy init_pipe_def
        intro!: booksI split: prod.splits bool.splits)
qed

text \<open>A tunnel goes on: a step of its own, or the deadline of its clean-up.\<close>

lemma live_tunnel_step:
  assumes "live_tunnel m p" and "world_step (p\<lparr>pi_cm := m\<rparr>) p'"
  shows "live_tunnel (pi_cm p') p'"
proof -
  from assms(1) obtain c0 u0 where "reach (pipe_start c0 u0) world_step (p\<lparr>pi_cm := m\<rparr>)"
    by (auto simp: live_tunnel_def)
  from reach_step [OF this assms(2)] have "reach (pipe_start c0 u0) world_step (p'\<lparr>pi_cm := pi_cm p'\<rparr>)"
    by simp
  then show ?thesis unfolding live_tunnel_def by blast
qed

lemma live_tunnel_late: "live_tunnel m p \<Longrightarrow> live_tunnel m (p\<lparr>pi_late := True\<rparr>)"
proof -
  assume "live_tunnel m p"
  moreover have "world_step (p\<lparr>pi_cm := m\<rparr>) (p\<lparr>pi_cm := m, pi_late := True\<rparr>)"
    unfolding world_step_def by (rule disjI2) (rule outer_step.deadline)
  ultimately have "live_tunnel m (p\<lparr>pi_cm := m, pi_late := True\<rparr>)" by (auto dest: live_tunnel_step)
  then show ?thesis by (simp add: live_tunnel_def)
qed

lemma live_tunnel_returned: "live_tunnel m p \<Longrightarrow> pi_main p = Returned \<Longrightarrow> settled p"
  using pipe_sys.reach_inv by (fastforce simp: live_tunnel_def settled_def pipe_inv_def signals_ok_def)

text \<open>A step of the goroutines of a tunnel, while it is served and after.\<close>

lemma tunnel_step_ok:
  assumes "live_tunnel (sh_cm sh) p" and "pipe_step (p\<lparr>pi_cm := sh_cm sh\<rparr>) p'"
  shows "step_ok (Tunnelling p) sh (Tunnelling p') (sh\<lparr>sh_cm := pi_cm p'\<rparr>)"
proof -
  note cm = pipe_step_cm [OF assms(2)]
  have "live_tunnel (pi_cm p') p'"
    using live_tunnel_step [OF assms(1)] assms(2) by (simp add: world_step_def)
  moreover have "frame {r. r < m_next (sh_cm sh) \<and> held (Tunnelling p) \<noteq> Some r} (sh_cm sh) (pi_cm p')"
    by (rule frame_subset [of "{s. s \<noteq> pi_entry p}"]) (use cm counting_frame in auto)
  moreover have "m_entries (pi_cm p') = m_entries (sh_cm sh)" using cm counting_frame by auto
  ultimately show ?thesis using cm by (auto simp: step_ok_def intro!: booksI)
qed

lemma residue_step_ok:
  assumes "tunnel_of st = Some p" and "\<nexists>q. st = Tunnelling q" and "stage_ok (sh_cm sh) st"
    and "pipe_step (p\<lparr>pi_cm := sh_cm sh\<rparr>) p'"
  shows "step_ok st sh (put_tunnel p' st) (sh\<lparr>sh_cm := pi_cm p'\<rparr>)"
proof -
  have "settled p" using assms(1-3) by (cases st rule: tunnel_of.cases) auto
  from settled_step [OF assms(4) this] have p': "settled p'" "pi_cm p' = sh_cm sh" by simp_all
  have "stage_ok (sh_cm sh) (put_tunnel p' st)"
    using p'(1) assms(1-3) by (cases st rule: tunnel_of.cases) auto
  with p'(2) held_put_tunnel [OF assms(1)] pipe_step_cm [OF assms(4)] show ?thesis
    by (intro step_ok_local) simp_all
qed

text \<open>The two halves of the deferred clean-up.\<close>

lemma close_step_ok:
  assumes "cm_ok (sh_cm sh)" and "r \<in> ran (m_entries (sh_cm sh))" and "rest_ok q"
    and "close_entry r q sh = (st', sh')"
  shows "step_ok (Leaving r q) sh st' sh'"
proof -
  from assms(2) obtain i where i: "m_entries (sh_cm sh) i = Some r" by (auto simp: ran_def)
  from cm_okD(4) [OF assms(1) i] have n: "e_cancel (m_obj (sh_cm sh) r) \<noteq> NilChan" .
  have "st' = Unregistering r q" "sh' = sh\<lparr>sh_cm := mark_closed r (sh_cm sh)\<rparr>"
    using assms(4) Entry_Close_eq [OF cm_okD(1) [OF assms(1)] n] by (simp_all add: close_entry_def)
  with assms(3) show ?thesis
    by (simp add: step_ok_def booksI frame_mark_closed [OF n assms(1)] Closed_def)
qed

lemma unregister_step_ok:
  assumes "cm_ok (sh_cm sh)" and "r \<in> ran (m_entries (sh_cm sh))" and "rest_ok q"
    and "unregister_entry r q sh = (st', sh')"
  shows "step_ok (Unregistering r q) sh st' sh'"
proof -
  from assms(2) obtain i where i: "m_entries (sh_cm sh) i = Some r" by (auto simp: ran_def)
  from cm_okD(3) [OF assms(1) i] have e: "e_ID (m_obj (sh_cm sh) r) = i" .
  have "all_closed (close_residue q)" using assms(3) by (cases q) (auto simp: settled_def)
  with assms(4) i show ?thesis
    by (auto simp: unregister_entry_def e step_ok_def frame_Unregister books_def)
qed

lemma session_step_ok:
  assumes step: "session_step W (st, sh) (st', sh')"
    and ok: "pool_ok (sh_pool sh)" "cm_ok (sh_cm sh)" "stage_ok (sh_cm sh) st"
    and reg: "\<And>r. held st = Some r \<Longrightarrow> r \<in> ran (m_entries (sh_cm sh))"
  shows "step_ok st sh st' sh'"
  using step
proof cases
  case (ss_begin f c)
  with begin_session_ok [of "sh_cm sh" W f c] show ?thesis by (intro step_ok_local) simp_all
next
  case (ss_register b j now source)
  with open_entry_step_ok [OF ok(2) _ ss_register(4)] ok(3) show ?thesis by simp
next
  case (ss_check j r n att err)
  with ok(3) show ?thesis by (intro step_ok_local) (simp_all add: check_bound_def)
next
  case (ss_choose rnd j r n att err)
  with choose_step_ok [OF ok(1) _ ss_choose(3,4)] ok(3) show ?thesis by simp
next
  case (ss_consider j r n att err u)
  with ok(3) show ?thesis by (intro step_ok_local) (simp_all add: consider_upstream_def Let_def)
next
  case (ss_dial j r n att u)
  with dial_step_ok ok(3) show ?thesis by simp
next
  case (ss_answer j r u name)
  with answer_step_ok ok(3) show ?thesis by simp
next
  case (ss_refuse j r err)
  then show ?thesis by (intro step_ok_local) (simp_all add: refuse_client_def)
next
  case (ss_pipe p p')
  show ?thesis
  proof (cases "\<exists>q. st = Tunnelling q")
    case True
    with ss_pipe tunnel_step_ok ok(3) show ?thesis by auto
  next
    case False
    with ss_pipe residue_step_ok [OF ss_pipe(3) _ ok(3) ss_pipe(4)] show ?thesis by simp
  qed
next
  case (ss_deadline p)
  with ok(3) live_tunnel_late show ?thesis by (intro step_ok_local) simp_all
next
  case (ss_return p)
  with ok(3) live_tunnel_returned [of "sh_cm sh" p] show ?thesis
    by (intro step_ok_local) (simp_all add: leave_tunnel_def settled_def)
next
  case (ss_close r q)
  with close_step_ok [OF ok(2) reg] ok(3) show ?thesis by simp
next
  case (ss_unregister r q)
  with unregister_step_ok [OF ok(2) reg] ok(3) show ?thesis by simp
qed

section \<open>All sessions\<close>

text \<open>
  The sessions by number. The registry holds exactly their entries, each of one session; no
  session has panicked; a session that is over has closed its connections.
\<close>

definition sessions_ok :: "shared \<Rightarrow> stage list \<Rightarrow> bool" where
  "sessions_ok sh S \<longleftrightarrow> pool_inv (sh_pool sh) \<and> cm_ok (sh_cm sh) \<and>
     (\<forall>k < length S. stage_ok (sh_cm sh) (S ! k)) \<and>
     (\<forall>r. r \<in> ran (m_entries (sh_cm sh)) \<longleftrightarrow> (\<exists>k < length S. held (S ! k) = Some r)) \<and>
     (\<forall>k < length S. \<forall>l < length S. \<forall>r. held (S ! k) = Some r \<longrightarrow> held (S ! l) = Some r \<longrightarrow> k = l)"

lemma sessions_okD:
  assumes "sessions_ok sh S"
  shows "pool_inv (sh_pool sh)" "cm_ok (sh_cm sh)" "k < length S \<Longrightarrow> stage_ok (sh_cm sh) (S ! k)"
    "k < length S \<Longrightarrow> held (S ! k) = Some r \<Longrightarrow> r \<in> ran (m_entries (sh_cm sh))"
    "r \<in> ran (m_entries (sh_cm sh)) \<Longrightarrow> \<exists>k < length S. held (S ! k) = Some r"
    "k < length S \<Longrightarrow> l < length S \<Longrightarrow> held (S ! k) = Some r \<Longrightarrow> held (S ! l) = Some r \<Longrightarrow> k = l"
  using assms unfolding sessions_ok_def by blast+

lemma held_allocated: "sessions_ok sh S \<Longrightarrow> k < length S \<Longrightarrow> held (S ! k) = Some r \<Longrightarrow> r < m_next (sh_cm sh)"
proof -
  assume ok: "sessions_ok sh S" and k: "k < length S" "held (S ! k) = Some r"
  from sessions_okD(4) [OF ok k] obtain i where "m_entries (sh_cm sh) i = Some r" by (auto simp: ran_def)
  with cm_okD(2) [OF sessions_okD(2) [OF ok]] show ?thesis by blast
qed

lemma ran_delete:
  assumes "m i = Some r" and "\<And>j. m j = Some r \<Longrightarrow> j = i"
  shows "ran (m(i := None)) = ran m - {r}"
proof (intro set_eqI)
  fix x
  have "x \<in> ran (m(i := None)) \<longleftrightarrow> (\<exists>j. j \<noteq> i \<and> m j = Some x)" by (auto simp: ran_def)
  also have "\<dots> \<longleftrightarrow> x \<in> ran m - {r}"
    by (simp only: ran_def mem_Collect_eq Diff_iff singleton_iff) (metis assms option.inject)
  finally show "x \<in> ran (m(i := None)) \<longleftrightarrow> x \<in> ran m - {r}" .
qed

text \<open>What the map holds after a step: the entry of this session, and those of the others.\<close>

lemma books_ran:
  assumes bk: "books st st' m m'" and cm: "cm_ok m"
    and old: "\<And>r. r \<in> ran (m_entries m) \<longleftrightarrow> held st = Some r \<or> others r"
    and apart: "\<And>r. held st = Some r \<Longrightarrow> \<not> others r" and fresh: "\<not> others (m_next m)"
  shows "(\<forall>r. r \<in> ran (m_entries m') \<longleftrightarrow> held st' = Some r \<or> others r) \<and>
    (\<forall>r. held st' = Some r \<longrightarrow> \<not> others r)"
  using bk unfolding books_def
proof (elim disjE exE conjE)
  assume "held st' = held st" "m_entries m' = m_entries m"
  with old apart show ?thesis by simp
next
  fix i
  assume h: "held st = None" "held st' = Some (m_next m)" "m_entries m i = None"
    and e: "m_entries m' = (m_entries m)(i \<mapsto> m_next m)"
  have "ran (m_entries m') = insert (m_next m) (ran (m_entries m))"
    unfolding e by (rule ran_map_upd) (rule h(3))
  then show ?thesis using old h(1,2) fresh by auto
next
  fix i r
  assume h: "held st = Some r" "held st' = None" "m_entries m i = Some r"
    and e: "m_entries m' = (m_entries m)(i := None)"
  have "j = i" if "m_entries m j = Some r" for j
    using cm_okD(3) [OF cm that] cm_okD(3) [OF cm h(3)] by simp
  from ran_delete [where m = "m_entries m", OF h(3) this]
  have "ran (m_entries m') = ran (m_entries m) - {r}" by (simp add: e)
  then show ?thesis using old apart [OF h(1)] h(1,2) by auto
qed

text \<open>One session moves: the others do not notice.\<close>

lemma sessions_ok_move:
  assumes ok: "sessions_ok sh S" and k: "k < length S" and st: "step_ok (S ! k) sh st' sh'"
  shows "sessions_ok sh' (S[k := st'])"
proof -
  let ?m = "sh_cm sh" and ?m' = "sh_cm sh'" and ?S = "S[k := st']"
  note D = sessions_okD [OF ok]
  have fr: "frame {r. r < m_next ?m \<and> held (S ! k) \<noteq> Some r} ?m ?m'" and bk: "books (S ! k) st' ?m ?m'"
    and new: "stage_ok ?m' st'"
    using st by (simp_all add: step_ok_def)
  have pool: "pool_inv (sh_pool sh')"
    using st D(1) pool_inv_step by (auto simp: step_ok_def)
  have cm: "cm_ok ?m'" using fr D(2) cm_ok_step by (auto simp: frame_def)
  have stages: "stage_ok ?m' (?S ! l)" if l: "l < length S" for l
  proof (cases "l = k")
    case False
    have "r \<in> {r. r < m_next ?m \<and> held (S ! k) \<noteq> Some r}" if "held (S ! l) = Some r" for r
      using D(6) [OF l k that] False held_allocated [OF ok l that] by auto
    with stage_ok_frame [OF D(3) [OF l] fr] False show ?thesis by simp
  qed (use new k in simp)
  let ?others = "\<lambda>r. \<exists>l < length S. l \<noteq> k \<and> held (S ! l) = Some r"
  have old: "r \<in> ran (m_entries ?m) \<longleftrightarrow> held (S ! k) = Some r \<or> ?others r" for r
    using D(4,5) k by metis
  have apart: "\<not> ?others r" if "held (S ! k) = Some r" for r using D(6) k that by blast
  have fresh: "\<not> ?others (m_next ?m)" using held_allocated [OF ok] by blast
  have "(\<forall>r. r \<in> ran (m_entries ?m') \<longleftrightarrow> held st' = Some r \<or> ?others r) \<and>
      (\<forall>r. held st' = Some r \<longrightarrow> \<not> ?others r)"
    by (rule books_ran [OF bk D(2) old apart fresh])
  then have b: "r \<in> ran (m_entries ?m') \<longleftrightarrow> held st' = Some r \<or> ?others r"
    "held st' = Some r \<Longrightarrow> \<not> ?others r" for r by blast+
  have hold: "held (?S ! l) = (if l = k then held st' else held (S ! l))" if "l < length S" for l
    using that by simp
  have ex: "(\<exists>l < length S. held (?S ! l) = Some r) \<longleftrightarrow> held st' = Some r \<or> ?others r" for r
    using hold k by metis
  have inj: "l = l'" if l: "l < length S" "l' < length S" and h: "held (?S ! l) = Some r" "held (?S ! l') = Some r"
    for l l' r
  proof (cases "l = k \<or> l' = k")
    case True
    with l h hold [OF l(1)] hold [OF l(2)] b(2) [of r] show ?thesis by (auto split: if_splits)
  next
    case False
    with l h hold D(6) [of l l' r] show ?thesis by simp
  qed
  show ?thesis
    unfolding sessions_ok_def length_list_update
    by (intro conjI allI impI pool cm stages inj) (simp_all only: b(1) ex)
qed

end
