(* ===== verification/Listener.thy ===== *)
theory Listener
  imports SessionSteps
begin

text \<open>
  The accept loops of the two proxy servers (\<open>ListenAndServe\<close> in \<open>internal/proxy/http.go\<close> and
  \<open>socks5.go\<close>, which are the same): binding the address, the goroutine that closes the listener
  when the context is cancelled, and the loop that starts a handler per connection.
\<close>

section \<open>The code\<close>

text \<open>
  Where the caller stands; \<open>Returns None\<close> is the return of nil, \<open>Returns (Some e)\<close> the return of
  an error. \<open>pl_open\<close> is the socket.
\<close>

datatype accept_loop = Binding | Accepting | Returns "string option"

record proxy_listener =
  pl_loop :: accept_loop
  pl_open :: bool

definition new_listener :: proxy_listener where
  "new_listener = \<lparr>pl_loop = Binding, pl_open = False\<rparr>"

datatype listen_event =
    Bind "string option"
  | Accept conn
  | AcceptError string
  | SeeClosed
  | CloseListener

text \<open>
  One step, and the connection it hands to a new handler. An accept on an open listener gives a
  connection or an error of the operating system; on a closed one it gives \<open>net.ErrClosed\<close>.
  \<open>cancelled\<close> is the state of the context.
\<close>

definition listen_step ::
  "bool \<Rightarrow> listen_event \<Rightarrow> proxy_listener \<Rightarrow> (conn option \<times> proxy_listener) option" where
  "listen_step cancelled ev l =
     (case (ev, pl_loop l) of
        (Bind None, Binding) \<Rightarrow> Some (None, l\<lparr>pl_loop := Accepting, pl_open := True\<rparr>)
      | (Bind (Some e), Binding) \<Rightarrow> Some (None, l\<lparr>pl_loop := Returns (Some e)\<rparr>)
      | (Accept c, Accepting) \<Rightarrow> if pl_open l then Some (Some c, l) else None
      | (AcceptError e, Accepting) \<Rightarrow>
          if pl_open l then Some (None, l\<lparr>pl_loop := Returns (Some e)\<rparr>) else None
      | (SeeClosed, Accepting) \<Rightarrow> if pl_open l then None else Some (None, l\<lparr>pl_loop := Returns None\<rparr>)
      | (CloseListener, _) \<Rightarrow>
          if pl_open l \<and> cancelled then Some (None, l\<lparr>pl_open := False\<rparr>) else None
      | _ \<Rightarrow> None)"

section \<open>A run of events\<close>

fun listen_run :: "bool \<Rightarrow> listen_event list \<Rightarrow> proxy_listener \<Rightarrow> (conn list \<times> proxy_listener) option" where
  "listen_run cancelled [] l = Some ([], l)"
| "listen_run cancelled (ev # evs) l =
     (case listen_step cancelled ev l of
        None \<Rightarrow> None
      | Some (co, l') \<Rightarrow>
          map_option (\<lambda>(cs, l''). ((case co of None \<Rightarrow> cs | Some c \<Rightarrow> c # cs), l'')) (listen_run cancelled evs l'))"

lemma listen_step_cases:
  assumes "listen_step cancelled ev l = Some (co, l')"
  obtains (bound) "pl_loop l = Binding" "co = None" "l' = l\<lparr>pl_loop := Accepting, pl_open := True\<rparr>"
  | (unbound) e where "pl_loop l = Binding" "co = None" "l' = l\<lparr>pl_loop := Returns (Some e)\<rparr>"
  | (accept) c where "pl_loop l = Accepting" "pl_open l" "co = Some c" "l' = l" "ev = Accept c"
  | (failed) e where "pl_loop l = Accepting" "pl_open l" "co = None" "l' = l\<lparr>pl_loop := Returns (Some e)\<rparr>" "ev = AcceptError e"
  | (closed) "pl_loop l = Accepting" "\<not> pl_open l" "co = None" "l' = l\<lparr>pl_loop := Returns None\<rparr>"
  | (close_it) "pl_open l" "cancelled" "co = None" "l' = l\<lparr>pl_open := False\<rparr>"
  using assms
  by (cases ev; cases "pl_loop l") (auto simp: listen_step_def split: option.splits if_splits)

definition listener_inv :: "bool \<Rightarrow> proxy_listener \<Rightarrow> bool" where
  "listener_inv cancelled l \<longleftrightarrow>
     (pl_loop l = Binding \<longrightarrow> \<not> pl_open l) \<and>
     (pl_loop l = Accepting \<and> \<not> pl_open l \<longrightarrow> cancelled) \<and>
     (pl_loop l = Returns None \<longrightarrow> cancelled \<and> \<not> pl_open l)"

lemma listener_inv_step:
  "listener_inv cancelled l \<Longrightarrow> listen_step cancelled ev l = Some (co, l') \<Longrightarrow> listener_inv cancelled l'"
  by (erule listen_step_cases) (auto simp: listener_inv_def split: option.splits)

lemma listener_inv_cancel: "listener_inv cancelled l \<Longrightarrow> listener_inv True l"
  by (simp add: listener_inv_def)

lemma listener_inv_new: "listener_inv cancelled new_listener"
  by (simp add: listener_inv_def new_listener_def)

lemma dead_run:
  "pl_loop l = Returns r \<Longrightarrow> pl_open l \<Longrightarrow> listen_run False evs l = Some (cs, l') \<Longrightarrow> cs = [] \<and> l' = l"
proof (cases evs)
  case (Cons ev evs')
  assume "pl_loop l = Returns r" "pl_open l" "listen_run False evs l = Some (cs, l')"
  moreover from this have "listen_step False ev l = None"
    by (cases ev) (auto simp: listen_step_def split: option.split)
  ultimately show ?thesis using Cons by simp
qed simp

text \<open>
  One error of the operating system while accepting ends the listener for the life of the
  process, and silently for its clients: the loop returns that error, no connection is ever
  handed to a handler again, and since nobody closes the socket, it stays open and goes on
  taking connections that nobody will serve. Whatever was accepted before is served.
\<close>

theorem listener_deaf_after_error:
  assumes "listen_run False evs new_listener = Some (cs, l)" and "pl_loop l = Accepting"
  shows "\<exists>l'. listen_run False [AcceptError e] l = Some ([], l') \<and> pl_loop l' = Returns (Some e) \<and>
    (\<forall>evs' cs' l''. listen_run False evs' l' = Some (cs', l'') \<longrightarrow> cs' = [] \<and> pl_open l'')"
proof -
  have "listener_inv False l \<Longrightarrow> listen_run False evs l = Some (cs, l') \<Longrightarrow> listener_inv False l'" for evs cs l l'
  proof (induction evs arbitrary: cs l)
    case (Cons ev evs)
    then obtain co l1 cs1 where "listen_step False ev l = Some (co, l1)" "listen_run False evs l1 = Some (cs1, l')"
      by (auto split: option.splits prod.splits)
    with Cons.IH [of l1 cs1] listener_inv_step [OF Cons.prems(1)] show ?case by blast
  qed simp
  from this [OF listener_inv_new assms(1)] have op: "pl_open l" using assms(2) by (simp add: listener_inv_def)
  let ?l = "l\<lparr>pl_loop := Returns (Some e)\<rparr>"
  have "listen_run False [AcceptError e] l = Some ([], ?l)" using assms(2) op by (simp add: listen_step_def)
  moreover have "cs' = [] \<and> pl_open l''" if "listen_run False evs' ?l = Some (cs', l'')" for evs' cs' l''
    using dead_run [OF _ _ that] op by simp
  ultimately show ?thesis by (intro exI [of _ ?l]) simp
qed

theorem listener_deaf_after_error_witness:
  "\<exists>l l'. listen_run False [Bind None, Accept (fresh_conn [])] new_listener = Some ([fresh_conn []], l) \<and>
    listen_run False [AcceptError ''too many open files''] l = Some ([], l') \<and>
    listen_run False [Accept (fresh_conn [])] l' = None"
proof -
  let ?l = "\<lparr>pl_loop = Accepting, pl_open = True\<rparr>"
  have run: "listen_run False [Bind None, Accept (fresh_conn [])] new_listener = Some ([fresh_conn []], ?l)"
    by (simp add: listen_step_def new_listener_def)
  from listener_deaf_after_error [OF run, of "''too many open files''"] obtain l' where
    l': "listen_run False [AcceptError ''too many open files''] ?l = Some ([], l')"
      "pl_loop l' = Returns (Some ''too many open files'')" by auto
  then have "listen_run False [Accept (fresh_conn [])] l' = None" by (simp add: listen_step_def)
  with run l'(1) show ?thesis by blast
qed

end
