(* ===== verification/Web.thy ===== *)
theory Web
  imports Prelude GoPath
begin

text \<open>
  The embedded user interface (\<open>internal/web/web.go\<close>): the handler that finds the file of a
  request, with its fallback and its content types. \<open>http.ServeContent\<close> is the response
  \<open>Serve\<close>, with the name of the file and the content type that was set before the call.
\<close>

section \<open>The embedded files\<close>

definition static_files :: "string list" where
  "static_files = [''index.html'', ''app.js'', ''i18n.js'', ''style.css'']"

datatype node = RegularFile | Directory

text \<open>
  \<open>sub.Open\<close>: the files, and the directory itself under the name of a dot. Every other name is
  an error, among them those that are not valid in a file system of \<open>io/fs\<close>.
\<close>

definition sub_Open :: "string \<Rightarrow> node option" where
  "sub_Open p =
     (if p \<in> set static_files then Some RegularFile else if p = ''.'' then Some Directory else None)"

section \<open>The handler\<close>

datatype page = NotFoundPage | Serve string "string option"

definition content_type :: "string \<Rightarrow> string option" where
  "content_type p =
     (if path_Ext p = ''.html'' then Some ''text/html; charset=utf-8''
      else if path_Ext p = ''.css'' then Some ''text/css; charset=utf-8''
      else if path_Ext p = ''.js'' then Some ''application/javascript; charset=utf-8''
      else if path_Ext p = ''.svg'' then Some ''image/svg+xml''
      else if path_Ext p = ''.png'' then Some ''image/png''
      else None)"

definition requested_file :: "string \<Rightarrow> string" where
  "requested_file path =
     (let p = trim_prefix ''static/'' (trim_prefix ''/'' path) in if p = [] then ''index.html'' else p)"

text \<open>\<open>f.(readSeeker)\<close> panics on a directory, which cannot seek.\<close>

definition serve_content :: "string \<Rightarrow> node \<Rightarrow> go_panic + page" where
  "serve_content p f =
     (case f of
        Directory \<Rightarrow> Inl FailedTypeAssertion
      | RegularFile \<Rightarrow> Inr (Serve p (content_type p)))"

definition web_Handler :: "string \<Rightarrow> go_panic + page" where
  "web_Handler path =
     (if has_prefix ''/api/'' path then Inr NotFoundPage
      else
        (let p = requested_file path in
         case sub_Open p of
           Some f \<Rightarrow> serve_content p f
         | None \<Rightarrow>
             (case sub_Open ''index.html'' of
                None \<Rightarrow> Inr NotFoundPage
              | Some f \<Rightarrow> serve_content ''index.html'' f)))"

section \<open>What is served\<close>

lemma static_content_types:
  "content_type ''index.html'' = Some ''text/html; charset=utf-8''"
  "content_type ''app.js'' = Some ''application/javascript; charset=utf-8''"
  "content_type ''i18n.js'' = Some ''application/javascript; charset=utf-8''"
  "content_type ''style.css'' = Some ''text/css; charset=utf-8''"
  by code_simp+

lemma sub_Open_index [simp]: "sub_Open ''index.html'' = Some RegularFile"
  by (simp add: sub_Open_def static_files_def)

text \<open>The stylesheet, the scripts and the page itself are found under both forms of their paths.\<close>

lemma requested_file_names:
  assumes "p \<in> set static_files"
  shows "requested_file (''/'' @ p) = p" and "requested_file (''/static/'' @ p) = p"
proof -
  have "\<forall>p \<in> set static_files. requested_file (''/'' @ p) = p \<and> requested_file (''/static/'' @ p) = p"
    unfolding static_files_def by code_simp
  with assms show "requested_file (''/'' @ p) = p" "requested_file (''/static/'' @ p) = p" by blast+
qed

text \<open>
  A request outside the API is answered with one of the embedded files, with a
  content type: the file it names, with or without the directory in front, or the start
  page for every other path, unless what it names is the directory itself: that request
  panics.
\<close>

theorem web_Handler_spec:
  assumes "\<not> has_prefix ''/api/'' path"
  shows "web_Handler path =
      (if requested_file path = ''.'' then Inl FailedTypeAssertion
       else if requested_file path \<in> set static_files
         then Inr (Serve (requested_file path) (content_type (requested_file path)))
       else Inr (Serve ''index.html'' (Some ''text/html; charset=utf-8''))) \<and>
    (\<forall>p \<in> set static_files. web_Handler (''/'' @ p) = web_Handler (''/static/'' @ p) \<and>
       (\<exists>ct. web_Handler (''/'' @ p) = Inr (Serve p (Some ct)))) \<and>
    (\<forall>p ct. web_Handler path = Inr (Serve p ct) \<longrightarrow> p \<in> set static_files \<and> ct \<noteq> None)"
proof -
  have ct: "\<exists>ct. content_type p = Some ct" if "p \<in> set static_files" for p
    using that static_content_types by (auto simp: static_files_def)
  have dot: "''.'' \<notin> set static_files" by (simp add: static_files_def)
  have idx: "''index.html'' \<in> set static_files" by (simp add: static_files_def)
  have path: "web_Handler path =
      (if requested_file path = ''.'' then Inl FailedTypeAssertion
       else if requested_file path \<in> set static_files
         then Inr (Serve (requested_file path) (content_type (requested_file path)))
       else Inr (Serve ''index.html'' (Some ''text/html; charset=utf-8'')))"
    using assms dot static_content_types(1)
    by (auto simp: web_Handler_def Let_def sub_Open_def serve_content_def idx)
  moreover have "web_Handler (''/'' @ p) = Inr (Serve p (content_type p)) \<and>
      web_Handler (''/static/'' @ p) = Inr (Serve p (content_type p))" if p: "p \<in> set static_files" for p
  proof -
    have "\<not> has_prefix ''/api/'' (''/'' @ p) \<and> \<not> has_prefix ''/api/'' (''/static/'' @ p)"
      using p by (auto simp: static_files_def has_prefix_def)
    then show ?thesis
      using p by (simp add: web_Handler_def Let_def requested_file_names [OF p] sub_Open_def serve_content_def
          del: append.simps)
  qed
  then have "web_Handler (''/'' @ p) = web_Handler (''/static/'' @ p) \<and>
      (\<exists>ct. web_Handler (''/'' @ p) = Inr (Serve p (Some ct)))" if "p \<in> set static_files" for p
    using that ct by metis
  moreover have "p \<in> set static_files \<and> c \<noteq> None" if "web_Handler path = Inr (Serve p c)" for p c
    using that ct idx by (auto simp: path split: if_splits)
  ultimately show ?thesis by blast
qed

theorem web_Handler_spec_witness:
  "web_Handler ''/static/app.js'' = Inr (Serve ''app.js'' (Some ''application/javascript; charset=utf-8'')) \<and>
   web_Handler ''/proxies'' = Inr (Serve ''index.html'' (Some ''text/html; charset=utf-8'')) \<and>
   web_Handler ''/.'' = Inl FailedTypeAssertion"
proof -
  have "\<not> has_prefix ''/api/'' ''/static/app.js''" "\<not> has_prefix ''/api/'' ''/proxies''"
    "\<not> has_prefix ''/api/'' ''/.''" by code_simp+
  note s = this [THEN web_Handler_spec, THEN conjunct1]
  have "requested_file ''/static/app.js'' = ''app.js''" "requested_file ''/proxies'' = ''proxies''"
    "requested_file ''/.'' = ''.''" by code_simp+
  then show ?thesis using s static_content_types by (simp add: static_files_def)
qed

end
