(* ===== verification/Startup.thy ===== *)
theory Startup
  imports Api Web
begin

text \<open>
  The start of the process (\<open>cmd/proxypool/main.go\<close>, and \<open>DefaultConfigPath\<close> of
  \<open>internal/config/config.go\<close>): from the flags to the state in which the listeners are started, and the
  handler that divides requests between the API and the user interface. The environment,
  the file system and the YAML codec are parameters.
\<close>

section \<open>The path of the configuration\<close>

text \<open>
  \<open>join\<close> is \<open>filepath.Join\<close> on the operating system of the process; \<open>home\<close> is \<open>None\<close> where
  \<open>os.UserHomeDir\<close> fails.
\<close>

definition DefaultConfigPath ::
  "string \<Rightarrow> (string list \<Rightarrow> string) \<Rightarrow> (string \<Rightarrow> string) \<Rightarrow> string option \<Rightarrow> string" where
  "DefaultConfigPath goos join getenv home =
     (let homeDir = (case home of None \<Rightarrow> [] | Some h \<Rightarrow> h) in
      if goos = ''windows'' then
        (let appdata = getenv ''APPDATA'' in
         if appdata \<noteq> [] then join [appdata, ''PolyProxy'', ''config.yaml'']
         else join [getenv ''USERPROFILE'', ''PolyProxy'', ''config.yaml''])
      else if goos = ''darwin'' then
        join [homeDir, ''Library'', ''Application Support'', ''PolyProxy'', ''config.yaml'']
      else
        (let xdg = getenv ''XDG_CONFIG_HOME'' in
         if xdg \<noteq> [] then join [xdg, ''PolyProxy'', ''config.yaml'']
         else join [homeDir, ''.config'', ''PolyProxy'', ''config.yaml'']))"

section \<open>The process\<close>

datatype exit = VersionPrinted | ConfigError config_error

datatype listener = HTTPListener string | SOCKS5Listener string | APIListener string

record process =
  pr_cfg :: config
  pr_server :: server
  pr_dialTimeout :: int
  pr_healthCheck :: "int option"
  pr_listeners :: "listener list"

definition log_dir :: "(string list \<Rightarrow> string) \<Rightarrow> (string \<Rightarrow> string) \<Rightarrow> string \<Rightarrow> config \<Rightarrow> string" where
  "log_dir join dir cfgPath cfg =
     (if fc_LogDir (cfg_FreeProxy cfg) = [] then join [dir cfgPath, ''logs'']
      else fc_LogDir (cfg_FreeProxy cfg))"

definition listeners :: "server_config \<Rightarrow> listener list" where
  "listeners c =
     (if HTTPListen c \<noteq> [] then [HTTPListener (HTTPListen c)] else []) @
     (if SOCKS5Listen c \<noteq> [] then [SOCKS5Listener (SOCKS5Listen c)] else []) @
     (if APIEnable c \<and> APIListen c \<noteq> [] then [APIListener (APIListen c)] else [])"

text \<open>
  \<open>main\<close> up to the started listeners. \<open>load\<close> is \<open>config.Load\<close> over the file system; \<open>dir\<close>
  is \<open>filepath.Dir\<close>. The server of the API shares the pool and the registry with the proxy
  servers, so its state stands for theirs.
\<close>

definition main_start ::
  "(string \<Rightarrow> config_error + config) \<Rightarrow> (string list \<Rightarrow> string) \<Rightarrow> (string \<Rightarrow> string) \<Rightarrow>
   (string \<Rightarrow> bool) \<Rightarrow> string \<Rightarrow> string \<Rightarrow> string \<Rightarrow> bool \<Rightarrow> exit + process" where
  "main_start load join dir openLog now defaultPath cfgFlag showVer =
     (if showVer then Inl VersionPrinted
      else
        (let cfgPath = (if cfgFlag = [] then defaultPath else cfgFlag) in
         case load cfgPath of
           Inl e \<Rightarrow> Inl (ConfigError e)
         | Inr cfg \<Rightarrow>
             (let lg = fst (InitLogger openLog (log_dir join dir cfgPath cfg) 500 (None, False));
                  lg' = Info ''main'' ''proxypool 0.2.0 starting'' now lg;
                  p = Pool_New (cfg_Pool cfg)
              in Inr \<lparr>pr_cfg = cfg,
                   pr_server = \<lparr>sv_Cm = NewManager, sv_Pool = p, sv_FreeCfg = Some (cfg_FreeProxy cfg),
                     sv_CfgPath = cfgPath, sv_cached = [], sv_tasks = [], sv_task = None, sv_log = lg'\<rparr>,
                   pr_dialTimeout = 15 * second_ns,
                   pr_healthCheck = StartHealthCheck (pc_HealthCheck (cfg_Pool cfg)) (30 * second_ns),
                   pr_listeners = listeners (cfg_Server cfg)\<rparr>)))"

text \<open>The requests of the API listener: \<open>None\<close> of the multiplexer is its 404.\<close>

datatype routed = ToAPI "handler option" | ToWeb "go_panic + page"

definition root_handler :: "string \<Rightarrow> routed" where
  "root_handler path = (if has_prefix ''/api/'' path then ToAPI (Handler path) else ToWeb (web_Handler path))"

section \<open>Properties\<close>

lemma DefaultConfigPath_nonempty:
  assumes "\<And>xs. \<exists>x \<in> set xs. x \<noteq> [] \<Longrightarrow> join xs \<noteq> []"
  shows "DefaultConfigPath goos join getenv home \<noteq> []"
  by (simp add: DefaultConfigPath_def Let_def assms)

text \<open>
  The configuration that \<open>Load\<close> falls back to is never used: the path is never empty, so a
  process that is started without a configuration file exits with an error, whatever the
  flags, the system and the environment.
\<close>

theorem main_needs_config_file:
  assumes "\<And>xs. \<exists>x \<in> set xs. x \<noteq> [] \<Longrightarrow> join xs \<noteq> []"
    and "\<And>path. readFile path = None"
  shows "\<exists>path. path \<noteq> [] \<and>
    main_start (Load readFile unmarshal) join dir openLog now (DefaultConfigPath goos join getenv home) cfgFlag False
      = Inl (ConfigError (ReadFailed path))"
  using DefaultConfigPath_nonempty [OF assms(1), where goos = goos and getenv = getenv and home = home]
  by (cases "cfgFlag = []") (simp_all add: main_start_def Load_def assms(2))

theorem main_needs_config_file_witness:
  "\<exists>path. path \<noteq> [] \<and>
    main_start (Load (\<lambda>_. None :: string option) (\<lambda>d c. Some c)) filepath_Join filepath_Dir (\<lambda>_. True) ''now''
      (DefaultConfigPath ''linux'' filepath_Join (\<lambda>_. []) (Some ''/root'')) [] False
      = Inl (ConfigError (ReadFailed path))"
  by (rule main_needs_config_file) (auto dest: filepath_Join_nonempty)

lemma routes_reachable: "\<forall>(pat, h) \<in> set routes. root_handler pat = ToAPI (Some h)"
  by code_simp

lemma root_handler_api: "root_handler path = ToAPI h \<Longrightarrow> has_prefix ''/api/'' path \<and> h = Handler path"
  by (simp add: root_handler_def split: if_splits)

lemma started_process:
  assumes "main_start (Load readFile unmarshal) join dir openLog now defaultPath cfgFlag showVer = Inr pr"
  shows "valid_config (pr_cfg pr) \<and> pool_inv (sv_Pool (pr_server pr)) \<and>
    names (sv_Pool (pr_server pr)) = map pe_Name (pc_Proxies (cfg_Pool (pr_cfg pr))) \<and>
    names (sv_Pool (pr_server pr)) \<noteq> [] \<and>
    p_strategy (sv_Pool (pr_server pr)) = pc_Strategy (cfg_Pool (pr_cfg pr)) \<and>
    sv_Cm (pr_server pr) = NewManager \<and> sv_FreeCfg (pr_server pr) = Some (cfg_FreeProxy (pr_cfg pr)) \<and>
    (\<exists>l. sv_log (pr_server pr) = Some l \<and> lg_cap l = 500 \<and> length (lg_buf l) = 500 \<and> lg_total l = 1) \<and>
    length (pr_listeners pr) \<le> 3 \<and>
    (\<forall>a. APIListener a \<in> set (pr_listeners pr) \<longrightarrow> APIEnable (cfg_Server (pr_cfg pr)) \<and> a \<noteq> [])"
proof -
  obtain path cfg where load: "Load readFile unmarshal path = Inr cfg" and pr: "pr_cfg pr = cfg"
      "sv_Pool (pr_server pr) = Pool_New (cfg_Pool cfg)" "sv_Cm (pr_server pr) = NewManager"
      "sv_FreeCfg (pr_server pr) = Some (cfg_FreeProxy cfg)" "pr_listeners pr = listeners (cfg_Server cfg)"
    and log: "sv_log (pr_server pr) = Info ''main'' ''proxypool 0.2.0 starting'' now
      (Some (new_logger openLog (log_dir join dir path cfg) 500))"
    using assms by (auto simp: main_start_def InitLogger_def Let_def split: if_splits sum.splits)
  from Load_valid [OF load] have valid: "valid_config cfg" "pc_Strategy (cfg_Pool cfg) \<in> set known_strategies"
    by simp_all
  then have "distinct (map pe_Name (pc_Proxies (cfg_Pool cfg)))" "pc_Proxies (cfg_Pool cfg) \<noteq> []"
    by (simp_all add: valid_config_def pool_entries_ok_def)
  note new = Pool_New_ok [OF this(1)] this(2)
  have "\<exists>l. sv_log (pr_server pr) = Some l \<and> lg_cap l = 500 \<and> length (lg_buf l) = 500 \<and> lg_total l = 1"
    by (simp add: log Info_def Log_def new_logger_def Let_def)
  moreover have "length (listeners (cfg_Server cfg)) \<le> 3"
    and "\<forall>a. APIListener a \<in> set (listeners (cfg_Server cfg)) \<longrightarrow> APIEnable (cfg_Server cfg) \<and> a \<noteq> []"
    by (simp_all add: listeners_def)
  ultimately show ?thesis using valid new by (simp add: pr pool_inv_def)
qed



end
