(* ===== verification/System.thy ===== *)
theory System
  imports DynamicLoop Startup RegistryFrame
begin

text \<open>
  The state that everything in the process shares, and what may happen to it: the critical
  sections of the API server (\<open>internal/api/api.go\<close>) with the dynamic loop and the validations it
  starts, next to anybody who uses the registry and the pool through their operations. The requests
  (\<open>ApiCalls\<close>), the sessions and the health checker (\<open>Program\<close>) are sequences of such steps.
\<close>

section \<open>The state\<close>

text \<open>The loop keeps the pool and the cached proxies of the server, so both fields are written together.\<close>

record 'f api_state =
  as_server :: server
  as_dyn :: dyn
  as_files :: 'f

definition put_server :: "server \<Rightarrow> 'f api_state \<Rightarrow> 'f api_state" where
  "put_server s a = a\<lparr>as_server := s, as_dyn := (as_dyn a)\<lparr>dy_pool := sv_Pool s, dy_cached := sv_cached s\<rparr>\<rparr>"

definition put_dyn :: "dyn \<Rightarrow> 'f api_state \<Rightarrow> 'f api_state" where
  "put_dyn d a = a\<lparr>as_server := (as_server a)\<lparr>sv_Pool := dy_pool d, sv_cached := dy_cached d\<rparr>, as_dyn := d\<rparr>"

section \<open>Steps\<close>

definition start_state :: "process \<Rightarrow> 'f \<Rightarrow> 'f api_state" where
  "start_state pr files = \<lparr>as_server = pr_server pr,
     as_dyn = (dyn_init (sv_Pool (pr_server pr)))\<lparr>dy_cached := sv_cached (pr_server pr)\<rparr>, as_files = files\<rparr>"

text \<open>
  The goroutines that requests start: the dynamic loop in the world \<open>W\<close>, and the validations. A
  validation goes on when another one has taken its place.
\<close>

definition put_task :: "nat \<Rightarrow> string \<times> validation \<times> validate_task \<Rightarrow> server \<Rightarrow> server" where
  "put_task i x s = s\<lparr>sv_tasks := (sv_tasks s)[i := x]\<rparr>"

inductive goroutine_step :: "cycle_world \<Rightarrow> 'f api_state \<Rightarrow> 'f api_state \<Rightarrow> bool" for W where
  go_loop: "i < length (dy_runners (as_dyn a)) \<Longrightarrow> event_ok W ev (rn_phase (dy_runners (as_dyn a) ! i)) \<Longrightarrow>
    loop_step ev i (as_dyn a) = Some (Inr d) \<Longrightarrow> goroutine_step W a (put_dyn d a)"
| go_begin: "i < length (sv_tasks (as_server a)) \<Longrightarrow> sv_tasks (as_server a) ! i = (tid, v, new_task) \<Longrightarrow>
    goroutine_step W a (put_server (put_task i (tid, v, begin_task v new_task) (as_server a)) a)"
| go_validate: "i < length (sv_tasks (as_server a)) \<Longrightarrow> sv_tasks (as_server a) ! i = (tid, v, t) \<Longrightarrow>
    validating v t \<Longrightarrow> validate_step v t t' \<Longrightarrow>
    goroutine_step W a (put_server (put_task i (tid, v, t') (as_server a)) a)"

text \<open>
  What the API may do: these, and the critical sections of its handlers, which write a log entry, the
  crawled proxies, a new validation, the files, or control the dynamic loop.
\<close>

inductive api_step :: "cycle_world \<Rightarrow> 'f api_state \<Rightarrow> 'f api_state \<Rightarrow> bool" for W where
  api_goroutine: "goroutine_step W a a' \<Longrightarrow> api_step W a a'"
| api_log: "api_step W a (put_server (log_info modul msg now (as_server a)) a)"
| api_cached: "api_step W a (put_server ((as_server a)\<lparr>sv_cached := es\<rparr>) a)"
| api_publish: "api_step W a (put_server (publish_task tid v (as_server a)) a)"
| api_files: "api_step W a (a\<lparr>as_files := f\<rparr>)"
| api_loop: "dyn_step W (as_dyn a) d \<Longrightarrow> api_step W a (put_dyn d a)"

text \<open>Next to it, anybody who uses the registry and the pool as their interfaces allow.\<close>

abbreviation as_pool :: "'f api_state \<Rightarrow> pool" where
  "as_pool a \<equiv> sv_Pool (as_server a)"

abbreviation as_cm :: "'f api_state \<Rightarrow> manager" where
  "as_cm a \<equiv> sv_Cm (as_server a)"

definition put_pool :: "pool \<Rightarrow> 'f api_state \<Rightarrow> 'f api_state" where
  "put_pool p a = put_server ((as_server a)\<lparr>sv_Pool := p\<rparr>) a"

definition put_cm :: "manager \<Rightarrow> 'f api_state \<Rightarrow> 'f api_state" where
  "put_cm m a = put_server ((as_server a)\<lparr>sv_Cm := m\<rparr>) a"

inductive system_step :: "cycle_world \<Rightarrow> 'f api_state \<Rightarrow> 'f api_state \<Rightarrow> bool" for W where
  sys_api: "api_step W a a' \<Longrightarrow> system_step W a a'"
| sys_registry: "cm_step (as_cm a) m \<Longrightarrow> system_step W a (put_cm m a)"
| sys_pool: "pool_step (as_pool a) p \<Longrightarrow> system_step W a (put_pool p a)"

section \<open>The invariant\<close>

definition task_ok :: "server \<Rightarrow> bool" where
  "task_ok s \<longleftrightarrow> (\<forall>(tid, v, t) \<in> set (sv_tasks s). t = new_task \<or> validating v t) \<and>
     (\<forall>i. sv_task s = Some i \<longrightarrow> i < length (sv_tasks s))"

definition server_ok :: "server \<Rightarrow> bool" where
  "server_ok s \<longleftrightarrow> cm_ok (sv_Cm s) \<and> pool_inv (sv_Pool s) \<and> task_ok s"

definition api_ok :: "'f api_state \<Rightarrow> bool" where
  "api_ok a \<longleftrightarrow> server_ok (as_server a) \<and> dyn_inv (as_dyn a) \<and>
     dy_pool (as_dyn a) = sv_Pool (as_server a) \<and> dy_cached (as_dyn a) = sv_cached (as_server a)"

lemma task_ok_updates [simp]:
  "task_ok (s\<lparr>sv_Cm := m\<rparr>) = task_ok s" "task_ok (s\<lparr>sv_Pool := p\<rparr>) = task_ok s"
  "task_ok (s\<lparr>sv_cached := c\<rparr>) = task_ok s"
  by (simp_all add: task_ok_def)

lemma dyn_inv_pool:
  assumes "dyn_inv d" and "pool_inv p"
  shows "dyn_inv (d\<lparr>dy_pool := p, dy_cached := c\<rparr>)"
proof -
  let ?d = "d\<lparr>dy_pool := p, dy_cached := c\<rparr>"
  have eq: "dy_pool ?d = p" "dy_current ?d = dy_current d" "dy_runners ?d = dy_runners d" by simp_all
  show ?thesis unfolding dyn_inv_def eq using assms(2) dyn_invD(2-4) [OF assms(1)] by blast
qed

lemma api_ok_put_server: "api_ok a \<Longrightarrow> server_ok s \<Longrightarrow> api_ok (put_server s a)"
  by (simp add: api_ok_def put_server_def server_ok_def dyn_inv_pool)

lemma api_ok_put_dyn: "api_ok a \<Longrightarrow> dyn_inv d \<Longrightarrow> api_ok (put_dyn d a)"
  by (simp add: api_ok_def put_dyn_def server_ok_def task_ok_def dyn_invD(1))

lemma log_info_simps [simp]:
  "sv_Cm (log_info m x n s) = sv_Cm s" "sv_Pool (log_info m x n s) = sv_Pool s"
  "sv_tasks (log_info m x n s) = sv_tasks s" "sv_task (log_info m x n s) = sv_task s"
  "sv_cached (log_info m x n s) = sv_cached s" "server_ok (log_info m x n s) = server_ok s"
  by (simp_all add: log_info_def server_ok_def task_ok_def)

lemma task_simps [simp]:
  "sv_Cm (publish_task tid v s) = sv_Cm s" "sv_Pool (publish_task tid v s) = sv_Pool s"
  "sv_cached (publish_task tid v s) = sv_cached s" "sv_Cm (put_task i x s) = sv_Cm s"
  "sv_Pool (put_task i x s) = sv_Pool s" "sv_cached (put_task i x s) = sv_cached s"
  by (simp_all add: publish_task_def put_task_def)

lemma server_ok_updates:
  "server_ok s \<Longrightarrow> pool_inv p \<Longrightarrow> server_ok (s\<lparr>sv_Pool := p\<rparr>)"
  "server_ok s \<Longrightarrow> cm_ok m \<Longrightarrow> server_ok (s\<lparr>sv_Cm := m\<rparr>)"
  "server_ok s \<Longrightarrow> server_ok (s\<lparr>sv_cached := c\<rparr>)"
  "server_ok s \<Longrightarrow> server_ok (publish_task tid v s)"
  "server_ok s \<Longrightarrow> t = new_task \<or> validating v t \<Longrightarrow> server_ok (put_task i (tid, v, t) s)"
  by (auto simp: server_ok_def task_ok_def publish_task_def put_task_def dest: set_update_subset_insert [THEN subsetD])

lemma put_server_simps [simp]: "as_server (put_server s a) = s"
  by (simp add: put_server_def)

lemma put_dyn_simps [simp]: "sv_Cm (as_server (put_dyn d a)) = sv_Cm (as_server a)"
  by (simp add: put_dyn_def)

lemma api_ok_files [simp]: "api_ok (a\<lparr>as_files := f\<rparr>) = api_ok a"
  by (simp add: api_ok_def)

section \<open>Every reachable state\<close>

lemma api_loop_ok:
  assumes "api_ok a" and "dyn_step W (as_dyn a) d"
  shows "api_ok (put_dyn d a)"
  using api_ok_put_dyn [OF assms(1)] dyn_inv_step [OF _ assms(2)] assms(1) by (simp add: api_ok_def)

lemma goroutine_ok:
  assumes "api_ok a" and "goroutine_step W a a'"
  shows "api_ok a' \<and> as_cm a' = as_cm a"
proof -
  have s: "server_ok (as_server a)" using assms(1) by (simp add: api_ok_def)
  note put = api_ok_put_server [OF assms(1)] and upd = server_ok_updates(5) [OF s]
  show ?thesis
    using assms(2)
  proof cases
    case (go_loop i ev d)
    then show ?thesis using api_loop_ok [OF assms(1) dyn_loop [OF go_loop(2-4)]] by simp
  next
    case (go_begin i tid v)
    have "validating v (begin_task v new_task)" by (rule reach_start) simp
    then show ?thesis by (simp add: go_begin(1) put upd)
  next
    case (go_validate i tid v t t')
    have "validating v t'" by (rule reach_step [OF go_validate(4,5)])
    then show ?thesis by (simp add: go_validate(1) put upd)
  qed
qed

lemma api_step_ok:
  assumes "api_ok a" and "api_step W a a'"
  shows "api_ok a' \<and> same_registry (as_cm a) (as_cm a')"
proof -
  have s: "server_ok (as_server a)" using assms(1) by (simp add: api_ok_def)
  note put = api_ok_put_server [OF assms(1)] and upd = server_ok_updates [OF s]
  show ?thesis
    using assms(2)
  proof cases
    case api_goroutine
    with goroutine_ok [OF assms(1)] show ?thesis by simp
  next
    case (api_loop d)
    with api_loop_ok [OF assms(1)] show ?thesis by simp
  qed (use assms(1) s in \<open>simp_all add: put upd(3,4)\<close>)
qed

lemma api_ok_put_cm: "api_ok a \<Longrightarrow> cm_ok m \<Longrightarrow> api_ok (put_cm m a)"
  unfolding put_cm_def by (rule api_ok_put_server) (simp_all add: api_ok_def server_ok_updates(2))

lemma api_ok_put_pool: "api_ok a \<Longrightarrow> pool_inv p \<Longrightarrow> api_ok (put_pool p a)"
  unfolding put_pool_def by (rule api_ok_put_server) (simp_all add: api_ok_def server_ok_updates(1))

lemma put_parts [simp]:
  "as_pool (put_cm m a) = as_pool a" "as_cm (put_cm m a) = m"
  "as_pool (put_pool p a) = p" "as_cm (put_pool p a) = as_cm a"
  by (simp_all add: put_cm_def put_pool_def)

text \<open>Writing back what is there changes nothing.\<close>

lemma put_same:
  assumes "api_ok a"
  shows "put_cm (as_cm a) a = a" "put_pool (as_pool a) a = a"
  using assms by (simp_all add: put_cm_def put_pool_def put_server_def api_ok_def)

lemma api_okD: "api_ok a \<Longrightarrow> cm_ok (as_cm a)" "api_ok a \<Longrightarrow> pool_inv (as_pool a)"
  by (simp_all add: api_ok_def server_ok_def)

lemma api_ok_step:
  assumes "api_ok a" and "system_step W a a'"
  shows "api_ok a'"
  using assms(2)
proof cases
  case sys_api
  with api_step_ok [OF assms(1)] show ?thesis by blast
next
  case (sys_registry m)
  with api_ok_put_cm [OF assms(1)] cm_ok_step [OF sys_registry(2) api_okD(1) [OF assms(1)]] show ?thesis by simp
next
  case (sys_pool p)
  with api_ok_put_pool [OF assms(1)] pool_inv_step [OF sys_pool(2) api_okD(2) [OF assms(1)]] show ?thesis by simp
qed

text \<open>The start states are those of a process that has started.\<close>

definition system_start :: "'f api_state \<Rightarrow> bool" where
  "system_start a \<longleftrightarrow> cm_ok (sv_Cm (as_server a)) \<and> pool_inv (sv_Pool (as_server a)) \<and>
     sv_tasks (as_server a) = [] \<and> sv_task (as_server a) = None \<and>
     as_dyn a = (dyn_init (sv_Pool (as_server a)))\<lparr>dy_cached := sv_cached (as_server a)\<rparr>"

interpretation sy: invariant_system system_start "system_step W" api_ok for W
proof unfold_locales
  show "api_ok a" if "system_start a" for a :: "'a api_state"
    using that dyn_inv_init [of "sv_Pool (as_server a)"]
      dyn_inv_pool [of "dyn_init (sv_Pool (as_server a))" "sv_Pool (as_server a)" "sv_cached (as_server a)"]
    by (simp add: system_start_def api_ok_def server_ok_def task_ok_def dyn_init_def)
  show "api_ok a'" if "api_ok a" "system_step W a a'" for a a' :: "'a api_state" using that by (rule api_ok_step)
qed

lemma started_system:
  assumes "main_start (Load readFile unmarshal) join dir openLog now defaultPath cfgFlag showVer = Inr pr"
  shows "system_start (start_state pr files)"
proof -
  have "sv_tasks (pr_server pr) = []" "sv_task (pr_server pr) = None"
    using assms by (auto simp: main_start_def Let_def split: if_splits sum.splits)
  with started_process [OF assms] show ?thesis
    by (simp add: system_start_def start_state_def cm_ok_NewManager)
qed

abbreviation running :: "cycle_world \<Rightarrow> process \<Rightarrow> 'f api_state \<Rightarrow> bool" where
  "running W pr \<equiv> reach (\<lambda>a. \<exists>files. a = start_state pr files) (system_step W)"

lemma running_ok:
  assumes "main_start (Load readFile unmarshal) join dir openLog now defaultPath cfgFlag showVer = Inr pr"
    and "running W pr a"
  shows "api_ok a"
  using assms(2)
proof (induction rule: reach.induct)
  case (reach_start a)
  then obtain files where "a = start_state pr files" by blast
  with sy.inv_start [OF started_system [OF assms(1)]] show ?case by simp
next
  case (reach_step a b)
  from sy.inv_step [OF reach_step.IH reach_step.hyps(2)] show ?case .
qed

end
