(* ===== verification/ApiCalls.thy ===== *)
theory ApiCalls
  imports System ApiStatus
begin

text \<open>
  The requests of the API (\<open>internal/api/api.go\<close>). \<open>serve_API\<close> is the multiplexer over the
  handlers of \<open>Api\<close> and \<open>DynamicLoop\<close>, each in one go. Then the same handlers as a machine, one step for
  each critical section or call, so that other requests, sessions and loops come in between; a
  handler that is left alone does what \<open>serve_API\<close> says.
\<close>

section \<open>What the handlers ask for\<close>

text \<open>What the handlers ask of the clock, of the decoders, of the network and of the file system.\<close>

record 'f api_env =
  ae_now :: string
  ae_now' :: string
  ae_nano :: int
  ae_nanos :: "nat \<Rightarrow> int"
  ae_fetch :: "string \<Rightarrow> int \<Rightarrow> (string \<times> string) list \<Rightarrow> string + string"
  ae_compile :: "string \<Rightarrow> string + finder"
  ae_unmarshal :: "string \<Rightarrow> string + any"
  ae_sources :: "source list"
  ae_validation :: "string list \<Rightarrow> int \<Rightarrow> int \<Rightarrow> free_entry list \<Rightarrow> validation"
  ae_decodeAdd :: "string \<Rightarrow> (string \<times> string) list option"
  ae_decodeStrategy :: "string \<Rightarrow> (string \<times> string) option"
  ae_decodeDynamic :: "string \<Rightarrow> (string \<times> int) option"
  ae_decodeAuto :: "string \<Rightarrow> bool option"
  ae_load :: "string \<Rightarrow> 'f \<Rightarrow> config_error + config"
  ae_save :: "config \<Rightarrow> string \<Rightarrow> 'f \<Rightarrow> config_error option \<times> 'f"
  ae_configErr :: "config_error \<Rightarrow> string"
  ae_poolErr :: "pool_error \<Rightarrow> string"
  ae_quote :: "string \<Rightarrow> string"

definition answer :: "response \<Rightarrow> 'f api_state \<Rightarrow> go_panic + response \<times> 'f api_state" where
  "answer resp a = Inr (resp, a)"

definition answer_server ::
  "(go_panic + response \<times> server) \<Rightarrow> 'f api_state \<Rightarrow> go_panic + response \<times> 'f api_state" where
  "answer_server r a = (case r of Inl p \<Rightarrow> Inl p | Inr (resp, s) \<Rightarrow> Inr (resp, put_server s a))"

section \<open>A request in one go\<close>

text \<open>One request; \<open>order\<close> is the order in which a loop over the connection map runs.\<close>

definition serve_API ::
  "'f api_env \<Rightarrow> string list \<Rightarrow> request \<Rightarrow> 'f api_state \<Rightarrow> go_panic + response \<times> 'f api_state" where
  "serve_API E order r a =
     (let s = as_server a; d = as_dyn a in
      case Handler (rq_Path r) of
        None \<Rightarrow> answer not_found a
      | Some Health \<Rightarrow> answer (handleHealth r) a
      | Some Connections \<Rightarrow> answer_server (handleConnections order r s) a
      | Some ConnectionItem \<Rightarrow> answer_server (handleConnectionItem order r s) a
      | Some Fetch \<Rightarrow>
          answer_server (handleFetch (Crawl (ae_fetch E) (ae_compile E) (ae_unmarshal E) (ae_sources E))
            (ae_now E) (ae_now' E) r s) a
      | Some ValidateStart \<Rightarrow> answer_server (Inr (handleValidate (ae_validation E) (ae_nano E) (ae_now E) r s)) a
      | Some ValidateProgress \<Rightarrow> answer (handleValidateProgress r s) a
      | Some ProxyItem \<Rightarrow> answer_server (Inr (handleProxyItem (ae_now E) r s)) a
      | Some Proxies \<Rightarrow> answer (handleProxies r s) a
      | Some PoolAdd \<Rightarrow> answer_server (Inr (handlePoolAdd (ae_decodeAdd E) (ae_nanos E) (ae_now E) r s)) a
      | Some PoolSave \<Rightarrow>
          (case handlePoolSave (ae_load E) (ae_save E) (ae_configErr E) (ae_now E) r s (as_files a) of
             (resp, s', files) \<Rightarrow> Inr (resp, (put_server s' a)\<lparr>as_files := files\<rparr>))
      | Some PoolStrategy \<Rightarrow>
          answer_server (Inr (handlePoolStrategy (ae_decodeStrategy E) (ae_poolErr E) (ae_quote E) (ae_now E) r s)) a
      | Some Dynamic \<Rightarrow>
          (case handleDynamic (ae_decodeDynamic E) (sv_FreeCfg s) r d of (resp, d') \<Rightarrow> Inr (resp, put_dyn d' a))
      | Some AutoPool \<Rightarrow>
          (case handleAutoPool (ae_decodeAuto E) r d of (resp, d') \<Rightarrow> Inr (resp, put_dyn d' a))
      | Some StatsPage \<Rightarrow> answer (handleStats order r s) a
      | Some LogsPage \<Rightarrow> answer (handleLogs r s) a)"

section \<open>Handlers in steps\<close>

text \<open>
  What a handler has still to do: a response, a panic, or a step on the shared state, whose
  result decides what follows.
\<close>

datatype 's call = Reply response | Panics go_panic | Atomic "'s \<Rightarrow> 's" "'s \<Rightarrow> 's call"

primrec alone :: "'s call \<Rightarrow> 's \<Rightarrow> go_panic + response \<times> 's" where
  "alone (Reply resp) a = Inr (resp, a)"
| "alone (Panics x) a = Inl x"
| "alone (Atomic u k) a = alone (k a) (u a)"

definition look :: "('s \<Rightarrow> 'x) \<Rightarrow> ('x \<Rightarrow> 's call) \<Rightarrow> 's call" where
  "look g k = Atomic (\<lambda>a. a) (\<lambda>a. k (g a))"

definition change :: "('s \<Rightarrow> 's) \<Rightarrow> 's call \<Rightarrow> 's call" where
  "change u c = Atomic u (\<lambda>_. c)"

definition on_pool :: "(pool \<Rightarrow> 'x \<times> pool) \<Rightarrow> ('x \<Rightarrow> 'f api_state call) \<Rightarrow> 'f api_state call" where
  "on_pool f k = Atomic (\<lambda>a. put_pool (snd (f (as_pool a))) a) (\<lambda>a. k (fst (f (as_pool a))))"

definition log_call :: "string \<Rightarrow> string \<Rightarrow> string \<Rightarrow> 'f api_state call \<Rightarrow> 'f api_state call" where
  "log_call modul msg now c = change (\<lambda>a. put_server (log_info modul msg now (as_server a)) a) c"

text \<open>
  \<open>Manager.Snapshot\<close> and \<open>CloseAll\<close>: the entries are collected under the lock, in the order
  \<open>ord\<close> in which Go loops over the map, then taken one by one.
\<close>

fun view_each :: "eref list \<Rightarrow> view list \<Rightarrow> (view list \<Rightarrow> 'f api_state call) \<Rightarrow> 'f api_state call" where
  "view_each [] vs k = k vs"
| "view_each (r # rs) vs k = look (\<lambda>a. view_entry (m_obj (as_cm a) r)) (\<lambda>v. view_each rs (vs @ [v]) k)"

definition collect_call ::
  "(manager \<Rightarrow> string list) \<Rightarrow> (eref list \<Rightarrow> 'f api_state call) \<Rightarrow> 'f api_state call" where
  "collect_call ord k = look (\<lambda>a. collect (ord (as_cm a)) (as_cm a)) k"

definition snapshot_call ::
  "(manager \<Rightarrow> string list) \<Rightarrow> (view list \<Rightarrow> 'f api_state call) \<Rightarrow> 'f api_state call" where
  "snapshot_call ord k = collect_call ord (\<lambda>rs. view_each rs [] k)"

fun close_each_call :: "eref list \<Rightarrow> 'f api_state call \<Rightarrow> 'f api_state call" where
  "close_each_call [] c = c"
| "close_each_call (r # rs) c =
     Atomic (\<lambda>a. case Entry_Close r (as_cm a) of Inl x \<Rightarrow> a | Inr m \<Rightarrow> put_cm m a)
       (\<lambda>a. case Entry_Close r (as_cm a) of Inl x \<Rightarrow> Panics x | Inr m \<Rightarrow> close_each_call rs c)"

definition connections_call :: "(manager \<Rightarrow> string list) \<Rightarrow> request \<Rightarrow> 'f api_state call" where
  "connections_call ord r =
     (if rq_Method r = ''GET'' then snapshot_call ord (\<lambda>vs. Reply (writeJSON 200 (JConns vs)))
      else if rq_Method r = ''DELETE'' then
        collect_call ord (\<lambda>rs. close_each_call rs (Reply (writeJSON 200 (JObj [(''ok'', JBool True)]))))
      else Reply method_not_allowed)"

definition closed_reply :: "bool \<Rightarrow> 's call" where
  "closed_reply b = Reply (writeJSON 200 (JObj [(''closed'', JBool b)]))"

definition connection_item_call :: "(manager \<Rightarrow> string list) \<Rightarrow> request \<Rightarrow> 'f api_state call" where
  "connection_item_call ord r =
     (case item_of ''/api/connections/'' r of
        None \<Rightarrow> Reply not_found
      | Some i \<Rightarrow>
          if rq_Method r = ''DELETE'' then
            snapshot_call ord (\<lambda>vs.
              case find (\<lambda>v. w_ID v = i) vs of
                None \<Rightarrow> closed_reply False
              | Some v \<Rightarrow>
                  look (\<lambda>a. Manager_Get i (as_cm a)) (\<lambda>e.
                    case e of None \<Rightarrow> closed_reply False
                    | Some e \<Rightarrow> close_each_call [e] (closed_reply True)))
          else Reply method_not_allowed)"

definition proxies_call :: "request \<Rightarrow> 'f api_state call" where
  "proxies_call r =
     (if rq_Method r \<noteq> ''GET'' then Reply method_not_allowed
      else look (\<lambda>a. Pool_Snapshot (as_pool a)) (\<lambda>vs. Reply (writeJSON 200 (JUpstreams vs))))"

definition proxy_item_call :: "string \<Rightarrow> request \<Rightarrow> 'f api_state call" where
  "proxy_item_call now r =
     (case item_of ''/api/proxies/'' r of
        None \<Rightarrow> Reply not_found
      | Some name \<Rightarrow>
          if rq_Method r = ''DELETE'' then
            if name = ''direct'' then Reply (writeJSON 400 (json_error ''cannot remove the 'direct' proxy''))
            else on_pool (Pool_Remove name) (\<lambda>ok.
              log_call ''pool'' (''removed proxy: '' @ name) now
                (Reply (writeJSON 200 (JObj [(''removed'', JBool ok)]))))
          else Reply method_not_allowed)"

definition not_enabled :: response where
  "not_enabled = writeJSON 400 (json_error ''freeproxy is not enabled'')"

definition fetch_call ::
  "(int \<Rightarrow> go_panic + crawl_result) \<Rightarrow> string \<Rightarrow> string \<Rightarrow> request \<Rightarrow> 'f api_state call" where
  "fetch_call crawl now now' r =
     (if rq_Method r \<noteq> ''POST'' then Reply method_not_allowed
      else look (\<lambda>a. freeproxy_on (as_server a)) (\<lambda>x. case x of
        None \<Rightarrow> Reply not_enabled
      | Some cfg \<Rightarrow>
          log_call ''crawl'' crawl_started now
            (case crawl (fetch_timeout cfg) of
               Inl x \<Rightarrow> Panics x
             | Inr res \<Rightarrow>
                 change (\<lambda>a. put_server ((as_server a)\<lparr>sv_cached := cr_Entries res\<rparr>) a)
                   (log_call ''crawl'' (crawl_done res) now' (Reply (writeJSON 200 (crawl_report res)))))))"

definition validate_call ::
  "(string list \<Rightarrow> int \<Rightarrow> int \<Rightarrow> free_entry list \<Rightarrow> validation) \<Rightarrow> int \<Rightarrow> string \<Rightarrow> request \<Rightarrow> 'f api_state call" where
  "validate_call validation nano now r =
     (if rq_Method r \<noteq> ''POST'' then Reply method_not_allowed
      else look (\<lambda>a. freeproxy_on (as_server a)) (\<lambda>x. case x of
        None \<Rightarrow> Reply not_enabled
      | Some cfg \<Rightarrow>
          look (\<lambda>a. sv_cached (as_server a)) (\<lambda>entries.
            if entries = [] then Reply (writeJSON 400 (json_error no_cached_proxies))
            else
              (let v = validation (fc_TestURLs cfg) (validate_timeout cfg) (validate_concurrency cfg) entries in
               change (\<lambda>a. put_server (publish_task (task_id nano) v (as_server a)) a)
                 (log_call ''validate'' (validate_started nano entries) now
                   (Reply (writeJSON 200 (validate_report nano entries))))))))"

text \<open>The pointer is read under the lock, the results under that of the task, the counters under none.\<close>

definition progress_call :: "request \<Rightarrow> 'f api_state call" where
  "progress_call r =
     (let taskID = trim_prefix ''/api/proxies/validate/'' (rq_Path r);
          missing = Reply (writeJSON 404 (json_error ''task not found''))
      in if taskID = [] then Reply not_found
      else look (\<lambda>a. sv_task (as_server a)) (\<lambda>x. case x of
        None \<Rightarrow> missing
      | Some i \<Rightarrow>
          (let task = (\<lambda>a. snd (snd (sv_tasks (as_server a) ! i))) in
           look (\<lambda>a. fst (sv_tasks (as_server a) ! i)) (\<lambda>tid.
             if tid \<noteq> taskID then missing
             else look (\<lambda>a. Snapshot (task a)) (\<lambda>results.
               look (\<lambda>a. vt_Total (task a)) (\<lambda>tot. look (\<lambda>a. vt_Done (task a)) (\<lambda>ndone.
                 look (\<lambda>a. vt_Valid (task a)) (\<lambda>valid. look (\<lambda>a. vt_Running (task a)) (\<lambda>run.
                   Reply (writeJSON 200 (task_report tid tot ndone valid run results)))))))))))"

text \<open>
  One proxy of the request: the name is tried, then the name with a suffix. The upstream is
  private to the handler until the pool has taken it, and enters the store with it.
\<close>

definition free_upstream :: "string \<Rightarrow> string \<Rightarrow> string \<Rightarrow> upstream" where
  "free_upstream name addr typ =
     \<lparr>up_Name = name, up_Type = typ, up_Addr = addr, up_Username = [], up_Password = [], up_healthy = False\<rparr>"

definition try_add :: "upstream \<Rightarrow> pool \<Rightarrow> bool \<times> pool" where
  "try_add u p =
     (let (r, p1) = new_upstream u p; (e, p2) = Pool_Add r p1 in (e = None, p2))"

definition first_add :: "upstream \<Rightarrow> pool \<Rightarrow> bool \<times> pool" where
  "first_add u p = (if fst (try_add u p) then try_add u p else (False, p))"

fun add_each_call ::
  "(nat \<Rightarrow> int) \<Rightarrow> (string \<times> string) list \<Rightarrow> nat \<Rightarrow> (nat \<Rightarrow> 'f api_state call) \<Rightarrow> 'f api_state call" where
  "add_each_call nanos [] added k = k added"
| "add_each_call nanos ((addr, typ) # rest) added k =
     (let name = ''free'' @ ''-'' @ typ @ ''-'' @ replace_colon addr in
      on_pool (first_add (free_upstream name addr typ)) (\<lambda>ok.
        if ok then add_each_call (\<lambda>i. nanos (Suc i)) rest (added + 1) k
        else on_pool (try_add (free_upstream (name @ ''-'' @ sprint_int (nanos 0 mod 1000)) addr typ)) (\<lambda>ok.
          add_each_call (\<lambda>i. nanos (Suc i)) rest (if ok then added + 1 else added) k)))"

definition pool_add_call ::
  "(string \<Rightarrow> (string \<times> string) list option) \<Rightarrow> (nat \<Rightarrow> int) \<Rightarrow> string \<Rightarrow> request \<Rightarrow> 'f api_state call" where
  "pool_add_call decode nanos now r =
     (if rq_Method r \<noteq> ''POST'' then Reply method_not_allowed
      else case decode (rq_Body r) of
        None \<Rightarrow> Reply (writeJSON 400 (json_error ''invalid JSON''))
      | Some proxies \<Rightarrow>
          add_each_call nanos proxies 0 (\<lambda>added.
            log_call ''pool'' (''added '' @ itoa added @ '' proxies to pool'') now
              (Reply (writeJSON 200 (JObj [(''added'', JNum (int added))])))))"

text \<open>The fields of an upstream that are saved never change once the pool has it.\<close>

definition pool_save_call ::
  "(string \<Rightarrow> 'f \<Rightarrow> config_error + config) \<Rightarrow> (config \<Rightarrow> string \<Rightarrow> 'f \<Rightarrow> config_error option \<times> 'f) \<Rightarrow>
   (config_error \<Rightarrow> string) \<Rightarrow> string \<Rightarrow> request \<Rightarrow> 'f api_state call" where
  "pool_save_call load save errText now r =
     (if rq_Method r \<noteq> ''POST'' then Reply method_not_allowed
      else look (\<lambda>a. sv_CfgPath (as_server a)) (\<lambda>path.
        if path = [] then Reply (writeJSON 400 (json_error ''no config path configured''))
        else look (\<lambda>a. load path (as_files a)) (\<lambda>x. case x of
          Inl e \<Rightarrow> Reply (writeJSON 500 (json_error (errText e)))
        | Inr cfg \<Rightarrow>
            look (\<lambda>a. map (\<lambda>u. saved_entry (p_obj (as_pool a) u)) (Pool_List (as_pool a))) (\<lambda>proxies.
            look (\<lambda>a. Strategy (as_pool a)) (\<lambda>strategy.
              (let cfg' = cfg\<lparr>cfg_Pool := (cfg_Pool cfg)\<lparr>pc_Proxies := proxies, pc_Strategy := strategy\<rparr>\<rparr> in
               Atomic (\<lambda>a. a\<lparr>as_files := snd (save cfg' path (as_files a))\<rparr>)
                 (\<lambda>a. case fst (save cfg' path (as_files a)) of
                    Some e \<Rightarrow> Reply (writeJSON 500 (json_error (errText e)))
                  | None \<Rightarrow>
                      log_call ''pool'' (''saved '' @ itoa (length proxies) @ '' proxies to config'') now
                        (Reply (writeJSON 200 (JObj [(''ok'', JBool True)]))))))))))"

definition pool_strategy_call ::
  "(string \<Rightarrow> (string \<times> string) option) \<Rightarrow> (pool_error \<Rightarrow> string) \<Rightarrow> (string \<Rightarrow> string) \<Rightarrow> string \<Rightarrow>
   request \<Rightarrow> 'f api_state call" where
  "pool_strategy_call decode errText quote now r =
     (if rq_Method r \<noteq> ''PUT'' then Reply method_not_allowed
      else case decode (rq_Body r) of
        None \<Rightarrow> Reply (writeJSON 400 (json_error ''invalid JSON''))
      | Some (strategy, pinned) \<Rightarrow>
          on_pool (SetStrategy strategy) (\<lambda>e. case e of
            Some e \<Rightarrow> Reply (writeJSON 400 (json_error (errText e)))
          | None \<Rightarrow>
              (let rest = log_call ''pool'' (strategy_changed quote strategy pinned) now
                     (look (\<lambda>a. PinnedName (as_pool a)) (\<lambda>pin.
                        Reply (writeJSON 200 (JObj [(''strategy'', JStr strategy), (''pinned_name'', JStr pin)]))))
               in if strategy = ''name'' then on_pool (\<lambda>p. ((), SetPinnedName pinned p)) (\<lambda>_. rest) else rest)))"

text \<open>The dynamic loop: start and stop hold the lock of the pointer throughout, a status reads it first.\<close>

definition on_dyn :: "(dyn \<Rightarrow> dyn) \<Rightarrow> response \<Rightarrow> 'f api_state call" where
  "on_dyn f resp = change (\<lambda>a. put_dyn (f (as_dyn a)) a) (Reply resp)"

definition dynamic_call :: "(string \<Rightarrow> (string \<times> int) option) \<Rightarrow> request \<Rightarrow> 'f api_state call" where
  "dynamic_call decode r =
     (if rq_Method r = ''GET'' then
        look (\<lambda>a. dy_current (as_dyn a)) (\<lambda>x. case x of
          None \<Rightarrow> Reply (writeJSON 200 (JObj no_runner_status))
        | Some i \<Rightarrow>
            look (\<lambda>a. runner_status (dy_runners (as_dyn a) ! i)) (\<lambda>st. Reply (writeJSON 200 (JObj st))))
      else if rq_Method r \<noteq> ''POST'' then Reply method_not_allowed
      else case decode (rq_Body r) of
        None \<Rightarrow> Reply (writeJSON 400 (json_error ''invalid JSON''))
      | Some (action, interval) \<Rightarrow>
          if action = ''start'' then
            look (\<lambda>a. freeproxy_on (as_server a)) (\<lambda>x. case x of
              None \<Rightarrow> Reply not_enabled
            | Some cfg \<Rightarrow>
                on_dyn (dynamic_start interval) (writeJSON 200 (JObj [(''enabled'', JBool True),
                  (''interval'', JNum (start_interval interval))])))
          else if action = ''stop'' then
            on_dyn dynamic_stop (writeJSON 200 (JObj [(''enabled'', JBool False)]))
          else Reply (writeJSON 400 (json_error ''unknown action'')))"

definition auto_pool_call :: "(string \<Rightarrow> bool option) \<Rightarrow> request \<Rightarrow> 'f api_state call" where
  "auto_pool_call decode r =
     (if rq_Method r \<noteq> ''POST'' then Reply method_not_allowed
      else case decode (rq_Body r) of
        None \<Rightarrow> Reply (writeJSON 400 (json_error ''invalid JSON''))
      | Some b \<Rightarrow>
          on_dyn (\<lambda>d. case dy_current d of Some i \<Rightarrow> update_runner i (\<lambda>r. r\<lparr>rn_AutoPool := b\<rparr>) d | None \<Rightarrow> d)
            (writeJSON 200 (JObj [(''auto_pool'', JBool b)])))"

definition stats_call :: "(manager \<Rightarrow> string list) \<Rightarrow> request \<Rightarrow> 'f api_state call" where
  "stats_call ord r =
     (if rq_Method r \<noteq> ''GET'' then Reply method_not_allowed
      else snapshot_call ord (\<lambda>snap. look (\<lambda>a. Strategy (as_pool a)) (\<lambda>strategy.
        look (\<lambda>a. PinnedName (as_pool a)) (\<lambda>pin. look (\<lambda>a. length (Pool_Snapshot (as_pool a))) (\<lambda>n.
          Reply (writeJSON 200 (stats_report snap strategy pin n)))))))"

definition logs_call :: "request \<Rightarrow> 'f api_state call" where
  "logs_call r =
     (if rq_Method r \<noteq> ''GET'' then Reply method_not_allowed
      else look (\<lambda>a. handleLogs r (as_server a)) Reply)"

text \<open>Go loops over a map in any order, but over every key, and over none twice.\<close>

definition map_order :: "(manager \<Rightarrow> string list) \<Rightarrow> bool" where
  "map_order ord \<longleftrightarrow> (\<forall>m. finite (dom (m_entries m)) \<longrightarrow> distinct (ord m) \<and> set (ord m) = dom (m_entries m))"

definition API_call :: "'f api_env \<Rightarrow> (manager \<Rightarrow> string list) \<Rightarrow> request \<Rightarrow> 'f api_state call" where
  "API_call E ord r =
     (case Handler (rq_Path r) of
        None \<Rightarrow> Reply not_found
      | Some Health \<Rightarrow> Reply (handleHealth r)
      | Some Connections \<Rightarrow> connections_call ord r
      | Some ConnectionItem \<Rightarrow> connection_item_call ord r
      | Some Fetch \<Rightarrow>
          fetch_call (Crawl (ae_fetch E) (ae_compile E) (ae_unmarshal E) (ae_sources E)) (ae_now E) (ae_now' E) r
      | Some ValidateStart \<Rightarrow> validate_call (ae_validation E) (ae_nano E) (ae_now E) r
      | Some ValidateProgress \<Rightarrow> progress_call r
      | Some ProxyItem \<Rightarrow> proxy_item_call (ae_now E) r
      | Some Proxies \<Rightarrow> proxies_call r
      | Some PoolAdd \<Rightarrow> pool_add_call (ae_decodeAdd E) (ae_nanos E) (ae_now E) r
      | Some PoolSave \<Rightarrow> pool_save_call (ae_load E) (ae_save E) (ae_configErr E) (ae_now E) r
      | Some PoolStrategy \<Rightarrow> pool_strategy_call (ae_decodeStrategy E) (ae_poolErr E) (ae_quote E) (ae_now E) r
      | Some Dynamic \<Rightarrow> dynamic_call (ae_decodeDynamic E) r
      | Some AutoPool \<Rightarrow> auto_pool_call (ae_decodeAuto E) r
      | Some StatsPage \<Rightarrow> stats_call ord r
      | Some LogsPage \<Rightarrow> logs_call r)"

section \<open>A handler that is left alone\<close>

text \<open>The copies of the pool and of the cached proxies that the dynamic loop works on are those of the server.\<close>

definition synced :: "'f api_state \<Rightarrow> bool" where
  "synced a \<longleftrightarrow> dy_pool (as_dyn a) = as_pool a \<and> dy_cached (as_dyn a) = sv_cached (as_server a)"

lemma synced_same: "synced a \<Longrightarrow> put_server (as_server a) a = a" "synced a \<Longrightarrow> put_dyn (as_dyn a) a = a"
  by (simp_all add: synced_def put_server_def put_dyn_def)

lemma synced_put [simp]: "synced (put_server s a)" "synced (put_pool p a)" "synced (put_cm m a)"
  by (simp_all add: synced_def put_pool_def put_cm_def put_server_def)

lemma put_put [simp]:
  "put_server s (put_server s' a) = put_server s a" "put_pool p (put_pool p' a) = put_pool p a"
  "put_cm m (put_cm m' a) = put_cm m a" "as_dyn (a\<lparr>as_server := s\<rparr>) = as_dyn a"
  by (simp_all add: put_server_def put_pool_def put_cm_def)

lemma api_ok_synced: "api_ok a \<Longrightarrow> synced a"
  by (simp add: api_ok_def synced_def)

lemma alone_steps [simp]:
  "alone (look g k0) a = alone (k0 (g a)) a" "alone (change u c) a = alone c (u a)"
  "alone (on_pool f k) a = alone (k (fst (f (as_pool a)))) (put_pool (snd (f (as_pool a))) a)"
  "alone (log_call modul msg now c) a = alone c (put_server (log_info modul msg now (as_server a)) a)"
  "alone (on_dyn h resp) a = Inr (resp, put_dyn (h (as_dyn a)) a)"
  "alone (closed_reply b) a = Inr (writeJSON 200 (JObj [(''closed'', JBool b)]), a)"
  by (simp_all add: look_def change_def on_pool_def log_call_def on_dyn_def closed_reply_def)

lemma alone_view_each: "alone (view_each rs vs k) a = alone (k (vs @ map (\<lambda>r. view_entry (m_obj (as_cm a) r)) rs)) a"
  by (induction rs arbitrary: vs) simp_all

lemma alone_snapshot [simp]:
  "alone (snapshot_call ord k) a = alone (k (Manager_Snapshot (ord (as_cm a)) (as_cm a))) a"
  "alone (collect_call ord k') a = alone (k' (collect (ord (as_cm a)) (as_cm a))) a"
  by (simp_all add: snapshot_call_def collect_call_def alone_view_each Manager_Snapshot_def)

lemma alone_close_each:
  assumes "synced a"
  shows "alone (close_each_call rs c) a =
    (case close_each rs (as_cm a) of Inl x \<Rightarrow> Inl x | Inr m \<Rightarrow> alone c (put_cm m a))"
  using assms
proof (induction rs arbitrary: a)
  case Nil
  then show ?case using synced_same(1) [of a] by (simp add: put_cm_def)
next
  case (Cons r rs)
  show ?case
  proof (cases "Entry_Close r (as_cm a)")
    case (Inr m)
    with Cons.IH [of "put_cm m a"] show ?thesis by (simp split: sum.split)
  qed simp
qed

lemma rename_free:
  "rename_upstream (p_next p) n (snd (new_upstream (free_upstream name addr typ) p)) =
    snd (new_upstream (free_upstream n addr typ) p)"
  by (simp add: new_upstream_def rename_upstream_def free_upstream_def)

lemma new_upstream_fst: "new_upstream u p = (p_next p, snd (new_upstream u p))"
  by (simp add: new_upstream_def)

lemma Pool_Add_taken: "Pool_Add r p = (Some e, p') \<Longrightarrow> p' = p"
  by (auto simp: Pool_Add_def Let_def split: option.splits)

lemma try_add_eq:
  "try_add u p = (case Pool_Add (p_next p) (snd (new_upstream u p)) of (e, p2) \<Rightarrow> (e = None, p2))"
  unfolding try_add_def Let_def by (subst new_upstream_fst) simp

lemma add_named_tries:
  assumes "name = pre @ ''-'' @ typ @ ''-'' @ replace_colon addr"
  shows "add_named pre nano addr typ p =
     (case first_add (free_upstream name addr typ) p of (ok, p1) \<Rightarrow>
        if ok then (True, p1)
        else try_add (free_upstream (name @ ''-'' @ sprint_int (nano mod 1000)) addr typ) p1)"
proof -
  let ?u = "free_upstream name addr typ" and ?n = "name @ ''-'' @ sprint_int (nano mod 1000)"
  obtain e p2 where add: "Pool_Add (p_next p) (snd (new_upstream ?u p)) = (e, p2)" by fastforce
  have named: "add_named pre nano addr typ p =
      (case Pool_Add (p_next p) (snd (new_upstream ?u p)) of
         (None, p2) \<Rightarrow> (True, p2)
       | (Some e, p2) \<Rightarrow>
           (case Pool_Add (p_next p) (rename_upstream (p_next p) ?n p2) of
              (None, p4) \<Rightarrow> (True, p4) | (Some e2, p4) \<Rightarrow> (False, p4)))"
    unfolding add_named_def Let_def assms [symmetric] free_upstream_def [symmetric]
    by (subst new_upstream_fst) (simp only: prod.case)
  show ?thesis
  proof (cases e)
    case None
    with add named show ?thesis by (simp add: first_add_def try_add_eq)
  next
    case (Some x)
    with Pool_Add_taken add have "p2 = snd (new_upstream ?u p)" by simp
    with Some add named show ?thesis
      by (simp add: first_add_def try_add_eq [of ?u] rename_free)
        (simp add: try_add_eq split: prod.split option.split)
  qed
qed

lemma alone_add_each:
  assumes "synced a"
  shows "alone (add_each_call nanos ps added k) a =
    (case add_all ''free'' nanos ps added (as_pool a) of (n, p) \<Rightarrow> alone (k n) (put_pool p a))"
  using assms
proof (induction ps arbitrary: nanos added a)
  case Nil
  then show ?case using synced_same(1) [of a] by (simp add: put_pool_def)
next
  case (Cons q ps)
  obtain addr t where q: "q = (addr, t)" by fastforce
  show ?case
    using Cons.IH by (simp add: q add_named_tries [OF refl] Let_def split: prod.split)
qed

lemma alone_Connections:
  "synced a \<Longrightarrow> alone (connections_call ord r) a = answer_server (handleConnections (ord (as_cm a)) r (as_server a)) a"
  using synced_same(1) [of a]
  by (simp add: connections_call_def handleConnections_def answer_server_def alone_close_each CloseAll_def put_cm_def
      split: sum.split)

lemma alone_ConnectionItem:
  "synced a \<Longrightarrow> alone (connection_item_call ord r) a =
    answer_server (handleConnectionItem (ord (as_cm a)) r (as_server a)) a"
  using synced_same(1) [of a]
  by (simp add: connection_item_call_def handleConnectionItem_def answer_server_def put_cm_def
      split: option.split sum.split)

lemma alone_Fetch:
  "synced a \<Longrightarrow> alone (fetch_call crawl now now' r) a = answer_server (handleFetch crawl now now' r (as_server a)) a"
  using synced_same(1) [of a]
  by (simp add: fetch_call_def handleFetch_def answer_server_def not_enabled_def Let_def split: option.split sum.split)

lemma alone_Validate:
  "synced a \<Longrightarrow> alone (validate_call validation nano now r) a =
    answer_server (Inr (handleValidate validation nano now r (as_server a))) a"
  using synced_same(1) [of a]
  by (simp add: validate_call_def handleValidate_def answer_server_def not_enabled_def Let_def split: option.split)

lemma alone_Progress: "alone (progress_call r) a = answer (handleValidateProgress r (as_server a)) a"
  by (simp add: progress_call_def handleValidateProgress_def answer_def Let_def split: option.split prod.split)

lemma alone_ProxyItem:
  "synced a \<Longrightarrow> alone (proxy_item_call now r) a = answer_server (Inr (handleProxyItem now r (as_server a))) a"
  using synced_same(1) [of a]
  by (simp add: proxy_item_call_def handleProxyItem_def answer_server_def Let_def put_pool_def split: option.split prod.split)

lemma alone_PoolAdd:
  "synced a \<Longrightarrow> alone (pool_add_call decode nanos now r) a =
    answer_server (Inr (handlePoolAdd decode nanos now r (as_server a))) a"
  using synced_same(1) [of a]
  by (simp add: pool_add_call_def handlePoolAdd_def answer_server_def alone_add_each put_pool_def Let_def
      split: option.split prod.split)

lemma alone_PoolSave:
  "synced a \<Longrightarrow> alone (pool_save_call load save errText now r) a =
    (case handlePoolSave load save errText now r (as_server a) (as_files a) of
       (resp, s', files) \<Rightarrow> Inr (resp, (put_server s' a)\<lparr>as_files := files\<rparr>))"
  using synced_same(1) [of a]
  by (simp add: pool_save_call_def handlePoolSave_def saved_config_def Let_def split: option.split prod.split sum.split)
    (simp add: put_server_def)

lemma alone_PoolStrategy:
  "synced a \<Longrightarrow> alone (pool_strategy_call decode errText quote now r) a =
    answer_server (Inr (handlePoolStrategy decode errText quote now r (as_server a))) a"
  using synced_same(1) [of a]
  by (simp add: pool_strategy_call_def handlePoolStrategy_def answer_server_def Let_def put_pool_def log_info_def
      split: option.split prod.split)

lemma alone_Dynamic:
  "synced a \<Longrightarrow> alone (dynamic_call decode r) a =
    (case handleDynamic decode (sv_FreeCfg (as_server a)) r (as_dyn a) of (resp, d') \<Rightarrow> Inr (resp, put_dyn d' a))"
  using synced_same(2) [of a]
  by (auto simp: dynamic_call_def handleDynamic_def dynamic_status_def freeproxy_on_def not_enabled_def split: option.split)

lemma alone_AutoPool:
  "synced a \<Longrightarrow> alone (auto_pool_call decode r) a =
    (case handleAutoPool decode r (as_dyn a) of (resp, d') \<Rightarrow> Inr (resp, put_dyn d' a))"
  using synced_same(2) [of a]
  by (auto simp: auto_pool_call_def handleAutoPool_def split: option.split)

lemma alone_reads:
  "alone (proxies_call r) a = answer (handleProxies r (as_server a)) a"
  "alone (stats_call ord r) a = answer (handleStats (ord (as_cm a)) r (as_server a)) a"
  "alone (logs_call r) a = answer (handleLogs r (as_server a)) a"
  by (simp_all add: proxies_call_def handleProxies_def stats_call_def handleStats_def logs_call_def handleLogs_def
      answer_def Let_def split: option.split)

lemma API_call_alone:
  assumes "synced a"
  shows "alone (API_call E ord r) a = serve_API E (ord (as_cm a)) r a"
  unfolding API_call_def serve_API_def Let_def
  by (cases "Handler (rq_Path r)"; cases "the (Handler (rq_Path r))")
    (simp_all add: alone_reads alone_Progress alone_Connections [OF assms] alone_ConnectionItem [OF assms]
      alone_Fetch [OF assms] alone_Validate [OF assms] alone_ProxyItem [OF assms] alone_PoolAdd [OF assms]
      alone_PoolSave [OF assms] alone_PoolStrategy [OF assms] alone_Dynamic [OF assms] alone_AutoPool [OF assms] answer_def)


section \<open>A poll that others come in between of\<close>

text \<open>The call after some of its own steps.\<close>

fun advance :: "nat \<Rightarrow> 's call \<Rightarrow> 's \<Rightarrow> 's call" where
  "advance (Suc n) (Atomic u k) a = advance n (k a) (u a)"
| "advance n c a = c"

text \<open>
  A poll takes the results first, under the lock of the task, and reads the counters afterwards under
  none. What the validation does in between is counted, but its results are missing: the answer
  can say that the validation is over and show fewer results than it counts.
\<close>

theorem poll_tears:
  assumes "sv_task (as_server a) = Some i" and "sv_tasks (as_server a) ! i = (tid, v, t)"
    and "sv_tasks (as_server b) ! i = (tid, v, t')" and "tid \<noteq> []"
  shows "alone (advance 3 (progress_call (req ''GET'' (''/api/proxies/validate/'' @ tid))) a) b =
    Inr (writeJSON 200 (task_report tid (vt_Total t') (vt_Done t') (vt_Valid t') (vt_Running t') (Snapshot t)), b)"
proof -
  have path: "trim_prefix ''/api/proxies/validate/'' (rq_Path (req m (''/api/proxies/validate/'' @ tid))) = tid" for m
    unfolding req_def by (simp only: request.simps trim_prefix_append)
  show ?thesis
    unfolding progress_call_def Let_def path
    using assms by (simp add: look_def numeral_3_eq_3)
qed

text \<open>A process without a network, whose decoders fail.\<close>

definition offline_env :: "unit api_env" where
  "offline_env = \<lparr>ae_now = ''now'', ae_now' = ''later'', ae_nano = 1, ae_nanos = (\<lambda>i. int i),
     ae_fetch = cw_fetch offline, ae_compile = cw_compile offline, ae_unmarshal = cw_unmarshal offline,
     ae_sources = BuiltinSources, ae_validation = cw_validation offline,
     ae_decodeAdd = (\<lambda>_. None), ae_decodeStrategy = (\<lambda>_. None), ae_decodeDynamic = (\<lambda>_. None),
     ae_decodeAuto = (\<lambda>_. None), ae_load = (\<lambda>p f. Inl (ReadFailed p)), ae_save = (\<lambda>c p f. (None, f)),
     ae_configErr = (\<lambda>e. []), ae_poolErr = (\<lambda>e. []), ae_quote = (\<lambda>s. s)\<rparr>"


theorem poll_tears_witness:
  "\<exists>a b. sv_tasks (as_server a) = [(''t1'', two_proxies, begin_task two_proxies new_task)] \<and>
     alone (advance 3 (progress_call (req ''GET'' (''/api/proxies/validate/'' @ ''t1''))) (a :: unit api_state)) b =
       Inr (writeJSON 200 (task_report ''t1'' 2 2 (vt_Valid all_done) False []), b)"
proof -
  let ?s = "\<lambda>t. (status_server NewManager)\<lparr>sv_tasks := [(''t1'', two_proxies, t)], sv_task := Some 0\<rparr>"
  let ?a = "\<lambda>t. \<lparr>as_server = ?s t, as_dyn = dyn_init (empty_pool []), as_files = ()\<rparr>"
  have "vt_Total all_done = 2" "vt_Done all_done = 2" "\<not> vt_Running all_done"
    "Snapshot (begin_task two_proxies new_task) = []" by code_simp+
  with poll_tears [of "?a (begin_task two_proxies new_task)" 0 "''t1''" two_proxies
      "begin_task two_proxies new_task" "?a all_done" all_done]
  show ?thesis by (intro exI [of _ "?a (begin_task two_proxies new_task)"] exI [of _ "?a all_done"]) simp
qed

end
