(* ===== verification/ApiSafe.thy ===== *)
theory ApiSafe
  imports ApiCalls
begin

text \<open>
  What the requests of the API guarantee whoever comes in between of their steps, and what they rely
  on: no panic, an answer in the end, and every step one that \<open>System\<close> allows and that leaves
  the registered connections registered.
\<close>

section \<open>What a handler guarantees\<close>

lemma crawl_no_panic:
  assumes "\<forall>s \<in> set order. two_groups compile s"
  shows "Crawl fetch compile unmarshal order t \<noteq> Inl p"
proof -
  have "\<forall>s \<in> set order. \<exists>r. source_outcome fetch compile unmarshal (crawl_timeout t) s = Inr r"
    using assms source_outcome_no_panic by blast
  from Crawl_inv [OF this] show ?thesis by auto
qed

definition chans :: "eref set \<Rightarrow> manager \<Rightarrow> bool" where
  "chans R m \<longleftrightarrow> (\<forall>r \<in> R. e_cancel (m_obj m r) \<noteq> NilChan)"

lemma chans_step:
  assumes "cm_step m m'" and "cm_ok m" and "chans R m"
  shows "chans R m'"
  using assms(1)
proof cases
  case (step_register e r m1)
  with assms(3) show ?thesis by (auto simp: chans_def new_entry_def Register_def update_entry_def Let_def)
next
  case (step_close r)
  have "m' = mark_closed r m"
    using Entry_Close_eq [OF cm_okD(1) [OF assms(2)] step_close(1)] step_close(2) by simp
  with assms(3) show ?thesis by (simp add: chans_def)
qed (use assms(3) in \<open>simp_all add: chans_def Unregister_def AddUpload_def AddDownload_def SetProxy_def update_entry_def\<close>)

text \<open>What the operations of the registry keep, everybody keeps.\<close>

lemma stable_same:
  assumes "same_registry m m'" and "cm_ok m" and "P m"
    and "\<And>m m'. cm_step m m' \<Longrightarrow> cm_ok m \<Longrightarrow> P m \<Longrightarrow> P m'"
  shows "P m'"
proof -
  have step: "cm_ok n' \<and> P n'" if "cm_ok n \<and> P n" "frame UNIV n n'" for n n'
    using that frame_cm_ok [OF that(2)] assms(4) [of n n'] by (auto simp: frame_def)
  have "cm_ok m' \<and> P m'"
    using conjunct2 [OF assms(1) [unfolded same_registry_def]] conjI [OF assms(2,3)] step
    by (rule frames_induct)
  then show ?thesis ..
qed

lemma stable_system:
  assumes "(system_step W)\<^sup>*\<^sup>* a a'" and "api_ok a" and "P (as_cm a)"
    and stable: "\<And>m m'. cm_step m m' \<Longrightarrow> cm_ok m \<Longrightarrow> P m \<Longrightarrow> P m'"
  shows "P (as_cm a')"
proof -
  have "api_ok a' \<and> P (as_cm a')"
    using assms(1)
  proof (induction rule: rtranclp_induct)
    case (step b c)
    then have ok: "api_ok b" "P (as_cm b)" by simp_all
    from step.hyps(2) have "P (as_cm c)"
    proof cases
      case sys_api
      show ?thesis
        by (rule stable_same [OF conjunct2 [OF api_step_ok [OF ok(1) sys_api]] api_okD(1) [OF ok(1)]]) (rule ok(2), rule stable)
    next
      case (sys_registry m)
      with stable [OF sys_registry(2) api_okD(1) [OF ok(1)] ok(2)] show ?thesis by simp
    next
      case (sys_pool p)
      with ok(2) show ?thesis by simp
    qed
    with api_ok_step [OF ok(1) step.hyps(2)] show ?case by simp
  qed (use assms(2,3) in simp)
  then show ?thesis ..
qed

lemma chans_same: "same_registry m m' \<Longrightarrow> cm_ok m \<Longrightarrow> chans R m \<Longrightarrow> chans R m'"
  by (rule stable_same [where P = "chans R"]) (auto intro: chans_step)

lemma chans_system: "(system_step W)\<^sup>*\<^sup>* a a' \<Longrightarrow> api_ok a \<Longrightarrow> chans R (as_cm a) \<Longrightarrow> chans R (as_cm a')"
  by (rule stable_system [where P = "chans R"]) (auto intro: chans_step)

lemma Closed_system:
  assumes "(system_step W)\<^sup>*\<^sup>* a a'" and "api_ok a" and "Closed r (as_cm a)" and "r < m_next (as_cm a)"
  shows "Closed r (as_cm a')"
proof -
  have "Closed r (as_cm a') \<and> r < m_next (as_cm a')"
    by (rule stable_system [where P = "\<lambda>m. Closed r m \<and> r < m_next m", OF assms(1,2)])
      (use assms(3,4) closed_stable in blast)+
  then show ?thesis ..
qed

text \<open>
  A call that relies on nothing but \<open>api_ok\<close> and on the channels of the entries \<open>R\<close> that it has
  looked up: in every such state its step is one of the system that keeps the registered
  connections, and so on until it answers. The definition is inductive, so it says that it does.
\<close>

inductive safe :: "cycle_world \<Rightarrow> eref set \<Rightarrow> 'f api_state call \<Rightarrow> bool" for W where
  safe_reply: "rs_Code resp \<in> {200, 400, 404, 405, 500} \<Longrightarrow> safe W R (Reply resp)"
| safe_atomic: "(\<And>a. api_ok a \<Longrightarrow> chans R (as_cm a) \<Longrightarrow>
      (system_step W)\<^sup>*\<^sup>* a (u a) \<and> same_registry (as_cm a) (as_cm (u a)) \<and>
      (\<exists>R'. chans R' (as_cm (u a)) \<and> safe W R' (k a))) \<Longrightarrow>
    safe W R (Atomic u k)"

inductive_cases safe_panicE: "safe W R (Panics x)"
inductive_cases safe_replyE: "safe W R (Reply resp)"
inductive_cases safe_atomicE: "safe W R (Atomic u k)"

lemma safe_look:
  assumes "\<And>a. api_ok a \<Longrightarrow> chans R (as_cm a) \<Longrightarrow> \<exists>R'. chans R' (as_cm a) \<and> safe W R' (k (g a))"
  shows "safe W R (look g k)"
  unfolding look_def using assms by (intro safe_atomic) simp

lemma safe_look_any: "(\<And>x. safe W R (k x)) \<Longrightarrow> safe W R (look g k)"
  by (rule safe_look) blast

lemma safe_change:
  assumes "\<And>a. api_ok a \<Longrightarrow> (system_step W)\<^sup>*\<^sup>* a (u a) \<and> same_registry (as_cm a) (as_cm (u a))"
    and "safe W R c"
  shows "safe W R (change u c)"
  unfolding change_def
proof (rule safe_atomic)
  fix a :: "'a api_state"
  assume a: "api_ok a" "chans R (as_cm a)"
  with assms(1) [of a] chans_same [OF _ api_okD(1)] assms(2)
  show "(system_step W)\<^sup>*\<^sup>* a (u a) \<and> same_registry (as_cm a) (as_cm (u a)) \<and> (\<exists>R'. chans R' (as_cm (u a)) \<and> safe W R' c)"
    by blast
qed

lemma api_moves:
  assumes "api_step W a a'" and "api_ok a"
  shows "(system_step W)\<^sup>*\<^sup>* a a' \<and> same_registry (as_cm a) (as_cm a')"
  using api_step_ok [OF assms(2,1)] sys_api [OF assms(1)] by blast

lemma safe_log: "safe W R c \<Longrightarrow> safe W R (log_call modul msg now c)"
  unfolding log_call_def by (rule safe_change) (rule api_moves [OF api_log])

lemma pool_moves:
  assumes "p = as_pool a \<or> pool_step (as_pool a) p" and "api_ok a"
  shows "(system_step W)\<^sup>*\<^sup>* a (put_pool p a) \<and> same_registry (as_cm a) (as_cm (put_pool p a))"
  using assms(1) put_same(2) [OF assms(2)] sys_pool [of a p W] by auto

lemma safe_on_pool:
  fixes k :: "'x \<Rightarrow> 'f api_state call"
  assumes "\<And>p. snd (f p) = p \<or> pool_step p (snd (f p))" and "\<And>x. safe W R (k x)"
  shows "safe W R (on_pool f k)"
  unfolding on_pool_def
proof (rule safe_atomic)
  fix a :: "'f api_state"
  assume a: "api_ok a" "chans R (as_cm a)"
  with pool_moves [of "snd (f (as_pool a))" a W] assms
  show "(system_step W)\<^sup>*\<^sup>* a (put_pool (snd (f (as_pool a))) a) \<and>
    same_registry (as_cm a) (as_cm (put_pool (snd (f (as_pool a))) a)) \<and>
    (\<exists>R'. chans R' (as_cm (put_pool (snd (f (as_pool a))) a)) \<and> safe W R' (k (fst (f (as_pool a)))))"
    by auto
qed

lemma safe_on_dyn:
  assumes "\<And>d. f d = d \<or> dyn_step W d (f d)" and "rs_Code resp \<in> {200, 400, 404, 405, 500}"
  shows "safe W R (on_dyn f resp)"
  unfolding on_dyn_def
proof (rule safe_change [OF _ safe_reply [OF assms(2)]])
  fix a :: "'a api_state"
  assume ok: "api_ok a"
  show "(system_step W)\<^sup>*\<^sup>* a (put_dyn (f (as_dyn a)) a) \<and> same_registry (as_cm a) (as_cm (put_dyn (f (as_dyn a)) a))"
    using assms(1) [of "as_dyn a"] api_moves [OF api_loop ok] synced_same(2) [OF api_ok_synced [OF ok]] by auto
qed

lemma safe_view_each: "(\<And>vs. safe W R (k vs)) \<Longrightarrow> safe W R (view_each rs vs k)"
  by (induction rs arbitrary: vs) (auto intro: safe_look_any)

lemma safe_snapshot: "(\<And>vs. safe W R (k vs)) \<Longrightarrow> safe W R (snapshot_call ord k)"
  unfolding snapshot_call_def collect_call_def by (intro safe_look_any safe_view_each)

lemma safe_close_each:
  fixes c :: "'f api_state call"
  assumes "\<And>R'. safe W R' c" and "set rs \<subseteq> R"
  shows "safe W R (close_each_call rs c)"
  using assms(2)
proof (induction rs arbitrary: R)
  case (Cons r rs)
  show ?case unfolding close_each_call.simps
  proof (rule safe_atomic)
    fix a :: "'f api_state"
    assume a: "api_ok a" "chans R (as_cm a)"
    let ?m = "mark_closed r (as_cm a)"
    have n: "e_cancel (m_obj (as_cm a) r) \<noteq> NilChan" using a(2) Cons.prems by (simp add: chans_def)
    note ok = api_okD(1) [OF a(1)]
    have c: "Entry_Close r (as_cm a) = Inr ?m" by (rule Entry_Close_eq [OF cm_okD(1) [OF ok] n])
    have same: "same_registry (as_cm a) ?m"
      using same_registry_step [OF frame_mark_closed [OF n ok] _ same_registry_refl] by simp
    have "chans R ?m" using a(2) by (simp add: chans_def)
    then show "(system_step W)\<^sup>*\<^sup>* a (case Entry_Close r (as_cm a) of Inl x \<Rightarrow> a | Inr m \<Rightarrow> put_cm m a) \<and>
      same_registry (as_cm a) (as_cm (case Entry_Close r (as_cm a) of Inl x \<Rightarrow> a | Inr m \<Rightarrow> put_cm m a)) \<and>
      (\<exists>R'. chans R' (as_cm (case Entry_Close r (as_cm a) of Inl x \<Rightarrow> a | Inr m \<Rightarrow> put_cm m a)) \<and>
        safe W R' (case Entry_Close r (as_cm a) of Inl x \<Rightarrow> Panics x | Inr m \<Rightarrow> close_each_call rs c))"
      using same sys_registry [OF step_close [OF n c], of W] Cons.IH [of R] Cons.prems by (auto simp: c)
  qed
qed (use assms(1) in simp)

lemma chans_collect: "cm_ok m \<Longrightarrow> chans (set (collect order m)) m"
  using cm_okD(4) by (auto simp: chans_def collect_mem)

lemma chans_union: "chans R m \<Longrightarrow> chans R' m \<Longrightarrow> chans (R \<union> R') m"
  by (auto simp: chans_def)

lemma safe_collect:
  assumes "\<And>rs R'. set rs \<subseteq> R' \<Longrightarrow> safe W R' (k rs)"
  shows "safe W R (collect_call ord k)"
  unfolding collect_call_def
proof (rule safe_look)
  fix a :: "'a api_state"
  assume "api_ok a" "chans R (as_cm a)"
  let ?rs = "collect (ord (as_cm a)) (as_cm a)"
  have "chans (set ?rs) (as_cm a)" by (rule chans_collect [OF api_okD(1) [OF \<open>api_ok a\<close>]])
  with assms [of ?rs "set ?rs"] show "\<exists>R'. chans R' (as_cm a) \<and> safe W R' (k ?rs)" by blast
qed

lemma codes [simp]:
  "rs_Code (writeJSON c v) = c" "rs_Code method_not_allowed = 405" "rs_Code not_found = 404" "rs_Code not_enabled = 400"
  by (simp_all add: writeJSON_def method_not_allowed_def not_found_def not_enabled_def)

lemma safe_replies [simp]:
  "c \<in> {200, 400, 404, 405, 500} \<Longrightarrow> safe W R (Reply (writeJSON c v))" "safe W R (Reply method_not_allowed)"
  "safe W R (Reply not_found)" "safe W R (Reply not_enabled)" "safe W R (closed_reply b)"
  by (auto simp: closed_reply_def intro: safe_reply)

lemma safe_option: "safe W R c \<Longrightarrow> (\<And>y. safe W R (k y)) \<Longrightarrow> safe W R (case x of None \<Rightarrow> c | Some y \<Rightarrow> k y)"
  by (cases x) simp_all

lemma safe_if: "safe W R c \<Longrightarrow> safe W R d \<Longrightarrow> safe W R (if b then c else d)"
  by simp

lemma safe_sum: "(\<And>y. safe W R (k y)) \<Longrightarrow> (\<And>y. safe W R (l y)) \<Longrightarrow> safe W R (case x of Inl y \<Rightarrow> k y | Inr y \<Rightarrow> l y)"
  by (cases x) simp_all

lemma safe_pair: "(\<And>y z. safe W R (k y z)) \<Longrightarrow> safe W R (case x of (y, z) \<Rightarrow> k y z)"
  by (cases x) simp

lemmas safe_rules = safe_look_any safe_log safe_snapshot safe_option safe_if safe_sum safe_pair

lemma safe_Connections: "safe W R (connections_call ord r)"
  unfolding connections_call_def by (intro safe_rules safe_collect safe_close_each) simp_all

lemma safe_item:
  fixes c :: "eref option \<Rightarrow> 'f api_state call"
  assumes "\<And>R. safe W R (c None)" and "\<And>e. safe W {e} (c (Some e))"
  shows "safe W R (look (\<lambda>a. Manager_Get i (as_cm a)) c)"
proof (rule safe_look)
  fix a :: "'f api_state"
  assume a: "api_ok a" "chans R (as_cm a)"
  show "\<exists>R'. chans R' (as_cm a) \<and> safe W R' (c (Manager_Get i (as_cm a)))"
  proof (cases "Manager_Get i (as_cm a)")
    case None
    with a(2) assms(1) show ?thesis by auto
  next
    case (Some e)
    then have "chans {e} (as_cm a)"
      using cm_okD(4) [OF api_okD(1) [OF a(1)]] by (simp add: chans_def Manager_Get_def)
    with Some assms(2) show ?thesis by auto
  qed
qed

lemma safe_close_item: "safe W R (look (\<lambda>a. Manager_Get i (as_cm a))
    (\<lambda>e. case e of None \<Rightarrow> closed_reply False | Some e \<Rightarrow> close_each_call [e] (closed_reply True)))"
  by (rule safe_item) (simp_all only: option.case safe_replies safe_close_each list.set subset_refl)

lemma safe_ConnectionItem: "safe W R (connection_item_call ord r)"
  unfolding connection_item_call_def
  by (intro safe_close_item safe_option safe_if safe_snapshot) simp_all

lemma safe_Fetch:
  assumes "\<And>t x. crawl t \<noteq> Inl x"
  shows "safe W R (fetch_call crawl now now' r)"
proof -
  have crawled: "safe W R (case crawl t of Inl x \<Rightarrow> Panics x | Inr res \<Rightarrow> k res)" if "\<And>res. safe W R (k res)" for t k
    using assms [of t] that by (cases "crawl t") auto
  show ?thesis
    unfolding fetch_call_def
    by (intro safe_look_any safe_if safe_option safe_log crawled safe_change api_moves [OF api_cached]) simp_all
qed

lemma safe_Validate: "safe W R (validate_call validation nano now r)"
  unfolding validate_call_def Let_def
  by (intro safe_rules safe_change api_moves [OF api_publish]) simp_all

lemma safe_Progress: "safe W R (progress_call r)"
  unfolding progress_call_def Let_def by (intro safe_rules) simp_all

lemma safe_ProxyItem: "safe W R (proxy_item_call now r)"
  unfolding proxy_item_call_def
  by (intro safe_rules safe_on_pool disjI2 step_remove) simp_all

lemma try_add_step: "pool_step p (snd (try_add u p))"
proof -
  have "snd (try_add u p) = snd (Pool_Add (p_next p) (snd (new_upstream u p)))"
    by (simp add: try_add_eq split: prod.split)
  with step_add [OF new_upstream_fst] show ?thesis by simp
qed

lemma first_add_step: "snd (first_add u p) = p \<or> pool_step p (snd (first_add u p))"
  by (simp add: first_add_def try_add_step)

lemma safe_add_each: "(\<And>n. safe W R (k n)) \<Longrightarrow> safe W R (add_each_call nanos ps added k)"
proof (induction nanos ps added k rule: add_each_call.induct)
  case (2 nanos addr t rest added k)
  then show ?case
    by (auto simp: Let_def intro!: safe_on_pool first_add_step try_add_step)
qed simp

lemma safe_PoolAdd: "safe W R (pool_add_call decode nanos now r)"
  unfolding pool_add_call_def by (intro safe_rules safe_add_each) simp_all

lemma safe_PoolSave: "safe W R (pool_save_call load save errText now r :: 'f api_state call)"
proof -
  have files: "safe W R (Atomic (\<lambda>a. a\<lparr>as_files := f a\<rparr>) k)" if "\<And>a. safe W R (k a)"
    for R f and k :: "'f api_state \<Rightarrow> 'f api_state call"
  proof (rule safe_atomic)
    fix a :: "'f api_state"
    assume "api_ok a" "chans R (as_cm a)"
    with api_moves [OF api_files [of W a "f a"]] that
    show "(system_step W)\<^sup>*\<^sup>* a (a\<lparr>as_files := f a\<rparr>) \<and> same_registry (as_cm a) (as_cm (a\<lparr>as_files := f a\<rparr>)) \<and>
      (\<exists>R'. chans R' (as_cm (a\<lparr>as_files := f a\<rparr>)) \<and> safe W R' (k a))" by auto
  qed
  show ?thesis unfolding pool_save_call_def Let_def
    by (intro safe_rules files) simp_all
qed

lemma safe_PoolStrategy: "safe W R (pool_strategy_call decode errText quote now r)"
  unfolding pool_strategy_call_def Let_def
  by (intro safe_rules safe_on_pool disjI2 step_strategy) (simp_all add: step_pin)

lemma safe_Dynamic: "safe W R (dynamic_call decode r)"
  unfolding dynamic_call_def
  by (intro safe_rules safe_on_dyn disjI2 dyn_step.dyn_start dyn_step.dyn_stop) simp_all

lemma safe_AutoPool: "safe W R (auto_pool_call decode r)"
  unfolding auto_pool_call_def
  by (intro safe_rules safe_on_dyn) (auto intro: dyn_auto split: option.split)

lemma safe_logs: "safe W R (logs_call r :: 'f api_state call)"
proof -
  have "safe W R (look (\<lambda>a. handleLogs r (as_server a)) Reply :: 'f api_state call)" if "rq_Method r = ''GET''"
  proof (rule safe_look)
    fix a :: "'f api_state"
    assume "chans R (as_cm a)"
    moreover have "rs_Code (handleLogs r (as_server a)) = 200"
      using that by (simp add: handleLogs_def Let_def split: option.split)
    ultimately show "\<exists>R'. chans R' (as_cm a) \<and> safe W R' (Reply (handleLogs r (as_server a)))"
      by (auto intro: safe_reply)
  qed
  then show ?thesis by (simp add: logs_call_def)
qed

lemma safe_reads: "safe W R (proxies_call r)" "safe W R (stats_call ord r)"
  unfolding proxies_call_def stats_call_def by (intro safe_rules; simp)+

lemma safe_API_call:
  assumes "\<forall>s \<in> set (ae_sources E). two_groups (ae_compile E) s"
  shows "safe W R (API_call E ord r)"
proof -
  have health: "safe W R (Reply (handleHealth r))" by (auto simp: handleHealth_def)
  show ?thesis
    unfolding API_call_def
    by (cases "Handler (rq_Path r)"; cases "the (Handler (rq_Path r))")
      (simp_all add: health safe_reads safe_logs safe_Progress safe_Connections safe_ConnectionItem safe_Validate safe_ProxyItem
        safe_PoolAdd safe_PoolSave safe_PoolStrategy safe_Dynamic safe_AutoPool safe_Fetch [OF crawl_no_panic [OF assms]])
qed

lemma system_steps_ok: "(system_step W)\<^sup>*\<^sup>* a a' \<Longrightarrow> api_ok a \<Longrightarrow> api_ok a'"
  by (induction rule: rtranclp_induct) (auto intro: api_ok_step)

lemma safe_alone:
  assumes "safe W R c" and "api_ok a" and "chans R (as_cm a)"
  shows "\<exists>resp a'. alone c a = Inr (resp, a') \<and> rs_Code resp \<in> {200, 400, 404, 405, 500} \<and>
    (system_step W)\<^sup>*\<^sup>* a a' \<and> api_ok a' \<and> same_registry (as_cm a) (as_cm a')"
  using assms
proof (induction arbitrary: a rule: safe.induct)
  case (safe_reply resp R)
  then show ?case by auto
next
  case (safe_atomic R u k)
  from safe_atomic.IH [OF safe_atomic.prems] obtain R' where s: "(system_step W)\<^sup>*\<^sup>* a (u a)"
      "same_registry (as_cm a) (as_cm (u a))" "chans R' (as_cm (u a))"
    and IH: "\<And>b. api_ok b \<Longrightarrow> chans R' (as_cm b) \<Longrightarrow> \<exists>resp a'. alone (k a) b = Inr (resp, a') \<and>
      rs_Code resp \<in> {200, 400, 404, 405, 500} \<and> (system_step W)\<^sup>*\<^sup>* b a' \<and> api_ok a' \<and>
      same_registry (as_cm b) (as_cm a')" by blast
  from IH [OF system_steps_ok [OF s(1) safe_atomic.prems(1)] s(3)] obtain resp a' where
    "alone (k a) (u a) = Inr (resp, a')" "rs_Code resp \<in> {200, 400, 404, 405, 500}"
    "(system_step W)\<^sup>*\<^sup>* (u a) a'" "api_ok a'" "same_registry (as_cm (u a)) (as_cm a')" by blast
  with s show ?case by (auto intro: rtranclp_trans same_registry_trans)
qed

lemma next_step: "cm_step m m' \<Longrightarrow> r < m_next m \<Longrightarrow> r < m_next m'"
proof (induction rule: cm_step.induct)
  case (step_close m q m')
  then show ?case
    by (auto simp: Entry_Close_def update_entry_def Let_def split: if_splits sum.splits)
qed (auto simp: new_entry_def Register_def Unregister_def AddUpload_def AddDownload_def SetProxy_def update_entry_def Let_def)

lemma next_system: "(system_step W)\<^sup>*\<^sup>* a a' \<Longrightarrow> api_ok a \<Longrightarrow> r < m_next (as_cm a) \<Longrightarrow> r < m_next (as_cm a')"
  by (rule stable_system [where P = "\<lambda>m. r < m_next m"], assumption+) (rule next_step)

lemma map_order_exists: "\<exists>ord. map_order ord"
proof -
  have "\<exists>xs. finite (dom (m_entries m)) \<longrightarrow> distinct xs \<and> set xs = dom (m_entries m)" for m :: manager
  proof (cases "finite (dom (m_entries m))")
    case True
    from finite_distinct_list [OF this] show ?thesis by (elim exE) (intro exI, blast)
  qed (intro exI, blast)
  then have "\<forall>m :: manager. \<exists>xs. finite (dom (m_entries m)) \<longrightarrow> distinct xs \<and> set xs = dom (m_entries m)" ..
  then show ?thesis unfolding map_order_def by (rule choice)
qed

text \<open>A call that is under way, between the steps of others.\<close>

definition call_ok :: "cycle_world \<Rightarrow> 'f api_state \<Rightarrow> 'f api_state call \<Rightarrow> bool" where
  "call_ok W a c \<longleftrightarrow> (\<exists>R. chans R (as_cm a) \<and> safe W R c)"

lemma call_ok_new: "\<forall>s \<in> set (ae_sources E). two_groups (ae_compile E) s \<Longrightarrow> call_ok W a (API_call E ord r)"
  using safe_API_call [of E W "{}" ord r] by (auto simp: call_ok_def chans_def intro!: exI [of _ "{}"])

lemma call_ok_system: "(system_step W)\<^sup>*\<^sup>* a a' \<Longrightarrow> api_ok a \<Longrightarrow> call_ok W a c \<Longrightarrow> call_ok W a' c"
  unfolding call_ok_def using chans_system by blast

lemma call_ok_step:
  assumes "call_ok W a (Atomic u k)" and "api_ok a"
  shows "(system_step W)\<^sup>*\<^sup>* a (u a) \<and> same_registry (as_cm a) (as_cm (u a)) \<and> api_ok (u a) \<and> call_ok W (u a) (k a)"
proof -
  from assms(1) obtain R where R: "chans R (as_cm a)" "safe W R (Atomic u k)" by (auto simp: call_ok_def)
  from R(2) have "(system_step W)\<^sup>*\<^sup>* a (u a) \<and> same_registry (as_cm a) (as_cm (u a)) \<and>
      (\<exists>R'. chans R' (as_cm (u a)) \<and> safe W R' (k a))"
    by (rule safe_atomicE) (use assms(2) R(1) in blast)
  then show ?thesis using system_steps_ok [OF _ assms(2)] by (auto simp: call_ok_def)
qed

lemma call_ok_reply: "call_ok W a (Reply resp) \<Longrightarrow> rs_Code resp \<in> {200, 400, 404, 405, 500}"
  by (auto simp: call_ok_def elim: safe_replyE)

lemma call_ok_panics: "\<not> call_ok W a (Panics x)"
  by (auto simp: call_ok_def elim: safe_panicE)

end
