(* ===== verification/Program.thy ===== *)
theory Program
  imports Sessions Listener ApiSafe
begin

text \<open>
  The running process (\<open>cmd/proxypool/main.go\<close>): the two proxy listeners with a session per
  accepted connection, the requests of the API that are under way with the goroutines they start, the
  health checker, the signal, and the shutdown of \<open>main\<close>, all over one registry and one pool. A
  refinement shows that \<open>System\<close>, which only knows of the operations of the shared parts, covers it.
\<close>

section \<open>The process\<close>

text \<open>
  Where \<open>main\<close> stands; \<open>Closing\<close> carries the connections that the loop of \<open>CloseAll\<close> has still to
  close. A panic of a goroutine ends the process, too.
\<close>

datatype main_loop = Serving | Closing "eref list" | ClosedAll | Exited | Panicked go_panic

fun ended :: "main_loop \<Rightarrow> bool" where
  "ended Exited = True" | "ended (Panicked x) = True" | "ended _ = False"

record 'f program =
  pg_api :: "'f api_state"
  pg_calls :: "'f api_state call list"
  pg_net :: net
  pg_sessions :: "stage list"
  pg_listeners :: "front \<Rightarrow> proxy_listener option"
  pg_cancelled :: bool
  pg_main :: main_loop

definition program_shared :: "'f program \<Rightarrow> shared" where
  "program_shared P = \<lparr>sh_pool = as_pool (pg_api P), sh_cm = as_cm (pg_api P), sh_net = pg_net P\<rparr>"

definition put_shared :: "shared \<Rightarrow> 'f program \<Rightarrow> 'f program" where
  "put_shared sh P = P\<lparr>pg_api := put_cm (sh_cm sh) (put_pool (sh_pool sh) (pg_api P)), pg_net := sh_net sh\<rparr>"

text \<open>The listeners that \<open>main\<close> starts a goroutine for.\<close>

definition started_listeners :: "listener list \<Rightarrow> front \<Rightarrow> proxy_listener option" where
  "started_listeners ls f =
     (if (case f of HTTPFront \<Rightarrow> \<exists>a. HTTPListener a \<in> set ls | SOCKS5Front \<Rightarrow> \<exists>a. SOCKS5Listener a \<in> set ls)
      then Some new_listener else None)"

definition program_start :: "process \<Rightarrow> 'f program \<Rightarrow> bool" where
  "program_start pr P \<longleftrightarrow> (\<exists>files. pg_api P = start_state pr files) \<and> pg_sessions P = [] \<and>
     pg_calls P = [] \<and> pg_listeners P = started_listeners (pr_listeners pr) \<and> \<not> pg_cancelled P \<and> pg_main P = Serving"

text \<open>
  The shutdown: \<open>main\<close> waits for the context, closes what the registry holds, sleeps, and
  returns, which ends the process with all its goroutines. A probe of the health checker may be
  about an upstream that has been removed since the tick. A request of the API arrives with what
  the world will answer its handler; the expressions of the sources have two groups, as those of
  \<open>BuiltinSources\<close> have.
\<close>

inductive program_step :: "cycle_world \<Rightarrow> session_world \<Rightarrow> process \<Rightarrow> 'f program \<Rightarrow> 'f program \<Rightarrow> bool"
  for W SW pr where
  pg_goroutine: "\<not> ended (pg_main P) \<Longrightarrow> goroutine_step W (pg_api P) a \<Longrightarrow>
    program_step W SW pr P (P\<lparr>pg_api := a\<rparr>)"
| pg_panic: "\<not> ended (pg_main P) \<Longrightarrow> i < length (dy_runners (as_dyn (pg_api P))) \<Longrightarrow>
    event_ok W ev (rn_phase (dy_runners (as_dyn (pg_api P)) ! i)) \<Longrightarrow>
    loop_step ev i (as_dyn (pg_api P)) = Some (Inl x) \<Longrightarrow>
    program_step W SW pr P (P\<lparr>pg_main := Panicked x\<rparr>)"
| pg_request: "\<not> ended (pg_main P) \<Longrightarrow> APIListener addr \<in> set (pr_listeners pr) \<Longrightarrow> map_order ord \<Longrightarrow>
    \<forall>s \<in> set (ae_sources E). two_groups (ae_compile E) s \<Longrightarrow>
    program_step W SW pr P (P\<lparr>pg_calls := pg_calls P @ [API_call E ord r]\<rparr>)"
| pg_call: "\<not> ended (pg_main P) \<Longrightarrow> k < length (pg_calls P) \<Longrightarrow> pg_calls P ! k = Atomic u c \<Longrightarrow>
    program_step W SW pr P (P\<lparr>pg_api := u (pg_api P), pg_calls := (pg_calls P)[k := c (pg_api P)]\<rparr>)"
| pg_health: "\<not> ended (pg_main P) \<Longrightarrow> pr_healthCheck pr \<noteq> None \<Longrightarrow>
    program_step W SW pr P (P\<lparr>pg_api := put_pool (probe dial u (as_pool (pg_api P))) (pg_api P)\<rparr>)"
| pg_session: "\<not> ended (pg_main P) \<Longrightarrow> k < length (pg_sessions P) \<Longrightarrow>
    session_step SW (pg_sessions P ! k, program_shared P) (st, sh) \<Longrightarrow>
    program_step W SW pr P (put_shared sh (P\<lparr>pg_sessions := (pg_sessions P)[k := st]\<rparr>))"
| pg_listen: "\<not> ended (pg_main P) \<Longrightarrow> pg_listeners P f = Some l \<Longrightarrow>
    listen_step (pg_cancelled P) ev l = Some (co, l') \<Longrightarrow>
    program_step W SW pr P (P\<lparr>pg_listeners := (pg_listeners P)(f \<mapsto> l'),
      pg_sessions := pg_sessions P @ (case co of None \<Rightarrow> [] | Some c \<Rightarrow> [Accepted f c])\<rparr>)"
| pg_signal: "\<not> ended (pg_main P) \<Longrightarrow> program_step W SW pr P (P\<lparr>pg_cancelled := True\<rparr>)"
| pg_collect: "pg_main P = Serving \<Longrightarrow> pg_cancelled P \<Longrightarrow> map_order ord \<Longrightarrow>
    program_step W SW pr P (P\<lparr>pg_main := Closing (collect (ord (as_cm (pg_api P))) (as_cm (pg_api P)))\<rparr>)"
| pg_close: "pg_main P = Closing (r # rs) \<Longrightarrow> Entry_Close r (as_cm (pg_api P)) = Inr m \<Longrightarrow>
    program_step W SW pr P (P\<lparr>pg_api := put_cm m (pg_api P), pg_main := Closing rs\<rparr>)"
| pg_closed: "pg_main P = Closing [] \<Longrightarrow> program_step W SW pr P (P\<lparr>pg_main := ClosedAll\<rparr>)"
| pg_exit: "pg_main P = ClosedAll \<Longrightarrow> program_step W SW pr P (P\<lparr>pg_main := Exited\<rparr>)"

abbreviation program_runs :: "cycle_world \<Rightarrow> session_world \<Rightarrow> process \<Rightarrow> 'f program \<Rightarrow> bool" where
  "program_runs W SW pr \<equiv> reach (program_start pr) (program_step W SW pr)"

section \<open>The invariant\<close>

text \<open>
  The sessions and the listeners; then the requests that are under way, and the connections that
  \<open>main\<close> is about to close.
\<close>

definition core_ok :: "'f program \<Rightarrow> bool" where
  "core_ok P \<longleftrightarrow> api_ok (pg_api P) \<and> sessions_ok (program_shared P) (pg_sessions P) \<and>
     (\<forall>f l. pg_listeners P f = Some l \<longrightarrow> listener_inv (pg_cancelled P) l)"

fun closing_ok :: "manager \<Rightarrow> main_loop \<Rightarrow> bool" where
  "closing_ok m (Closing rs) \<longleftrightarrow> chans (set rs) m"
| "closing_ok m _ \<longleftrightarrow> True"

definition calls_ok :: "cycle_world \<Rightarrow> 'f program \<Rightarrow> bool" where
  "calls_ok W P \<longleftrightarrow> (\<forall>c \<in> set (pg_calls P). call_ok W (pg_api P) c) \<and> closing_ok (as_cm (pg_api P)) (pg_main P)"

definition program_ok :: "cycle_world \<Rightarrow> 'f program \<Rightarrow> bool" where
  "program_ok W P \<longleftrightarrow> core_ok P \<and> calls_ok W P"

lemma core_okD:
  "core_ok P \<Longrightarrow> api_ok (pg_api P)" "core_ok P \<Longrightarrow> sessions_ok (program_shared P) (pg_sessions P)"
  "core_ok P \<Longrightarrow> pg_listeners P f = Some l \<Longrightarrow> listener_inv (pg_cancelled P) l"
  by (simp_all add: core_ok_def)

lemma program_okD:
  "program_ok W P \<Longrightarrow> api_ok (pg_api P)" "program_ok W P \<Longrightarrow> sessions_ok (program_shared P) (pg_sessions P)"
  "program_ok W P \<Longrightarrow> calls_ok W P"
  by (simp_all add: program_ok_def core_ok_def)

lemma shared_simps [simp]:
  "sh_pool (program_shared P) = as_pool (pg_api P)" "sh_cm (program_shared P) = as_cm (pg_api P)"
  "sh_net (program_shared P) = pg_net P" "program_shared (put_shared sh P) = sh"
  "pg_sessions (put_shared sh P) = pg_sessions P" "pg_listeners (put_shared sh P) = pg_listeners P"
  "pg_cancelled (put_shared sh P) = pg_cancelled P" "pg_main (put_shared sh P) = pg_main P"
  "pg_calls (put_shared sh P) = pg_calls P" "program_shared (P\<lparr>pg_calls := cs\<rparr>) = program_shared P"
  "program_shared (P\<lparr>pg_sessions := S\<rparr>) = program_shared P"
  "program_shared (P\<lparr>pg_listeners := L\<rparr>) = program_shared P"
  "program_shared (P\<lparr>pg_cancelled := b\<rparr>) = program_shared P" "program_shared (P\<lparr>pg_main := x\<rparr>) = program_shared P"
  by (simp_all add: program_shared_def put_shared_def)

text \<open>What happens outside of the sessions.\<close>

lemma stage_ok_frames:
  assumes "(frame UNIV)\<^sup>*\<^sup>* m m'" and "stage_ok m st"
  shows "stage_ok m' st"
  using assms by (rule frames_induct) (auto intro: stage_ok_frame)

lemma sessions_ok_outside:
  assumes "sessions_ok sh S" and "same_registry (sh_cm sh) (sh_cm sh')" and "pool_inv (sh_pool sh')"
  shows "sessions_ok sh' S"
proof -
  have e: "m_entries (sh_cm sh') = m_entries (sh_cm sh)" using assms(2) by (simp add: same_registry_def)
  have st: "stage_ok (sh_cm sh') (S ! k)" if "k < length S" for k
    using stage_ok_frames sessions_okD(3) [OF assms(1) that] assms(2) by (auto simp: same_registry_def)
  have cm: "cm_ok (sh_cm sh')" using same_registry_keeps(1) [OF assms(2)] sessions_okD(2) [OF assms(1)] by blast
  show ?thesis
    using assms(1) st cm assms(3) unfolding sessions_ok_def e by blast
qed

lemma sessions_ok_accept:
  assumes "sessions_ok sh S"
  shows "sessions_ok sh (S @ [Accepted f c])"
proof -
  let ?S = "S @ [Accepted f c]"
  have nth: "?S ! k = (if k < length S then S ! k else Accepted f c)" if "k < length ?S" for k
    using that by (auto simp: nth_append)
  have held: "held (?S ! k) = Some r \<Longrightarrow> k < length ?S \<Longrightarrow> k < length S \<and> held (S ! k) = Some r" for k r
    using nth [of k] by (simp split: if_splits)
  have held': "k < length S \<Longrightarrow> held (S ! k) = Some r \<Longrightarrow> k < length ?S \<and> held (?S ! k) = Some r" for k r
    by (simp add: nth_append)
  note D = sessions_okD [OF assms]
  have stages: "stage_ok (sh_cm sh) (?S ! k)" if "k < length ?S" for k
    using D(3) [of k] nth [OF that] by (auto split: if_splits)
  have reg: "r \<in> ran (m_entries (sh_cm sh)) \<longleftrightarrow> (\<exists>k < length ?S. held (?S ! k) = Some r)" for r
    using D(4,5) held held' by metis
  have inj: "k = l" if "k < length ?S" "l < length ?S" "held (?S ! k) = Some r" "held (?S ! l) = Some r" for k l r
    using D(6) [of k l r] held [OF that(3,1)] held [OF that(4,2)] by blast
  show ?thesis unfolding sessions_ok_def
    by (intro conjI allI impI D(1,2) stages reg inj)
qed

lemma sessions_ok_start:
  assumes "pool_inv (sh_pool sh)" and "sh_cm sh = NewManager"
  shows "sessions_ok sh []"
  using assms cm_ok_NewManager by (simp add: sessions_ok_def) (simp add: NewManager_def)

lemma probe_pool_step: "pool_step p (probe dial u p)"
  by (simp add: probe_def step_health)

section \<open>The steps keep it, and System follows them\<close>

lemma session_in_program:
  assumes "core_ok P" and "k < length (pg_sessions P)"
    and "session_step SW (pg_sessions P ! k, program_shared P) (st, sh)"
  shows "step_ok (pg_sessions P ! k) (program_shared P) st sh"
proof (rule session_step_ok [OF assms(3)])
  note ok = core_okD(2) [OF assms(1)]
  show "pool_ok (sh_pool (program_shared P))" using sessions_okD(1) [OF ok] by (simp add: pool_inv_def)
  show "cm_ok (sh_cm (program_shared P))" by (rule sessions_okD(2) [OF ok])
  show "stage_ok (sh_cm (program_shared P)) (pg_sessions P ! k)" by (rule sessions_okD(3) [OF ok assms(2)])
  show "r \<in> ran (m_entries (sh_cm (program_shared P)))" if "held (pg_sessions P ! k) = Some r" for r
    by (rule sessions_okD(4) [OF ok assms(2) that])
qed

text \<open>Writing the shared parts back, as steps of the system.\<close>

lemma put_shared_steps:
  assumes "api_ok a" and "p = as_pool a \<or> pool_step (as_pool a) p" and "m = as_cm a \<or> cm_step (as_cm a) m"
  shows "(system_step W)\<^sup>*\<^sup>* a (put_cm m (put_pool p a)) \<and> api_ok (put_cm m (put_pool p a))"
proof -
  let ?b = "put_pool p a"
  have b: "(system_step W)\<^sup>*\<^sup>* a ?b" "api_ok ?b"
    using assms(2) put_same(2) [OF assms(1)] sys_pool [of a p W] assms(1)
      api_ok_put_pool [OF assms(1)] pool_inv_step api_okD(2) [OF assms(1)] by auto
  have "(system_step W)\<^sup>*\<^sup>* ?b (put_cm m ?b)"
    using assms(3) put_same(1) [OF b(2)] sys_registry [of ?b m W] by auto
  moreover have "cm_ok m" using assms(3) cm_ok_step api_okD(1) [OF assms(1)] by auto
  ultimately show ?thesis using b api_ok_put_cm [OF b(2)] by (meson rtranclp_trans)
qed

text \<open>A step of the API that leaves the map of the registry alone.\<close>

lemma core_ok_api:
  assumes "core_ok P" and "api_ok a" and "same_registry (as_cm (pg_api P)) (as_cm a)"
  shows "core_ok (P\<lparr>pg_api := a, pg_calls := cs, pg_main := x\<rparr>)"
proof -
  let ?sh = "\<lparr>sh_pool = as_pool a, sh_cm = as_cm a, sh_net = pg_net P\<rparr>"
  have "sessions_ok ?sh (pg_sessions P)"
    by (rule sessions_ok_outside [OF core_okD(2) [OF assms(1)]]) (simp_all add: assms(3) api_okD(2) [OF assms(2)])
  then show ?thesis using assms(1,2) by (simp add: core_ok_def program_shared_def)
qed

lemma core_ok_same:
  assumes "core_ok P" and "api_ok a" and "same_registry (as_cm (pg_api P)) (as_cm a)"
  shows "core_ok (P\<lparr>pg_api := a\<rparr>)" "core_ok (P\<lparr>pg_api := a, pg_calls := cs\<rparr>)" "core_ok (P\<lparr>pg_api := a, pg_main := x\<rparr>)"
  using core_ok_api [OF assms, where cs = "pg_calls P" and x = "pg_main P"]
    core_ok_api [OF assms, where cs = cs and x = "pg_main P"] core_ok_api [OF assms, where cs = "pg_calls P" and x = x]
  by (simp_all add: core_ok_def program_shared_def)

text \<open>Closing one of the connections \<open>main\<close> has collected.\<close>

lemma close_collected:
  assumes "chans (set (r # rs)) (as_cm a)" and "api_ok a"
  shows "Entry_Close r (as_cm a) = Inr (mark_closed r (as_cm a)) \<and> cm_step (as_cm a) (mark_closed r (as_cm a)) \<and>
    same_registry (as_cm a) (mark_closed r (as_cm a)) \<and> chans (set rs) (mark_closed r (as_cm a))"
proof -
  let ?m = "mark_closed r (as_cm a)"
  have n: "e_cancel (m_obj (as_cm a) r) \<noteq> NilChan" using assms(1) by (simp add: chans_def)
  note ok = api_okD(1) [OF assms(2)]
  have c: "Entry_Close r (as_cm a) = Inr ?m" by (rule Entry_Close_eq [OF cm_okD(1) [OF ok] n])
  moreover have "same_registry (as_cm a) ?m"
    using same_registry_step [OF frame_mark_closed [OF n ok] _ same_registry_refl] by simp
  ultimately show ?thesis using step_close [OF n c] assms(1) by (simp add: chans_def)
qed

lemma core_step:
  assumes ok: "program_ok W P" and step: "program_step W SW pr P P'"
  shows "core_ok P' \<and> (system_step W)\<^sup>*\<^sup>* (pg_api P) (pg_api P')"
proof -
  have core: "core_ok P" using ok by (simp add: program_ok_def)
  note api = core_okD(1) [OF core]
  show ?thesis
    using step
  proof cases
    case (pg_goroutine a)
    have "api_ok a" "same_registry (as_cm (pg_api P)) (as_cm a)"
      using goroutine_ok [OF api pg_goroutine(3)] by simp_all
    from core_ok_same(1) [OF core this] sys_api [OF api_goroutine [OF pg_goroutine(3)]] show ?thesis
      by (simp add: pg_goroutine(1) r_into_rtranclp)
  next
    case (pg_call k u c)
    have "call_ok W (pg_api P) (Atomic u c)"
      using program_okD(3) [OF ok] nth_mem [OF pg_call(3)] pg_call(4) by (auto simp: calls_ok_def)
    note c = call_ok_step [OF this api]
    from core_ok_same(2) [OF core, of "u (pg_api P)"] c show ?thesis by (simp add: pg_call(1))
  next
    case (pg_health dial u)
    let ?p = "probe dial u (as_pool (pg_api P))"
    have st: "system_step W (pg_api P) (put_pool ?p (pg_api P))" by (rule sys_pool [OF probe_pool_step])
    from core_ok_same(1) [OF core api_ok_step [OF api st]] st show ?thesis
      by (simp add: pg_health(1) r_into_rtranclp)
  next
    case (pg_session k st sh)
    note so = session_in_program [OF core pg_session(3,4)]
    have "sessions_ok sh ((pg_sessions P)[k := st])"
      by (rule sessions_ok_move [OF core_okD(2) [OF core] pg_session(3) so])
    moreover have "(system_step W)\<^sup>*\<^sup>* (pg_api P) (put_cm (sh_cm sh) (put_pool (sh_pool sh) (pg_api P))) \<and>
        api_ok (put_cm (sh_cm sh) (put_pool (sh_pool sh) (pg_api P)))"
      by (rule put_shared_steps [OF api]) (use so in \<open>auto simp: step_ok_def frame_def\<close>)
    ultimately show ?thesis
      using core unfolding pg_session(1) by (simp add: core_ok_def) (simp add: put_shared_def)
  next
    case (pg_listen f l ev co l')
    have "listener_inv (pg_cancelled P) l'"
      by (rule listener_inv_step [OF core_okD(3) [OF core pg_listen(3)] pg_listen(4)])
    moreover have "sessions_ok (program_shared P) (pg_sessions P @ (case co of None \<Rightarrow> [] | Some c \<Rightarrow> [Accepted f c]))"
      using sessions_ok_accept core_okD(2) [OF core] by (cases co) auto
    ultimately show ?thesis using core by (simp add: core_ok_def pg_listen(1))
  next
    case pg_signal
    then show ?thesis using core listener_inv_cancel by (simp add: core_ok_def) blast
  next
    case (pg_close r rs m)
    have "chans (set (r # rs)) (as_cm (pg_api P))"
      using program_okD(3) [OF ok] pg_close(2) by (simp add: calls_ok_def)
    note c = close_collected [OF this api]
    then have m: "m = mark_closed r (as_cm (pg_api P))" using pg_close(3) by simp
    have st: "system_step W (pg_api P) (put_cm m (pg_api P))" using c sys_registry unfolding m by blast
    from core_ok_same(3) [OF core api_ok_step [OF api st]] c st show ?thesis
      by (simp add: pg_close(1) m r_into_rtranclp)
  qed (use core in \<open>simp_all add: core_ok_def\<close>)
qed

lemma calls_step:
  assumes ok: "program_ok W P" and step: "program_step W SW pr P P'"
  shows "calls_ok W P'"
proof -
  note api = program_okD(1) [OF ok] and calls = program_okD(3) [OF ok]
  from core_step [OF ok step] have st: "(system_step W)\<^sup>*\<^sup>* (pg_api P) (pg_api P')" by simp
  have old: "call_ok W (pg_api P') c" if "c \<in> set (pg_calls P)" for c
    using call_ok_system [OF st api] calls that by (simp add: calls_ok_def)
  have main: "closing_ok (as_cm (pg_api P')) (pg_main P)"
    using calls chans_system [OF st api] by (cases "pg_main P") (simp_all add: calls_ok_def)
  show ?thesis
    using step
  proof cases
    case (pg_request addr ord E r)
    with old main call_ok_new [OF pg_request(5), of W "pg_api P" ord r] show ?thesis by (auto simp: calls_ok_def)
  next
    case (pg_call k u c)
    have "call_ok W (pg_api P) (Atomic u c)"
      using calls nth_mem [OF pg_call(3)] pg_call(4) by (auto simp: calls_ok_def)
    with call_ok_step [OF this api] old main show ?thesis
      by (auto simp: calls_ok_def pg_call(1) dest: set_update_subset_insert [THEN subsetD])
  next
    case (pg_collect ord)
    with old chans_collect [OF api_okD(1) [OF api]] show ?thesis by (simp add: calls_ok_def)
  next
    case (pg_close r rs m)
    have c: "chans (set (r # rs)) (as_cm (pg_api P))" using calls pg_close(2) by (simp add: calls_ok_def)
    have "chans (set (r # rs)) (as_cm (pg_api P'))" by (rule chans_system [OF st api c])
    with old show ?thesis by (simp add: calls_ok_def pg_close(1) chans_def)
  qed (use old main in \<open>simp_all add: calls_ok_def put_shared_def\<close>)
qed

lemma program_step_ok:
  assumes "program_ok W P" and "program_step W SW pr P P'"
  shows "program_ok W P' \<and> (system_step W)\<^sup>*\<^sup>* (pg_api P) (pg_api P')"
  using core_step [OF assms] calls_step [OF assms] by (simp add: program_ok_def)

text \<open>A start state: what \<open>main_start\<close> built, no session, no listener bound.\<close>

definition good_process :: "process \<Rightarrow> bool" where
  "good_process pr \<longleftrightarrow> as_cm (start_state pr ()) = NewManager \<and> system_start (start_state pr ())"

lemma good_process_start:
  assumes "good_process pr"
  shows "system_start (start_state pr files)" "as_cm (start_state pr files) = NewManager"
  using assms cm_ok_NewManager by (simp_all add: good_process_def system_start_def start_state_def)

definition good_start :: "process \<Rightarrow> 'f program \<Rightarrow> bool" where
  "good_start pr P \<longleftrightarrow> good_process pr \<and> program_start pr P"

lemma program_ok_start:
  assumes "good_start pr P"
  shows "program_ok W P"
proof -
  from assms obtain files where a: "pg_api P = start_state pr files" and P: "program_start pr P"
    by (auto simp: good_start_def program_start_def)
  have s: "system_start (start_state pr files)" "as_cm (start_state pr files) = NewManager"
    using good_process_start [of pr files] assms by (simp_all add: good_start_def)
  have ok: "api_ok (pg_api P)" using sy.inv_start [OF s(1)] by (simp add: a)
  have "sessions_ok (program_shared P) []"
    using s by (intro sessions_ok_start) (simp_all add: a system_start_def)
  then show ?thesis
    using ok P listener_inv_new
    by (auto simp: program_ok_def core_ok_def calls_ok_def program_start_def started_listeners_def split: if_splits)
qed

interpretation pg: simulation "good_start pr" "program_step W SW pr" "program_ok W"
    "\<lambda>a. \<exists>files. a = start_state pr files" "system_step W" pg_api for pr W SW
proof unfold_locales
  show "program_ok W P" if "good_start pr P" for P :: "'a program" using that by (rule program_ok_start)
  show "program_ok W P'" if "program_ok W P" "program_step W SW pr P P'" for P P' :: "'a program"
    using program_step_ok [OF that] by simp
  show "\<exists>files. pg_api P = start_state pr files" if "good_start pr P" for P :: "'a program"
    using that by (auto simp: good_start_def program_start_def)
  show "(system_step W)\<^sup>*\<^sup>* (pg_api P) (pg_api P')" if "program_ok W P" "program_step W SW pr P P'" for P P' :: "'a program"
    using program_step_ok [OF that] by simp
qed

end
