(* ===== verification/ProgramProps.thy ===== *)
theory ProgramProps
  imports Program
begin

text \<open>
  What holds of the running process as a whole: it refines \<open>System\<close>, its registry is the list
  of its live sessions, the API shows exactly these, no session gets stuck, and the shutdown
  closes them.
\<close>

section \<open>Every reachable state\<close>

lemma started_good:
  assumes "main_start (Load readFile unmarshal) join dir openLog now defaultPath cfgFlag showVer = Inr pr"
  shows "good_process pr"
proof -
  have "as_cm (start_state pr ()) = NewManager"
    using started_process [OF assms] by (simp add: start_state_def)
  with started_system [OF assms] show ?thesis by (simp add: good_process_def)
qed

lemma runs_good:
  assumes "good_process pr" and "program_runs W SW pr P"
  shows "reach (good_start pr) (program_step W SW pr) P"
  using assms(2)
proof (induction rule: reach.induct)
  case (reach_start P)
  with assms(1) show ?case by (intro reach.reach_start) (simp add: good_start_def)
next
  case (reach_step P Q)
  from reach.reach_step [OF reach_step.IH reach_step.hyps(2)] show ?case .
qed

lemma runs_ok:
  assumes "main_start (Load readFile unmarshal) join dir openLog now defaultPath cfgFlag showVer = Inr pr"
    and "program_runs W SW pr P"
  shows "program_ok W P"
  using pg.reach_inv [OF runs_good [OF started_good [OF assms(1)] assms(2)]] .

text \<open>
  C2. The process refines its abstraction: whatever listeners, sessions, health checks, requests,
  the signal and the shutdown do, what the API sees of it is a state of \<open>System\<close>, where anybody
  may use the registry and the pool through their interfaces; and every step of the process is
  a sequence of such uses.
\<close>

theorem program_refines_system:
  assumes "main_start (Load readFile unmarshal) join dir openLog now defaultPath cfgFlag showVer = Inr pr"
    and "program_runs W SW pr P"
  shows "running W pr (pg_api P) \<and>
    (\<forall>P'. program_step W SW pr P P' \<longrightarrow> (system_step W)\<^sup>*\<^sup>* (pg_api P) (pg_api P'))"
  using pg.reach_abs [OF runs_good [OF started_good [OF assms(1)] assms(2)]]
    program_step_ok [OF runs_ok [OF assms]] by blast

text \<open>
  C1. The registry is the list of the live sessions. In every reachable state a connection is
  registered under an identifier exactly if one session, and only one, holds the entry of that
  identifier; no goroutine of a session has panicked; and a session that is over has closed
  all its connections and holds no entry.
\<close>

theorem registry_is_live_sessions:
  assumes "main_start (Load readFile unmarshal) join dir openLog now defaultPath cfgFlag showVer = Inr pr"
    and "program_runs W SW pr P"
  shows "(\<forall>i r. Manager_Get i (as_cm (pg_api P)) = Some r \<longleftrightarrow>
      (\<exists>!k. k < length (pg_sessions P) \<and> held (pg_sessions P ! k) = Some r) \<and>
      e_ID (m_obj (as_cm (pg_api P)) r) = i) \<and>
    (\<forall>st \<in> set (pg_sessions P). (\<forall>x. st \<noteq> Crashed x) \<and>
      (\<forall>q. st = Over q \<longrightarrow> all_closed q \<and> held st = None))"
proof -
  note ok = program_okD(2) [OF runs_ok [OF assms]]
  note D = sessions_okD [OF ok, unfolded shared_simps]
  have reg: "Manager_Get i (as_cm (pg_api P)) = Some r \<longleftrightarrow>
      (\<exists>!k. k < length (pg_sessions P) \<and> held (pg_sessions P ! k) = Some r) \<and>
      e_ID (m_obj (as_cm (pg_api P)) r) = i" for i r
  proof
    assume "Manager_Get i (as_cm (pg_api P)) = Some r"
    then have g: "m_entries (as_cm (pg_api P)) i = Some r" by (simp add: Manager_Get_def)
    then have "r \<in> ran (m_entries (as_cm (pg_api P)))" by (auto simp: ran_def)
    with D(5,6) cm_okD(3) [OF D(2) g]
    show "(\<exists>!k. k < length (pg_sessions P) \<and> held (pg_sessions P ! k) = Some r) \<and>
      e_ID (m_obj (as_cm (pg_api P)) r) = i" by metis
  next
    assume h: "(\<exists>!k. k < length (pg_sessions P) \<and> held (pg_sessions P ! k) = Some r) \<and>
      e_ID (m_obj (as_cm (pg_api P)) r) = i"
    then obtain k where "k < length (pg_sessions P)" "held (pg_sessions P ! k) = Some r" by blast
    from D(4) [OF this] obtain j where j: "m_entries (as_cm (pg_api P)) j = Some r" by (auto simp: ran_def)
    with cm_okD(3) [OF D(2) j] h show "Manager_Get i (as_cm (pg_api P)) = Some r" by (simp add: Manager_Get_def)
  qed
  have ends: "(\<forall>x. st \<noteq> Crashed x) \<and> (\<forall>q. st = Over q \<longrightarrow> all_closed q \<and> held st = None)"
    if "st \<in> set (pg_sessions P)" for st
  proof -
    from that obtain k where "k < length (pg_sessions P)" "pg_sessions P ! k = st" by (auto simp: in_set_conv_nth)
    with D(3) [of k] show ?thesis by (cases st) simp_all
  qed
  show ?thesis by (rule conjI, intro allI reg, intro ballI ends)
qed

section \<open>Progress\<close>

text \<open>More identifiers than sessions.\<close>

lemma card_bytes: "card {b :: byte list. length b = 8} = 2 ^ 64"
proof -
  have "card {b :: byte list. set b \<subseteq> UNIV \<and> length b = 8} = card (UNIV :: byte set) ^ 8"
    by (rule card_lists_length_eq) simp
  then show ?thesis by (simp add: card_word)
qed

lemma registry_size:
  assumes ok: "sessions_ok sh S"
  shows "finite (dom (m_entries (sh_cm sh))) \<and> card (dom (m_entries (sh_cm sh))) \<le> length S"
proof -
  let ?m = "m_entries (sh_cm sh)" and ?h = "\<lambda>k. the (held (S ! k))" and ?e = "\<lambda>r. e_ID (m_obj (sh_cm sh) r)"
  have "ran ?m \<subseteq> ?h ` {..<length S}" using sessions_okD(5) [OF ok] by force
  then have ran: "finite (ran ?m)" "card (ran ?m) \<le> length S"
    using finite_subset [of "ran ?m"] card_mono [of "?h ` {..<length S}" "ran ?m"] card_image_le [of "{..<length S}" ?h]
    by auto
  have "dom ?m \<subseteq> ?e ` ran ?m" using cm_okD(3) [OF sessions_okD(2) [OF ok]] by (force simp: ran_def)
  then show ?thesis
    using ran finite_subset [of "dom ?m"] card_mono [of "?e ` ran ?m" "dom ?m"] card_image_le [of "ran ?m" ?e]
    by fastforce
qed

lemma runs_finite:
  assumes "main_start (Load readFile unmarshal) join dir openLog now defaultPath cfgFlag showVer = Inr pr"
    and "program_runs W SW pr P"
  shows "finite (dom (m_entries (as_cm (pg_api P))))"
  using conjunct1 [OF registry_size [OF program_okD(2) [OF runs_ok [OF assms]]]] unfolding shared_simps .

lemma fresh_ident:
  assumes ok: "sessions_ok sh S" and few: "length S < 2 ^ 64"
  shows "\<exists>b. length b = 8 \<and> Manager_Get (newID b) (sh_cm sh) = None"
proof (rule ccontr)
  let ?ids = "newID ` {b. length b = 8}"
  assume "\<not> ?thesis"
  then have sub: "?ids \<subseteq> dom (m_entries (sh_cm sh))" by (auto simp: Manager_Get_def)
  have "card ?ids \<le> length S"
    using card_mono [OF conjunct1 [OF registry_size [OF ok]] sub] registry_size [OF ok] by linarith
  moreover have "inj_on newID {b. length b = 8}" by (auto simp: inj_on_def newID_inject)
  from card_image [OF this] card_bytes have "card ?ids = 2 ^ 64" by simp
  ultimately show False using few by simp
qed

definition finished :: "stage \<Rightarrow> bool" where
  "finished st \<longleftrightarrow> (\<exists>cs. st = Over (Conns cs)) \<or>
     (\<exists>p. st = Over (Rest p) \<and> pi_up p = Stopped \<and> pi_down p = Stopped)"

lemma copier_live: "pi_up s \<noteq> Stopped \<or> pi_down s \<noteq> Stopped \<Longrightarrow> \<exists>t. pipe_step s t"
  by (cases "pi_up s"; cases "pi_down s") (auto intro: pipe_step.intros)

lemma live_tunnel_inv: "live_tunnel m p \<Longrightarrow> \<exists>c0 u0. pipe_inv c0 u0 (p\<lparr>pi_cm := m\<rparr>)"
  using pipe_sys.reach_inv unfolding live_tunnel_def by blast

lemma tunnel_live:
  assumes "live_tunnel m p" and "pi_main p \<noteq> Pipe.Returned"
  shows "\<exists>t. pipe_step (p\<lparr>pi_cm := m\<rparr>) t"
proof (cases "pi_up p = Stopped \<and> pi_down p = Stopped")
  case True
  let ?s = "p\<lparr>pi_cm := m\<rparr>"
  from assms(1) have "signals_ok ?s"
    using live_tunnel_inv by (auto simp: pipe_inv_def)
  with True assms(2) have "0 < pi_signals ?s"
    by (cases "pi_main p") (simp_all add: signals_ok_def stopped_count_def)
  with assms(2) show ?thesis using main_signal [of ?s] main_other [of ?s] by (cases "pi_main p") auto
qed (use copier_live [of "p\<lparr>pi_cm := m\<rparr>"] in auto)

lemma session_live:
  assumes ok: "sessions_ok sh S" and k: "k < length S" and nf: "\<not> finished (S ! k)"
    and few: "length S < 2 ^ 64" and small: "small_pool (sh_pool sh)"
  shows "\<exists>s. session_step SW (S ! k, sh) s"
proof (cases "S ! k")
  case (Parsed j)
  from fresh_ident [OF ok few] obtain b where "length b = 8" "Manager_Get (newID b) (sh_cm sh) = None" by blast
  then show ?thesis unfolding Parsed by (blast intro: ss_register)
next
  case (Picking j r n att err)
  show ?thesis unfolding Picking by (rule exI) (rule ss_choose [OF rand_ok_zero small])
next
  case (Tunnelling p)
  with sessions_okD(3) [OF ok k] have live: "live_tunnel (sh_cm sh) p" by simp
  show ?thesis
  proof (cases "pi_main p = Pipe.Returned")
    case False
    from tunnel_live [OF live False] obtain t where "pipe_step (p\<lparr>pi_cm := sh_cm sh\<rparr>) t" by blast
    from ss_pipe [of "S ! k" p, OF _ this] Tunnelling show ?thesis by auto
  next
    case True
    show ?thesis unfolding Tunnelling by (rule exI) (rule ss_return [OF True])
  qed
next
  case (Over q)
  with nf obtain p where q: "q = Rest p" by (cases q) (auto simp: finished_def)
  with nf Over have "pi_up p \<noteq> Stopped \<or> pi_down p \<noteq> Stopped" by (auto simp: finished_def)
  then obtain t where "pipe_step (p\<lparr>pi_cm := sh_cm sh\<rparr>) t" using copier_live [of "p\<lparr>pi_cm := sh_cm sh\<rparr>"] by auto
  from ss_pipe [of "S ! k" p, OF _ this] Over q show ?thesis by auto
next
  case (Crashed x)
  with sessions_okD(3) [OF ok k] show ?thesis by simp
qed (auto simp del: split_paired_Ex intro: session_step.intros)


section \<open>Requests\<close>

text \<open>A request that is left alone gets to its answer as a run of the process.\<close>

lemma call_runs:
  assumes "\<not> ended (pg_main P)" and "k < length (pg_calls P)" and "pg_calls P ! k = c"
    and "alone c (pg_api P) = Inr (resp, a')"
  shows "(program_step W SW pr)\<^sup>*\<^sup>* P (P\<lparr>pg_api := a', pg_calls := (pg_calls P)[k := Reply resp]\<rparr>)"
  using assms
proof (induction c arbitrary: P)
  case (Reply r)
  then have "a' = pg_api P" "(pg_calls P)[k := Reply resp] = pg_calls P" by (auto simp: list_update_same_conv)
  then show ?case by simp
next
  case (Atomic u g)
  let ?Q = "P\<lparr>pg_api := u (pg_api P), pg_calls := (pg_calls P)[k := g (pg_api P)]\<rparr>"
  have "program_step W SW pr P ?Q" by (rule pg_call [OF Atomic.prems(1-3)])
  moreover have "(program_step W SW pr)\<^sup>*\<^sup>* ?Q (?Q\<lparr>pg_api := a', pg_calls := (pg_calls ?Q)[k := Reply resp]\<rparr>)"
    using Atomic.prems by (intro Atomic.IH [of "g (pg_api P)" ?Q]) simp_all
  ultimately show ?case by (simp add: converse_rtranclp_into_rtranclp)
qed simp

text \<open>No schedule keeps a request busy forever: it takes only finitely many steps of its own.\<close>

definition call_next :: "'s call \<Rightarrow> 's call \<Rightarrow> bool" where
  "call_next d c \<longleftrightarrow> (\<exists>u g a. c = Atomic u g \<and> d = g a)"

lemma wf_call_next: "wfp call_next"
proof (rule wfpUNIVI)
  fix Q :: "'s call \<Rightarrow> bool" and c
  assume hyp: "\<forall>c. (\<forall>d. call_next d c \<longrightarrow> Q d) \<longrightarrow> Q c"
  show "Q c"
  proof (induction c)
    case (Atomic u g)
    then have "\<forall>d. call_next d (Atomic u g) \<longrightarrow> Q d" by (auto simp: call_next_def)
    with hyp show ?case by blast
  qed (use hyp in \<open>auto simp: call_next_def\<close>)
qed

lemma step_call:
  assumes "program_step W SW pr P P'" and "k < length (pg_calls P)"
  shows "k < length (pg_calls P') \<and> (pg_calls P' ! k = pg_calls P ! k \<or> call_next (pg_calls P' ! k) (pg_calls P ! k))"
  using assms(1)
proof cases
  case (pg_call j u c)
  with assms(2) show ?thesis by (cases "j = k") (auto simp: call_next_def)
qed (use assms(2) in \<open>simp_all add: put_shared_def nth_append\<close>)

lemma request_not_forever:
  assumes "\<forall>n. program_step W SW pr (F n) (F (Suc n))" and "k < length (pg_calls (F m))"
  shows "\<exists>N \<ge> m. \<forall>n \<ge> N. pg_calls (F n) ! k = pg_calls (F N) ! k"
proof -
  have len: "k < length (pg_calls (F n))" if "m \<le> n" for n
    using that by (induction n rule: dec_induct) (use assms step_call in blast)+
  have "m \<le> M \<Longrightarrow> pg_calls (F M) ! k = c \<Longrightarrow> \<exists>N \<ge> M. \<forall>n \<ge> N. pg_calls (F n) ! k = pg_calls (F N) ! k" for c M
  proof (induction c arbitrary: M rule: wfp_induct_rule [OF wf_call_next])
    case (1 c)
    show ?case
    proof (cases "\<forall>n \<ge> M. pg_calls (F n) ! k = c")
      case True
      with 1 show ?thesis by auto
    next
      case False
      define n where "n = (LEAST n. M \<le> n \<and> pg_calls (F n) ! k \<noteq> c)"
      from False have n: "M \<le> n" "pg_calls (F n) ! k \<noteq> c"
        unfolding n_def by (metis (mono_tags, lifting) LeastI)+
      with 1(3) have "M < n" by (cases "M = n") auto
      then obtain q where q: "n = Suc q" "M \<le> q" by (cases n) auto
      have "pg_calls (F q) ! k = c"
        using not_less_Least [of q "\<lambda>n. M \<le> n \<and> pg_calls (F n) ! k \<noteq> c"] q by (auto simp: n_def)
      with step_call [OF spec [OF assms(1), of q] len [of q]] n(2) q 1(2)
      have "call_next (pg_calls (F n) ! k) c" by auto
      from 1(1) [OF this _ refl] n(1) 1(2) show ?thesis by (meson le_trans)
    qed
  qed
  from this [OF order_refl refl] show ?thesis .
qed

section \<open>What the API shows\<close>

text \<open>The views of a snapshot, from the sessions.\<close>

lemma snapshot_of_sessions:
  assumes "sessions_ok (program_shared P) (pg_sessions P)" and "set order = dom (m_entries (as_cm (pg_api P)))"
  shows "v \<in> set (Manager_Snapshot order (as_cm (pg_api P))) \<longleftrightarrow>
    (\<exists>st \<in> set (pg_sessions P). \<exists>r. held st = Some r \<and> v = view_entry (m_obj (as_cm (pg_api P)) r))"
proof -
  let ?m = "as_cm (pg_api P)"
  note D = sessions_okD [OF assms(1), unfolded shared_simps]
  have "set (collect order ?m) = ran (m_entries ?m)"
    using assms(2) by (fastforce simp: collect_mem ran_def)
  then have "v \<in> set (Manager_Snapshot order ?m) \<longleftrightarrow> (\<exists>r \<in> ran (m_entries ?m). v = view_entry (m_obj ?m r))"
    by (auto simp: Manager_Snapshot_def)
  moreover have "r \<in> ran (m_entries ?m) \<longleftrightarrow> (\<exists>st \<in> set (pg_sessions P). held st = Some r)" for r
    using D(4,5) by (metis in_set_conv_nth)
  ultimately show ?thesis by blast
qed

text \<open>The counters of a tunnel, in the entry it holds.\<close>

lemma tunnel_counters:
  assumes "sessions_ok (program_shared P) (pg_sessions P)" and "Tunnelling p \<in> set (pg_sessions P)"
  shows "\<exists>client0 upstream0 sent kept rcvd kept'.
    w_Upload (view_entry (m_obj (as_cm (pg_api P)) (pi_entry p))) = sint (of_nat (length (sent @ kept)) :: i64) \<and>
    w_Download (view_entry (m_obj (as_cm (pg_api P)) (pi_entry p))) = sint (of_nat (length (rcvd @ kept')) :: i64) \<and>
    pending client0 = sent @ kept @ pending (pi_client p) \<and> c_out (pi_upstream p) = c_out upstream0 @ sent \<and>
    pending upstream0 = rcvd @ kept' @ pending (pi_upstream p) \<and> c_out (pi_client p) = c_out client0 @ rcvd"
proof -
  let ?m = "as_cm (pg_api P)"
  have "live_tunnel ?m p"
    using sessions_okD(3) [OF assms(1)] assms(2) by (fastforce simp: in_set_conv_nth)
  from live_tunnel_inv [OF this] obtain c0 u0 where "flows_ok c0 u0 (p\<lparr>pi_cm := ?m\<rparr>)"
    by (auto simp: pipe_inv_def)
  then obtain sent kept rcvd kept' where f:
    "pending c0 = sent @ kept @ pending (pi_client p)" "c_out (pi_upstream p) = c_out u0 @ sent"
    "e_Upload (m_obj ?m (pi_entry p)) = of_nat (length (sent @ kept))"
    "pending u0 = rcvd @ kept' @ pending (pi_upstream p)" "c_out (pi_client p) = c_out c0 @ rcvd"
    "e_Download (m_obj ?m (pi_entry p)) = of_nat (length (rcvd @ kept'))"
    by (auto simp: flows_ok_def flow_def)
  have "w_Upload (view_entry (m_obj ?m (pi_entry p))) = sint (of_nat (length (sent @ kept)) :: i64)"
    "w_Download (view_entry (m_obj ?m (pi_entry p))) = sint (of_nat (length (rcvd @ kept')) :: i64)"
    by (simp_all only: view_entry_def view.simps f(3,6))
  then show ?thesis using f(1,2,4,5) by blast
qed


section \<open>Shutdown\<close>

lemma exited_final: "pg_main P = Exited \<Longrightarrow> \<not> program_step W SW pr P P'"
  by (auto elim: program_step.cases)

text \<open>What a step, of whomever, does to the loop of \<open>CloseAll\<close>.\<close>

lemma main_moves:
  assumes "program_ok W P" and "program_step W SW pr P P'"
  shows "pg_main P = Closing rs \<Longrightarrow> pg_main P' = Closing rs \<or> (rs = [] \<and> pg_main P' = ClosedAll) \<or>
      (\<exists>q qs. rs = q # qs \<and> pg_main P' = Closing qs \<and> Closed q (as_cm (pg_api P'))) \<or> (\<exists>x. pg_main P' = Panicked x)"
    and "pg_main P = ClosedAll \<Longrightarrow> pg_main P' \<in> {ClosedAll, Exited} \<or> (\<exists>x. pg_main P' = Panicked x)"
    and "ended (pg_main P) \<Longrightarrow> False"
proof -
  have closes: "Closed r m"
    if "pg_main P = Closing (r # rs)" "Entry_Close r (as_cm (pg_api P)) = Inr m" for r rs m
  proof -
    have "chans (set (r # rs)) (as_cm (pg_api P))"
      using program_okD(3) [OF assms(1)] that(1) by (simp add: calls_ok_def)
    from close_collected [OF this program_okD(1) [OF assms(1)]] that(2) show ?thesis by (simp add: Closed_def)
  qed
  show "pg_main P = Closing rs \<Longrightarrow> pg_main P' = Closing rs \<or> (rs = [] \<and> pg_main P' = ClosedAll) \<or>
      (\<exists>q qs. rs = q # qs \<and> pg_main P' = Closing qs \<and> Closed q (as_cm (pg_api P'))) \<or> (\<exists>x. pg_main P' = Panicked x)"
    using assms(2) by cases (use closes in \<open>auto simp: put_shared_def\<close>)
  show "pg_main P = ClosedAll \<Longrightarrow> pg_main P' \<in> {ClosedAll, Exited} \<or> (\<exists>x. pg_main P' = Panicked x)"
    using assms(2) by cases (auto simp: put_shared_def)
  show "ended (pg_main P) \<Longrightarrow> False" using assms(2) by cases auto
qed

text \<open>The entry \<open>r\<close> is closed, or \<open>main\<close> still has it in its hands.\<close>

definition dealt_with :: "eref \<Rightarrow> 'f program \<Rightarrow> bool" where
  "dealt_with r P \<longleftrightarrow> r < m_next (as_cm (pg_api P)) \<and>
     ((\<exists>x. pg_main P = Panicked x) \<or> (\<exists>rs. pg_main P = Closing rs \<and> r \<in> set rs) \<or>
      (Closed r (as_cm (pg_api P)) \<and> (pg_main P \<in> {ClosedAll, Exited} \<or> (\<exists>rs. pg_main P = Closing rs))))"

lemma dealt_with_step:
  assumes ok: "program_ok W P" and step: "program_step W SW pr P P'" and d: "dealt_with r P"
  shows "dealt_with r P'"
proof -
  from program_step_ok [OF ok step] have st: "(system_step W)\<^sup>*\<^sup>* (pg_api P) (pg_api P')" by simp
  note api = program_okD(1) [OF ok] and moves = main_moves [OF ok step]
  have n: "r < m_next (as_cm (pg_api P))" using d by (simp add: dealt_with_def)
  have n': "r < m_next (as_cm (pg_api P'))" by (rule next_system [OF st api n])
  have c': "Closed r (as_cm (pg_api P'))" if "Closed r (as_cm (pg_api P))" by (rule Closed_system [OF st api that n])
  show ?thesis
  proof (cases "pg_main P")
    case (Closing rs)
    with d have "r \<in> set rs \<or> Closed r (as_cm (pg_api P))" by (auto simp: dealt_with_def)
    with moves(1) [OF Closing] c' n' show ?thesis by (auto simp: dealt_with_def)
  next
    case ClosedAll
    with d have "Closed r (as_cm (pg_api P))" by (auto simp: dealt_with_def)
    with moves(2) [OF ClosedAll] c' n' show ?thesis by (auto simp: dealt_with_def)
  qed (use d moves(3) in \<open>auto simp: dealt_with_def\<close>)
qed

lemma runs_on:
  assumes "main_start (Load readFile unmarshal) join dir openLog now defaultPath cfgFlag showVer = Inr pr"
    and "program_runs W SW pr P" and "(program_step W SW pr)\<^sup>*\<^sup>* P Q"
  shows "program_runs W SW pr Q" "dealt_with r P \<Longrightarrow> dealt_with r Q"
proof -
  have "program_runs W SW pr Q \<and> (dealt_with r P \<longrightarrow> dealt_with r Q)"
    using assms(3)
  proof (induction rule: rtranclp_induct)
    case (step Q Q')
    then show ?case
      using reach_step [of _ _ Q Q'] dealt_with_step [OF runs_ok [OF assms(1)] step.hyps(2)] by blast
  qed (use assms(2) in simp)
  then show "program_runs W SW pr Q" "dealt_with r P \<Longrightarrow> dealt_with r Q" by simp_all
qed

text \<open>A tunnel whose entry is closed can take the branch of \<open>Done\<close>.\<close>

lemma tunnel_can_close:
  assumes "Done (pi_entry p) (sh_cm sh) = ClosedChan" and "pi_main p = Selecting"
  shows "\<exists>p' sh'. session_step SW (Tunnelling p, sh) (Tunnelling p', sh') \<and> c_closed (pi_client p') \<and> c_closed (pi_upstream p')"
proof -
  let ?p = "p\<lparr>pi_cm := sh_cm sh\<rparr>"
  have "pipe_step ?p (take_done ?p)" using assms by (intro main_done) simp_all
  then have "session_step SW (Tunnelling p, sh)
      (put_tunnel (take_done ?p) (Tunnelling p), sh\<lparr>sh_cm := pi_cm (take_done ?p)\<rparr>)"
    by (intro ss_pipe [of _ p]) simp_all
  then have "session_step SW (Tunnelling p, sh) (Tunnelling (take_done ?p), sh\<lparr>sh_cm := pi_cm (take_done ?p)\<rparr>)" by simp
  moreover have "c_closed (pi_client (take_done ?p))" "c_closed (pi_upstream (take_done ?p))"
    by (simp_all add: take_done_def close_both_def)
  ultimately show ?thesis by blast
qed

lemma closed_done: "cm_ok m \<Longrightarrow> Closed r m \<Longrightarrow> Done r m = ClosedChan"
  using cm_okD(1) [of m r] by (simp add: Closed_def Done_def chan_ok_def)

lemma collect_live:
  assumes "main_start (Load readFile unmarshal) join dir openLog now defaultPath cfgFlag showVer = Inr pr"
    and "program_runs W SW pr P" and "map_order ord"
  shows "set (collect (ord (as_cm (pg_api P))) (as_cm (pg_api P))) =
    {r. \<exists>st \<in> set (pg_sessions P). held st = Some r}"
proof -
  let ?m = "as_cm (pg_api P)"
  note D = sessions_okD [OF program_okD(2) [OF runs_ok [OF assms(1,2)]], unfolded shared_simps]
  have "set (ord ?m) = dom (m_entries ?m)"
    using assms(3) runs_finite [OF assms(1,2)] by (simp add: map_order_def)
  then have "set (collect (ord ?m) ?m) = ran (m_entries ?m)" by (fastforce simp: collect_mem ran_def)
  moreover have "r \<in> ran (m_entries ?m) \<longleftrightarrow> (\<exists>st \<in> set (pg_sessions P). held st = Some r)" for r
    using D(4,5) by (metis in_set_conv_nth)
  ultimately show ?thesis by blast
qed

text \<open>
  C15. Once the signal has arrived, \<open>main\<close> can collect the entries of all live sessions. From there,
  whatever sessions, requests and loops do in between, it never panics and can always close the next
  one. When it is through, every session that was live at the start of it finds its
  entry closed, and its tunnel, if it is still in use, can close both of its connections at once,
  whatever its peers do. After \<open>main\<close> has returned, nothing moves any more.
\<close>

theorem shutdown_closes_live_sessions:
  assumes "main_start (Load readFile unmarshal) join dir openLog now defaultPath cfgFlag showVer = Inr pr"
    and "program_runs W SW pr (P :: 'f program)" and "pg_main P = Serving" and "pg_cancelled P" and "map_order ord"
  shows "\<exists>P1 rs. program_step W SW pr P P1 \<and> pg_main P1 = Closing rs \<and> pg_sessions P1 = pg_sessions P \<and>
    set rs = {r. \<exists>st \<in> set (pg_sessions P). held st = Some r} \<and>
    (\<forall>Q. (program_step W SW pr)\<^sup>*\<^sup>* P1 Q \<longrightarrow>
      (\<forall>q qs. pg_main Q = Closing (q # qs) \<longrightarrow>
        (\<exists>Q'. program_step W SW pr Q Q' \<and> pg_main Q' = Closing qs \<and> Closed q (as_cm (pg_api Q')))) \<and>
      (pg_main Q \<in> {ClosedAll, Exited} \<longrightarrow>
        (\<forall>r \<in> set rs. Closed r (as_cm (pg_api Q))) \<and>
        (\<forall>p. pi_entry p \<in> set rs \<longrightarrow> pi_main p = Selecting \<longrightarrow>
          (\<exists>p' sh. session_step SW (Tunnelling p, program_shared Q) (Tunnelling p', sh) \<and>
            c_closed (pi_client p') \<and> c_closed (pi_upstream p')))) \<and>
      (pg_main Q = Exited \<longrightarrow> (\<forall>R. \<not> program_step W SW pr Q R)))"
proof -
  let ?m = "as_cm (pg_api P)" and ?rs = "collect (ord (as_cm (pg_api P))) (as_cm (pg_api P))"
  let ?P1 = "P\<lparr>pg_main := Closing ?rs\<rparr>"
  note ok = runs_ok [OF assms(1,2)]
  have step: "program_step W SW pr P ?P1" by (rule pg_collect [OF assms(3-5)])
  have run: "program_runs W SW pr ?P1" by (rule reach_step [OF assms(2) step])
  have start: "dealt_with r ?P1" if "r \<in> set ?rs" for r
  proof -
    from that obtain i where "m_entries ?m i = Some r" by (auto simp: collect_mem)
    from cm_okD(2) [OF api_okD(1) [OF program_okD(1) [OF ok]] this] that show ?thesis by (simp add: dealt_with_def)
  qed
  have next_close: "\<exists>Q'. program_step W SW pr Q Q' \<and> pg_main Q' = Closing qs \<and> Closed q (as_cm (pg_api Q'))"
    if Q: "(program_step W SW pr)\<^sup>*\<^sup>* ?P1 Q" "pg_main Q = Closing (q # qs)" for Q q qs
  proof -
    note okQ = runs_ok [OF assms(1) runs_on(1) [OF assms(1) run Q(1)]]
    have "chans (set (q # qs)) (as_cm (pg_api Q))" using program_okD(3) [OF okQ] Q(2) by (simp add: calls_ok_def)
    from close_collected [OF this program_okD(1) [OF okQ]] pg_close [OF Q(2)] show ?thesis
      by (intro exI [of _ "Q\<lparr>pg_api := put_cm (mark_closed q (as_cm (pg_api Q))) (pg_api Q), pg_main := Closing qs\<rparr>"])
        (simp add: Closed_def)
  qed
  have closed: "Closed r (as_cm (pg_api Q)) \<and> Done r (as_cm (pg_api Q)) = ClosedChan"
    if Q: "(program_step W SW pr)\<^sup>*\<^sup>* ?P1 Q" "pg_main Q \<in> {ClosedAll, Exited}" "r \<in> set ?rs" for Q r
  proof -
    have "Closed r (as_cm (pg_api Q))"
      using runs_on(2) [OF assms(1) run Q(1) start [OF Q(3)]] Q(2) by (auto simp: dealt_with_def)
    with closed_done [OF api_okD(1) [OF program_okD(1) [OF runs_ok [OF assms(1) runs_on(1) [OF assms(1) run Q(1)]]]]]
    show ?thesis by blast
  qed
  have tunnel: "\<exists>p' sh. session_step SW (Tunnelling p, program_shared Q) (Tunnelling p', sh) \<and>
      c_closed (pi_client p') \<and> c_closed (pi_upstream p')"
    if "(program_step W SW pr)\<^sup>*\<^sup>* ?P1 Q" "pg_main Q \<in> {ClosedAll, Exited}" "pi_entry p \<in> set ?rs" "pi_main p = Selecting" for Q p
    using closed [OF that(1-3)] that(4) by (intro tunnel_can_close) simp_all
  show ?thesis
  proof (rule exI [of _ ?P1], rule exI [of _ ?rs], intro conjI allI impI ballI)
    show "program_step W SW pr P ?P1" by (rule step)
    show "set ?rs = {r. \<exists>st \<in> set (pg_sessions P). held st = Some r}" by (rule collect_live [OF assms(1,2,5)])
    show "\<exists>Q'. program_step W SW pr Q Q' \<and> pg_main Q' = Closing qs \<and> Closed q (as_cm (pg_api Q'))"
      if "(program_step W SW pr)\<^sup>*\<^sup>* ?P1 Q" "pg_main Q = Closing (q # qs)" for Q q qs
      by (rule next_close [OF that])
    show "Closed r (as_cm (pg_api Q))"
      if "(program_step W SW pr)\<^sup>*\<^sup>* ?P1 Q" "pg_main Q \<in> {ClosedAll, Exited}" "r \<in> set ?rs" for Q r
      by (rule conjunct1 [OF closed [OF that]])
    show "\<exists>p' sh. session_step SW (Tunnelling p, program_shared Q) (Tunnelling p', sh) \<and>
        c_closed (pi_client p') \<and> c_closed (pi_upstream p')"
      if "(program_step W SW pr)\<^sup>*\<^sup>* ?P1 Q" "pg_main Q \<in> {ClosedAll, Exited}" "pi_entry p \<in> set ?rs"
        "pi_main p = Selecting" for Q p
      by (rule tunnel [OF that])
    show "\<not> program_step W SW pr Q R" if "pg_main Q = Exited" for Q R by (rule exited_final [OF that])
  qed simp_all
qed

section \<open>A run\<close>

definition connect_world :: session_world where
  "connect_world = \<lparr>sw_readRequest = (\<lambda>c. (Inr (example_request\<lparr>rq_URL_User := Some ''direct''\<rparr>), c)),
     sw_writeRequest = (\<lambda>req c u. (True, c, u))\<rparr>"

definition example_process :: process where
  "example_process = projr (main_start (Load (\<lambda>_. Some ''pool: {}'') (\<lambda>d c. Some c)) filepath_Join filepath_Dir
      (\<lambda>_. True) ''now'' ''/etc/pp.yaml'' [] False)"

lemma example_started:
  "main_start (Load (\<lambda>_. Some ''pool: {}'') (\<lambda>d c. Some c)) filepath_Join filepath_Dir
      (\<lambda>_. True) ''now'' ''/etc/pp.yaml'' [] False = Inr example_process"
  "as_cm (start_state example_process ()) = NewManager"
  "as_pool (start_state example_process ()) = Pool_New (cfg_Pool Default)"
  "pr_listeners example_process = listeners (cfg_Server Default)"
proof -
  have load: "Load (\<lambda>_. Some ''pool: {}'') (\<lambda>d c. Some c) ''/etc/pp.yaml'' = Inr Default"
    by (simp add: Load_def) code_simp
  then obtain pr where pr: "main_start (Load (\<lambda>_. Some ''pool: {}'') (\<lambda>d c. Some c)) filepath_Join filepath_Dir
      (\<lambda>_. True) ''now'' ''/etc/pp.yaml'' [] False = Inr pr"
    by (auto simp: main_start_def Let_def)
  then have eq: "example_process = pr" by (simp add: example_process_def)
  have parts: "as_cm (start_state pr ()) = NewManager \<and> as_pool (start_state pr ()) = Pool_New (cfg_Pool Default) \<and>
      pr_listeners pr = listeners (cfg_Server Default)"
    using pr load by (auto simp: main_start_def Let_def start_state_def)
  show "main_start (Load (\<lambda>_. Some ''pool: {}'') (\<lambda>d c. Some c)) filepath_Join filepath_Dir
      (\<lambda>_. True) ''now'' ''/etc/pp.yaml'' [] False = Inr example_process" using pr eq by simp
  show "as_cm (start_state example_process ()) = NewManager"
    "as_pool (start_state example_process ()) = Pool_New (cfg_Pool Default)"
    "pr_listeners example_process = listeners (cfg_Server Default)"
    using parts eq by simp_all
qed

lemma runs_session:
  assumes "program_runs W SW pr P" and "\<not> ended (pg_main P)" and "k < length (pg_sessions P)"
    and "(session_step SW)\<^sup>*\<^sup>* (pg_sessions P ! k, program_shared P) (st, sh)"
    and "api_ok (pg_api P)"
  shows "program_runs W SW pr (put_shared sh (P\<lparr>pg_sessions := (pg_sessions P)[k := st]\<rparr>))"
  using assms(4)
proof (induction st sh rule: rtranclp_induct2)
  case refl
  have "put_shared (program_shared P) (P\<lparr>pg_sessions := (pg_sessions P)[k := pg_sessions P ! k]\<rparr>) = P"
    using put_same(2) [OF assms(5)] put_same(1) [OF assms(5)] by (simp add: put_shared_def program_shared_def)
  with assms(1) show ?case by simp
next
  case (step st sh st' sh')
  let ?P = "put_shared sh (P\<lparr>pg_sessions := (pg_sessions P)[k := st]\<rparr>)"
  have "program_step W SW pr ?P (put_shared sh' (?P\<lparr>pg_sessions := (pg_sessions ?P)[k := st']\<rparr>))"
    using assms(2,3) step.hyps(2) by (intro pg_session) simp_all
  from reach_step [OF step.IH this] show ?case
    by (simp add: put_shared_def put_cm_def put_pool_def put_server_def)
qed

text \<open>A CONNECT that names the direct upstream, from the accepted connection to its tunnel.\<close>

lemma connect_job:
  "\<exists>j. begin_session connect_world HTTPFront (fresh_conn []) = Parsed j \<and> job_ok j \<and> jb_preferred j = ''direct'' \<and>
    jb_announce j = announce_established \<and> usable (jb_client j)"
proof -
  obtain host port where "connect_target (example_request\<lparr>rq_URL_User := Some ''direct''\<rparr>) = (host, port)" by fastforce
  then show ?thesis
    by (simp add: connect_world_def http_job_def joinedHost_eq example_request_def preferred_of_def fresh_conn_def
        usable_def job_ok_def http_entry_fresh)
qed

lemma Default_pool:
  "p_all (Pool_New (cfg_Pool Default)) = [0]" "p_byName (Pool_New (cfg_Pool Default)) ''direct'' = Some 0"
  "up_Type (p_obj (Pool_New (cfg_Pool Default)) 0) = ''direct''"
  by code_simp+

lemma tunnel_serve:
  assumes "jb_preferred j = ''direct''" and "jb_announce j = announce_established" and "usable (jb_client j)"
    and "Session.server.sv_Pool sv = Pool_New (cfg_Pool Default)" and "sv_net sv = all_up"
  shows "\<exists>c u r sv'. serve (\<lambda>_ q. q) (\<lambda>_ _. 0) e (jb_refusal j) (jb_announce j) (jb_preferred j) (jb_host j)
      (jb_port j) (jb_client j) sv = Some (Piping c u r, sv') \<and>
    Session.server.sv_Pool sv' = Pool_New (cfg_Pool Default)"
proof -
  let ?p = "Pool_New (cfg_Pool Default)"
  have "Select (\<lambda>_. 0) ''direct'' (jb_host j) ?p = (Inr 0, ?p)"
    using Select_named [of ?p "''direct''" "\<lambda>_. 0" "jb_host j"] by (simp add: Default_pool effective_name_def)
  moreover obtain w where "Dial (Some (p_obj ?p 0)) (jb_host j) (jb_port j) all_up = (Inr (fresh_conn []), w)"
    by (simp add: Dial_def Default_pool joinedHost_eq tcpDial_def all_up_def Let_def)
  ultimately have d: "dialWithFailover (\<lambda>_ q. q) (\<lambda>_ _. 0) ''direct'' (jb_host j) (jb_port j) ?p all_up =
      Some ((Inr (fresh_conn []), up_Name (p_obj ?p 0)), ?p, w)"
    by (simp add: dialWithFailover_def pick_def)
  obtain c where "announce_established (jb_client j) (fresh_conn []) = (True, c, fresh_conn [])"
    using assms(3) by (simp add: announce_established_def writeConn_def usable_def)
  with d assms show ?thesis by (simp add: serve_def Let_def split: prod.split)
qed

lemma tunnel_run:
  assumes run: "program_runs offline connect_world example_process (P :: 'f program)" and main: "\<not> ended (pg_main P)"
    and P: "pg_sessions P = [Accepted HTTPFront (fresh_conn [])]" "as_cm (pg_api P) = NewManager"
      "as_pool (pg_api P) = Pool_New (cfg_Pool Default)" "pg_net P = all_up"
  shows "\<exists>(Q :: 'f program) p. program_runs offline connect_world example_process Q \<and> pg_main Q = pg_main P \<and>
    pg_cancelled Q = pg_cancelled P \<and> pg_sessions Q = [Tunnelling p] \<and> pi_main p = Selecting \<and>
    \<not> Closed (pi_entry p) (as_cm (pg_api Q)) \<and> small_pool (as_pool (pg_api Q))"
proof -
  note ok = runs_ok [OF example_started(1) run]
  define sv where "sv = \<lparr>Session.server.sv_Pool = as_pool (pg_api P), Session.server.sv_Cm = as_cm (pg_api P), sv_net = pg_net P\<rparr>"
  have sv: "shared_of sv = program_shared P" "Session.server.sv_Pool sv = Pool_New (cfg_Pool Default)" "sv_net sv = all_up"
    "Session.server.sv_Cm sv = NewManager"
    using P by (simp_all add: sv_def shared_of_def program_shared_def)
  obtain j where j: "begin_session connect_world HTTPFront (fresh_conn []) = Parsed j" "job_ok j"
    "jb_preferred j = ''direct''" "jb_announce j = announce_established" "usable (jb_client j)"
    using connect_job by blast
  let ?b = "replicate 8 (0 :: byte)" and ?rnd = "\<lambda>(_ :: nat) (_ :: nat). 0 :: nat"
  let ?e = "jb_entry j (newID ?b) 0 ''127.0.0.1:5000''"
  have e: "fresh_entry ?e" using j(2) by (simp add: job_ok_def)
  have pool: "pool_ok (Session.server.sv_Pool sv)" "small_pool (Session.server.sv_Pool sv)"
    using api_okD(2) [OF program_okD(1) [OF ok]] P(3)
    by (simp_all add: sv(2) pool_inv_def) (simp add: small_pool_def Default_pool)
  have cm: "cm_ok (Session.server.sv_Cm sv)" and free: "Manager_Get i (Session.server.sv_Cm sv) = None" for i
    by (simp_all add: sv(4) cm_ok_NewManager) (simp add: Manager_Get_def NewManager_def)
  from tunnel_serve [OF j(3-5) sv(2,3), of ?e] obtain c u r sv' where
    s: "serve (\<lambda>_ q. q) ?rnd ?e (jb_refusal j) (jb_announce j) (jb_preferred j) (jb_host j) (jb_port j) (jb_client j) sv =
      Some (Piping c u r, sv')" "Session.server.sv_Pool sv' = Pool_New (cfg_Pool Default)" by blast
  from serve_session [OF pool(1) cm free e, of ?rnd "jb_refusal j" "jb_announce j" "jb_preferred j" "jb_host j"
      "jb_port j" "jb_client j"] s(1)
  have open_entry: "\<not> Closed r (Session.server.sv_Cm sv')" by (auto simp: session_ok_def)
  have "(session_step connect_world)\<^sup>*\<^sup>* (Parsed j, shared_of sv) (outcome (Piping c u r) sv', shared_of sv')"
    by (rule left_alone [OF s(1) pool _ _ free]) (simp_all add: rand_ok_zero)
  moreover have "session_step connect_world (pg_sessions P ! 0, program_shared P) (Parsed j, shared_of sv)"
    using ss_begin [of connect_world HTTPFront "fresh_conn []" "program_shared P"] j(1) P(1) by (simp add: sv(1))
  ultimately have "(session_step connect_world)\<^sup>*\<^sup>* (pg_sessions P ! 0, program_shared P)
      (outcome (Piping c u r) sv', shared_of sv')" by (rule converse_rtranclp_into_rtranclp [rotated])
  from runs_session [OF run main _ this program_okD(1) [OF ok]] P(1)
  have "program_runs offline connect_world example_process
      (put_shared (shared_of sv') (P\<lparr>pg_sessions := [outcome (Piping c u r) sv']\<rparr>))" by simp
  moreover have "as_cm (pg_api (put_shared (shared_of sv') (P\<lparr>pg_sessions := [outcome (Piping c u r) sv']\<rparr>))) =
      Session.server.sv_Cm sv'"
    "as_pool (pg_api (put_shared (shared_of sv') (P\<lparr>pg_sessions := [outcome (Piping c u r) sv']\<rparr>))) =
      Pool_New (cfg_Pool Default)"
    using s(2) by (simp_all add: put_shared_def shared_of_def)
  ultimately show ?thesis
    using open_entry
    by (intro exI [of _ "put_shared (shared_of sv') (P\<lparr>pg_sessions := [outcome (Piping c u r) sv']\<rparr>)"]
        exI [of _ "init_pipe c u r (Session.server.sv_Cm sv')"])
      (simp add: small_pool_def Default_pool init_pipe_def)
qed

text \<open>
  From the start: the HTTP listener binds and accepts one connection; if \<open>stopped\<close>, the signal
  arrives and \<open>main\<close> closes what is registered before the handler has read the request.
\<close>

definition example_program :: "unit program" where
  "example_program = \<lparr>pg_api = start_state example_process (), pg_calls = [], pg_net = all_up, pg_sessions = [],
     pg_listeners = started_listeners (pr_listeners example_process), pg_cancelled = False, pg_main = Serving\<rparr>"

lemma accepted_run:
  "\<exists>P :: unit program. program_runs offline connect_world example_process P \<and>
    pg_main P = (if stopped then ClosedAll else Serving) \<and> pg_cancelled P = stopped \<and>
    pg_sessions P = [Accepted HTTPFront (fresh_conn [])] \<and> as_cm (pg_api P) = NewManager \<and>
    as_pool (pg_api P) = Pool_New (cfg_Pool Default) \<and> pg_net P = all_up"
proof -
  let ?runs = "program_runs offline connect_world example_process :: unit program \<Rightarrow> bool"
  let ?P0 = example_program and ?l1 = "\<lparr>pl_loop = Accepting, pl_open = True\<rparr>"
  let ?P1 = "?P0\<lparr>pg_listeners := (pg_listeners ?P0)(HTTPFront \<mapsto> ?l1)\<rparr>"
  let ?P2 = "?P1\<lparr>pg_sessions := [Accepted HTTPFront (fresh_conn [])]\<rparr>"
  have r0: "?runs ?P0" by (rule reach_start) (auto simp: program_start_def example_program_def)
  have l0: "pg_listeners ?P0 HTTPFront = Some new_listener"
    by (simp add: example_program_def started_listeners_def example_started(4) listeners_def Default_def)
  have "program_step offline connect_world example_process ?P0 ?P1"
    using pg_listen [of ?P0 HTTPFront new_listener "Bind None" None ?l1 offline connect_world example_process] l0
    by (simp add: example_program_def listen_step_def new_listener_def)
  from reach_step [OF r0 this] have r1: "?runs ?P1" .
  have "program_step offline connect_world example_process ?P1 ?P2"
    using pg_listen [of ?P1 HTTPFront ?l1 "Accept (fresh_conn [])" "Some (fresh_conn [])" ?l1
        offline connect_world example_process]
    by (simp add: example_program_def listen_step_def)
  from reach_step [OF r1 this] have r2: "?runs ?P2" .
  have parts: "as_cm (pg_api ?P2) = NewManager" "as_pool (pg_api ?P2) = Pool_New (cfg_Pool Default)"
    by (simp_all add: example_program_def example_started)
  show ?thesis
  proof (cases stopped)
    case False
    with r2 parts show ?thesis by (intro exI [of _ ?P2]) (simp add: example_program_def)
  next
    case True
    let ?P3 = "?P2\<lparr>pg_cancelled := True\<rparr>"
    have "program_step offline connect_world example_process ?P2 ?P3"
      by (rule pg_signal) (simp add: example_program_def)
    from reach_step [OF r2 this] have r3: "?runs ?P3" .
    obtain ord where ord: "map_order ord" using map_order_exists by blast
    let ?P4 = "?P3\<lparr>pg_main := Closing []\<rparr>"
    have "ord NewManager = []" using ord by (auto simp: map_order_def NewManager_def dest: spec [of _ NewManager])
    then have "collect (ord (as_cm (pg_api ?P3))) (as_cm (pg_api ?P3)) = []"
      using parts(1) by (simp add: collect_def List.map_filter_def)
    then have "program_step offline connect_world example_process ?P3 ?P4"
      using pg_collect [of ?P3 ord offline connect_world example_process] ord by (simp add: example_program_def)
    from reach_step [OF r3 this] have r4: "?runs ?P4" .
    have "program_step offline connect_world example_process ?P4 (?P4\<lparr>pg_main := ClosedAll\<rparr>)"
      by (rule pg_closed) simp
    from reach_step [OF r4 this] True parts show ?thesis
      by (intro exI [of _ "?P4\<lparr>pg_main := ClosedAll\<rparr>"]) (simp add: example_program_def)
  qed
qed

lemma example_tunnel:
  "\<exists>(P :: unit program) p. program_runs offline connect_world example_process P \<and>
    pg_main P = (if stopped then ClosedAll else Serving) \<and> pg_sessions P = [Tunnelling p] \<and>
    pi_main p = Selecting \<and> \<not> Closed (pi_entry p) (as_cm (pg_api P)) \<and> small_pool (as_pool (pg_api P))"
proof -
  obtain P :: "unit program" where P: "program_runs offline connect_world example_process P"
    "pg_main P = (if stopped then ClosedAll else Serving)" "pg_sessions P = [Accepted HTTPFront (fresh_conn [])]"
    "as_cm (pg_api P) = NewManager" "as_pool (pg_api P) = Pool_New (cfg_Pool Default)" "pg_net P = all_up"
    using accepted_run [of stopped] by blast
  have "\<not> ended (pg_main P)" using P(2) by (cases stopped) simp_all
  from tunnel_run [OF P(1) this P(3-6)] P(2) show ?thesis by auto
qed

theorem program_refines_system_witness:
  "\<exists>(P :: unit program) p. program_runs offline connect_world example_process P \<and> pg_sessions P = [Tunnelling p] \<and>
    running offline example_process (pg_api P)"
proof -
  obtain P :: "unit program" and p where P: "program_runs offline connect_world example_process P"
    "pg_sessions P = [Tunnelling p]" using example_tunnel [of False] by blast
  with program_refines_system [OF example_started(1) P(1)] show ?thesis by blast
qed

theorem registry_is_live_sessions_witness:
  "\<exists>(P :: unit program) p. program_runs offline connect_world example_process P \<and> pg_sessions P = [Tunnelling p] \<and>
    Manager_Get (e_ID (m_obj (as_cm (pg_api P)) (pi_entry p))) (as_cm (pg_api P)) = Some (pi_entry p)"
proof -
  obtain P :: "unit program" and p where P: "program_runs offline connect_world example_process P"
    "pg_sessions P = [Tunnelling p]" using example_tunnel [of False] by blast
  have ex: "\<exists>!k. k < length (pg_sessions P) \<and> held (pg_sessions P ! k) = Some (pi_entry p)"
    by (rule ex1I [of _ 0]) (simp_all add: P(2))
  have "Manager_Get (e_ID (m_obj (as_cm (pg_api P)) (pi_entry p))) (as_cm (pg_api P)) = Some (pi_entry p)"
    by (rule iffD2 [OF registry_is_live_sessions [OF example_started(1) P(1), THEN conjunct1, THEN spec, THEN spec]])
      (rule conjI [OF ex refl])
  then show ?thesis by (intro exI [of _ P] exI [of _ p] conjI P)
qed



theorem shutdown_closes_live_sessions_witness:
  "\<exists>(P :: unit program) P1 p rs. program_runs offline connect_world example_process P \<and> pg_sessions P = [Tunnelling p] \<and>
    \<not> Closed (pi_entry p) (as_cm (pg_api P)) \<and> program_step offline connect_world example_process P P1 \<and>
    pg_main P1 = Closing rs \<and> set rs = {pi_entry p}"
proof -
  obtain P0 :: "unit program" and p where P0: "program_runs offline connect_world example_process P0"
    "pg_main P0 = Serving" "pg_sessions P0 = [Tunnelling p]" "\<not> Closed (pi_entry p) (as_cm (pg_api P0))"
    using example_tunnel [of False] by auto
  let ?P = "P0\<lparr>pg_cancelled := True\<rparr>"
  have "program_step offline connect_world example_process P0 ?P" by (rule pg_signal) (simp add: P0(2))
  from reach_step [OF P0(1) this] have run: "program_runs offline connect_world example_process ?P" .
  have state: "pg_main ?P = Serving" "pg_cancelled ?P" "pg_sessions ?P = [Tunnelling p]"
    "\<not> Closed (pi_entry p) (as_cm (pg_api ?P))" using P0(2-4) by simp_all
  from map_order_exists obtain ord where ord: "map_order ord" by (elim exE)
  note shut = shutdown_closes_live_sessions [OF example_started(1) run state(1,2) ord]
  show ?thesis
  proof (rule exE [OF shut], erule exE, goal_cases)
    case (1 P1 rs)
    note step = 1 [THEN conjunct1] and rest = 1 [THEN conjunct2]
    note main = rest [THEN conjunct1] and live = rest [THEN conjunct2, THEN conjunct2, THEN conjunct1]
    have "set rs = {pi_entry p}" unfolding live state(3) by auto
    with run state(3,4) step main show ?case
      by (intro exI [of _ ?P] exI [of _ P1] exI [of _ p] exI [of _ rs] conjI)
  qed
qed

text \<open>
  C37. What the shutdown misses: a connection that has been accepted but is not yet registered when
  \<open>main\<close> closes the registered ones goes on, is given a tunnel and is never told; it ends only
  with the process.
\<close>

theorem shutdown_misses_late_sessions:
  "\<exists>(P :: unit program) Q p. program_runs offline connect_world example_process P \<and> pg_main P = ClosedAll \<and>
    pg_sessions P = [Tunnelling p] \<and> pi_main p = Selecting \<and> \<not> Closed (pi_entry p) (as_cm (pg_api P)) \<and>
    program_step offline connect_world example_process P Q \<and> pg_main Q = Exited \<and> pg_sessions Q = pg_sessions P"
proof -
  obtain P :: "unit program" and p where P: "program_runs offline connect_world example_process P"
    "pg_main P = ClosedAll" "pg_sessions P = [Tunnelling p]" "pi_main p = Selecting"
    "\<not> Closed (pi_entry p) (as_cm (pg_api P))"
    using example_tunnel [of True] by auto
  then show ?thesis
    by (intro exI [of _ P] exI [of _ "P\<lparr>pg_main := Exited\<rparr>"] exI [of _ p]) (simp add: pg_exit)
qed

end
