(* ===== verification/Spec2Isabelle.thy ===== *)
theory Spec2Isabelle
  imports HttpServer Socks5Server ApiPool ApiStatus LoopProvenance SessionBound ProgramProps
begin

text \<open>
  PolyProxy runs a local HTTP and SOCKS5 proxy whose connections leave through a pool of
  upstream proxies, next to a web dashboard with a REST interface that also crawls free proxies from
  public sources, validates them and adds them to the pool. This development models the Go
  code of the repository and proves what it promises, and where it does not keep a promise,
  proves that instead.

  How the parts interact. \<open>cmd/proxypool/main.go\<close> loads a configuration, builds the pool from
  it and starts three listeners. A client of a proxy listener is read by
  \<open>internal/proxy/http.go\<close> or \<open>socks5.go\<close>, which find out the target; the request is registered
  with \<open>internal/conntrack\<close>, \<open>dialWithFailover\<close> asks \<open>internal/pool\<close> for upstreams and
  \<open>dialer.go\<close> to connect through them, and the two connections are piped together until one
  side ends, or somebody closes the entry. The API of \<open>internal/api\<close> shares the pool and
  the registry with the proxy servers; it runs the crawler and the validator of
  \<open>internal/freeproxy\<close> on request and in the dynamic loop.

  Ground. \<open>Prelude\<close> has the integer types, run-time panics, indexing, the seen-map loop and
  reachability with its principles of invariants and of simulation (locales, interpreted for the
  pool, the registry, the tunnel, the validator, the dynamic loop, the system and the process). \<open>GoText\<close>, \<open>GoPath\<close> and \<open>NetIP\<close>
  are what the code uses of Go's strings, paths and addresses, \<open>NetConn\<close> connections whose
  input comes in segments of arbitrary sizes and readers and writers over them.

  Theories and sources.
  \<open>Config\<close> is \<open>internal/config/config.go\<close>: validation decides exactly the valid configurations.
  \<open>Pool\<close> is \<open>internal/pool/pool.go\<close> over a store of upstreams that callers share: selection
  under the four strategies, the health checker tick by tick, the invariant under every interleaving of callers,
  and addition and removal as refinements of list operations.
  \<open>ConnTrack\<close> is \<open>internal/conntrack/conn.go\<close> over a store of entries: closing is safe and final.
  \<open>ProxyUtil\<close> is \<open>internal/proxy/util.go\<close> with the port parser of \<open>http.go\<close>.
  \<open>Dialer\<close> and \<open>DialerSpec\<close> are \<open>internal/proxy/dialer.go\<close>: what is written and read in a
  SOCKS5 handshake and a CONNECT, independence of segmentation, and that every connection is
  handed over or closed.
  \<open>Failover\<close> is \<open>dialWithFailover\<close>, with the steps of other goroutines between two selections
  as a parameter: it ends, and under round-robin finds a reachable upstream.
  \<open>Pipe\<close> is \<open>pipe\<close>, three goroutines as a step relation: the tunnel is faithful and comes
  down. \<open>Session\<close> composes registration, failover and the deferred calls in one go;
  \<open>HttpServer\<close> and \<open>Socks5Server\<close> are the handlers of one client.
  \<open>SessionSteps\<close> has the same handlers as a machine, one step for each access to the registry, the
  pool or the network, and shows that a handler that is left alone does what \<open>Session\<close> says;
  \<open>SessionBound\<close> bounds the steps of a handler that is not, by the upstreams the pool lists;
  \<open>RegistryFrame\<close> says what the registry keeps under everybody's steps, \<open>Sessions\<close> that any
  number of sessions keep the registry the list of their entries. \<open>Listener\<close> is
  \<open>ListenAndServe\<close> of both proxy servers.
  \<open>Sources\<close> is \<open>internal/freeproxy/sources.go\<close>, \<open>Crawler\<close> is \<open>crawler.go\<close>, \<open>Logger\<close> is
  \<open>logger.go\<close>; \<open>ProxyTest\<close> and \<open>Validator\<close> are \<open>validator.go\<close>, the probe of one proxy and
  the goroutines of a validation with their semaphore, wait group and counters.
  \<open>Api\<close> has the handlers of \<open>internal/api/api.go\<close>, \<open>ApiPool\<close> and \<open>ApiStatus\<close> their properties
  (saving, adding, deleting, polling), \<open>DynamicLoop\<close> the periodic loop of the same file,
  \<open>LoopProvenance\<close> where the upstreams come from that it adds.
  \<open>Web\<close> is \<open>internal/web/web.go\<close>, \<open>Startup\<close> is \<open>main.go\<close> with \<open>DefaultConfigPath\<close>.
  \<open>System\<close> is the state that the whole process shares with what may happen to it: the critical
  sections of the API, the dynamic loops and validations, and anybody who uses the registry and the
  pool through their operations. \<open>ApiCalls\<close> has every handler of the API twice, in one go and as a
  machine with one step for each critical section, and shows that a request nobody comes in
  between of is the former; \<open>ApiSafe\<close> what a request relies on and guarantees when others do.
  \<open>Program\<close> is the running process of \<open>main.go\<close>: the listeners, one session machine per accepted
  connection, the requests of the API that are under way, the health checker, the signal and the
  shutdown, with the loop of \<open>CloseAll\<close> one connection at a time. It refines \<open>System\<close>;
  \<open>ProgramProps\<close> and the end of this theory have what only the whole process shows: the
  registry is the list of the live sessions, the API shows these, every request is answered, no
  session gets stuck, and what the shutdown closes and what it misses.

  Correspondence. Names are those of the source; record fields carry a short prefix. A function that
  can panic returns a sum with the panic on the left; a function with a Go error returns a
  sum or an option. Pointers are references into an explicit store where aliasing matters
  (upstreams, entries, dynamic runners). Goroutines are step relations, one step for each critical section,
  channel operation or call that blocks, so a property of reachable states
  holds for every schedule. Counters that Go keeps in 64 bits are words; ports are 16 bits.

  Termination and bounds. All functions are total without fuel: loops recurse over their
  data or have a measure (\<open>failover_loop\<close>: attempts left; \<open>extractField\<close>: the size of the
  value; \<open>find_all\<close>: the text left). That loops with an outside (failover, pipe,
  validation) end is proved as a theorem about their steps.

  Parameters. The network (\<open>net\<close>: which dial succeeds and with what input), random numbers,
  the clock, the order of map iterations, \<open>http.ReadRequest\<close>, \<open>http.Client\<close>, the decoding of
  JSON and YAML, regular expressions other than the default one, the file system and the environment.

  Panics. A panic of the dynamic loop ends the process, as a step of \<open>Program\<close> of its own; that sessions,
  requests and the shutdown have none is proved. A call of the API is a well-founded tree of steps, so
  a request takes only finitely many of its own under any schedule (\<open>request_not_forever\<close>).

  Conditions. A step that names a connection draws eight random bytes that do not name a registered
  one; \<open>rand.Intn\<close> stays below its bound, for a pool that fits into memory. Both are premises of the
  steps concerned, and \<open>sessions_never_stuck\<close> shows that such bytes exist.

  Not modelled. The listener of the API (\<open>http.Server\<close> with its graceful shutdown) and the final sleep
  of \<open>main.go\<close>: no decision of the code. Times in results and the durations of timeouts, beyond their
  computation: only the read deadline of a tunnel is a step. Data races of unlocked fields are not
  behaviours of the model; where the code has one, it is listed as a finding.

  The responses of the API are values before their JSON encoding, the requests after their decoding: both
  are the standard library's. Entry.Close sets its flag and closes its channel in one step.
\<close>

section \<open>The process as a whole\<close>

text \<open>
  C4. In every state a started process can reach, with sessions, health checks, validations, dynamic
  loops and the other requests anywhere in their course, every request that is under way can
  run to its end without a panic, whatever the others have done in the meantime, and is answered with
  one of five status codes. No step of it drops or reopens a connection. The names of the pool
  stay different and its strategy known, and at most one dynamic loop is alive.
\<close>

theorem every_request_answered:
  assumes "main_start (Load readFile unmarshal) join dir openLog now defaultPath cfgFlag showVer = Inr pr"
    and "program_runs W SW pr P" and "\<not> ended (pg_main P)" and "k < length (pg_calls P)"
  shows "(\<exists>resp a'. alone (pg_calls P ! k) (pg_api P) = Inr (resp, a') \<and> rs_Code resp \<in> {200, 400, 404, 405, 500} \<and>
      (program_step W SW pr)\<^sup>*\<^sup>* P (P\<lparr>pg_api := a', pg_calls := (pg_calls P)[k := Reply resp]\<rparr>)) \<and>
    (\<forall>u c. pg_calls P ! k = Atomic u c \<longrightarrow>
      (\<forall>i. Manager_Get i (as_cm (u (pg_api P))) = Manager_Get i (as_cm (pg_api P))) \<and>
      (\<forall>e. Closed e (as_cm (pg_api P)) \<longrightarrow> Closed e (as_cm (u (pg_api P))))) \<and>
    distinct (names (as_pool (pg_api P))) \<and> p_strategy (as_pool (pg_api P)) \<in> set known_strategies \<and>
    (\<forall>i < length (dy_runners (as_dyn (pg_api P))). \<not> rn_cancelled (dy_runners (as_dyn (pg_api P)) ! i) \<longrightarrow>
       dy_current (as_dyn (pg_api P)) = Some i)"
proof -
  let ?a = "pg_api P"
  note ok = runs_ok [OF assms(1,2)]
  note api = program_okD(1) [OF ok]
  have call: "call_ok W ?a (pg_calls P ! k)"
    using program_okD(3) [OF ok] nth_mem [OF assms(4)] by (simp add: calls_ok_def)
  then obtain R where "chans R (as_cm ?a)" "safe W R (pg_calls P ! k)" by (auto simp: call_ok_def)
  from safe_alone [OF this(2) api this(1)] obtain resp a' where
    end_state: "alone (pg_calls P ! k) ?a = Inr (resp, a')" "rs_Code resp \<in> {200, 400, 404, 405, 500}" by blast
  note run = call_runs [OF assms(3,4) refl end_state(1), of W SW pr]
  have step: "(\<forall>i. Manager_Get i (as_cm (u ?a)) = Manager_Get i (as_cm ?a)) \<and>
      (\<forall>e. Closed e (as_cm ?a) \<longrightarrow> Closed e (as_cm (u ?a)))" if "pg_calls P ! k = Atomic u c" for u c
  proof -
    have same: "same_registry (as_cm ?a) (as_cm (u ?a))"
      using call_ok_step [OF call [unfolded that] api] by blast
    with same_registry_keeps(2) [OF same] show ?thesis by (simp add: same_registry_def Manager_Get_def)
  qed
  have "pool_inv (as_pool ?a)" "dyn_inv (as_dyn ?a)" using api by (simp_all add: api_ok_def server_ok_def)
  with end_state run step dyn_invD(4) [of "as_dyn ?a"] show ?thesis
    by (intro conjI exI [of _ resp] exI [of _ a']) (simp_all add: pool_inv_def pool_ok_distinct_names)
qed

lemma every_request_answered_witness:
  "\<exists>(P :: unit program) ord resp a'. program_runs offline connect_world example_process P \<and>
    pg_calls P = [API_call offline_env ord (req ''POST'' ''/api/proxies/fetch'')] \<and>
    (program_step offline connect_world example_process)\<^sup>*\<^sup>* P (P\<lparr>pg_api := a', pg_calls := [Reply resp]\<rparr>)"
proof -
  from map_order_exists obtain ord where ord: "map_order ord" by (elim exE)
  let ?r = "req ''POST'' ''/api/proxies/fetch''"
  let ?P = "example_program\<lparr>pg_calls := [API_call offline_env ord ?r]\<rparr>"
  have listener: "APIListener ''127.0.0.1:9090'' \<in> set (pr_listeners example_process)"
    by (simp add: example_started(4) listeners_def Default_def)
  have groups: "\<forall>s \<in> set (ae_sources offline_env). two_groups (ae_compile offline_env) s"
    by (simp add: offline_env_def offline_def two_groups_def)
  have start: "program_runs offline connect_world example_process example_program"
    by (rule reach_start) (auto simp: program_start_def example_program_def)
  have step: "program_step offline connect_world example_process example_program ?P"
    using pg_request [OF _ listener ord groups, of example_program offline connect_world ?r]
    by (simp add: example_program_def)
  have run: "program_runs offline connect_world example_process ?P" by (rule reach_step, rule start, rule step)
  have "\<not> ended (pg_main ?P)" "0 < length (pg_calls ?P)" by (simp_all add: example_program_def)
  note answered = every_request_answered [OF example_started(1) run this, THEN conjunct1]
  show ?thesis
  proof (rule exE [OF answered], erule exE, goal_cases)
    case (1 resp a')
    note steps = 1 [THEN conjunct2, THEN conjunct2]
    have "(pg_calls ?P)[0 := Reply resp] = [Reply resp]" by simp
    with steps run show ?case
      by (intro exI [of _ ?P] exI [of _ ord] exI [of _ resp] exI [of _ a'] conjI) simp_all
  qed
qed

end
